(* ===== verification/Prelude.thy ===== *)
theory Prelude
  imports Main "HOL-Library.Word" "HOL-Library.Sublist"
begin

unbundle bit_operations_syntax

text \<open>
  Shared vocabulary of the development: the machine integers of the C sources, the status
  codes of \<^verbatim>\<open>flight/core/status.h\<close>, the sequencing of fallible calls, out-parameters,
  the collections of facts the component theories extend, and lemmas on words and lists
  that more than one component uses.
\<close>

section \<open>Integers and status codes\<close>

type_synonym u8 = "8 word"
type_synonym u16 = "16 word"
type_synonym u32 = "32 word"
type_synonym u64 = "64 word"

datatype obc_status = OBC_OK | OBC_ERR_TIMEOUT | OBC_ERR_INVALID | OBC_ERR_UNSTABLE

text \<open>
  A pointer parameter the C code may find null: \<open>None\<close> is the null pointer, \<open>Some v\<close>
  a valid pointer whose cell holds \<open>v\<close>. A call that writes the cell returns the new one.
\<close>

type_synonym 'a ptr = "'a option"

text \<open>
  Control flow. \<open>Ret x\<close> is an ordinary return; \<open>Reset\<close> is a call that never returns
  because the machine is reset under it (\<^verbatim>\<open>noreturn\<close> in C).
\<close>

datatype 'a flow = Ret 'a | Reset

named_theorems obc_frame \<open>which parts of the state an operation leaves alone\<close>
named_theorems obc_consts \<open>the numeric constants of the C headers\<close>

section \<open>Sequencing fallible calls\<close>

text \<open>
  The recurring idiom \<^verbatim>\<open>if (w == OBC_OK) { w = f(...); }\<close>: the next call runs only while
  the status is still \<open>OBC_OK\<close>, and the first error is what the chain returns.
\<close>

definition and_then ::
  "obc_status \<times> 's \<Rightarrow> ('s \<Rightarrow> obc_status \<times> 's) \<Rightarrow> obc_status \<times> 's" where
  "and_then r f = (case r of (st, s) \<Rightarrow> if st = OBC_OK then f s else (st, s))"

lemma and_then_ok [simp]: "and_then (OBC_OK, s) f = f s"
  by (simp add: and_then_def)

lemma and_then_err [simp]: "st \<noteq> OBC_OK \<Longrightarrow> and_then (st, s) f = (st, s)"
  by (simp add: and_then_def)

lemma fst_and_then_ok:
  "fst (and_then r f) = OBC_OK \<longleftrightarrow> fst r = OBC_OK \<and> fst (f (snd r)) = OBC_OK"
  by (auto simp: and_then_def split: prod.splits)

section \<open>Saturating counters\<close>

text \<open>The closed form of every counter that stops at its ceiling.\<close>

definition sat_inc :: "u32 \<Rightarrow> u32" where
  "sat_inc c = (if c < 0xFFFFFFFF then c + 1 else c)"

lemma word_less_max_iff: "c < (0xFFFFFFFF::u32) \<longleftrightarrow> c \<noteq> 0xFFFFFFFF"
proof -
  have "(0xFFFFFFFF::u32) = -1" by simp
  then show ?thesis by (metis word_order.not_eq_extremum)
qed

lemma unat_less_max: "c \<noteq> (0xFFFFFFFF::u32) \<Longrightarrow> unat c < 4294967295"
  using word_less_max_iff [of c] by (simp add: word_less_nat_alt)

lemma unat_inc:
  "c \<noteq> (0xFFFFFFFF::u32) \<Longrightarrow> unat (c + 1) = unat c + 1"
  using unat_less_max [of c] by (simp add: unat_word_ariths)

lemma unat_sat_inc: "unat (sat_inc c) = min 4294967295 (unat c + 1)"
proof (cases "c = 0xFFFFFFFF")
  case True
  then show ?thesis by (simp add: sat_inc_def)
next
  case False
  then show ?thesis
    using unat_less_max [of c] by (simp add: sat_inc_def word_less_max_iff unat_inc)
qed

section \<open>Frames and periods\<close>

lemma word_mod_eq_0: "(g::u32) mod p = 0 \<longleftrightarrow> unat p dvd unat g"
  by (simp add: word_unat_eq_iff unat_mod_distrib mod_eq_0_iff_dvd)

text \<open>Between two consecutive multiples of a period there is none.\<close>

lemma next_multiple:
  fixes f p g :: u32
  assumes "f mod p = 0" and "unat f + unat p < 2 ^ 32"
  shows "unat (f + p) = unat f + unat p" "(f + p) mod p = 0"
    "f < g \<Longrightarrow> g < f + p \<Longrightarrow> g mod p \<noteq> 0"
proof -
  show sum: "unat (f + p) = unat f + unat p" using assms(2) by (simp add: unat_word_ariths)
  show "(f + p) mod p = 0" using assms(1) unfolding word_mod_eq_0 sum by simp
  assume "f < g" "g < f + p"
  then have g: "unat f < unat g" "unat g < unat f + unat p"
    unfolding word_less_nat_alt sum by simp_all
  show "g mod p \<noteq> 0"
  proof
    assume "g mod p = 0"
    then have "unat p dvd unat g - unat f"
      using assms(1) unfolding word_mod_eq_0 by (rule dvd_diff_nat)
    then show False using g by (auto dest: dvd_imp_le)
  qed
qed

section \<open>Bytes of a word\<close>

lemma unat_ucast_up [simp]:
  "unat (ucast (x::u8) :: u16) = unat x" "unat (ucast (x::u8) :: u32) = unat x"
  "unat (ucast (y::u16) :: u32) = unat y"
  using unsigned_less [of x, where 'a = nat] unsigned_less [of y, where 'a = nat]
  by (simp_all add: unsigned_ucast_eq take_bit_nat_eq_self_iff)

lemma unat_u8_less: "unat (x::u8) < 256"
  using unsigned_less [of x, where 'a = nat] by simp

lemma unat_u16_less: "unat (x::u16) < 65536"
  using unsigned_less [of x, where 'a = nat] by simp

lemma nth_ucast_u32_u8: "bit (ucast (w::u32) :: u8) n \<longleftrightarrow> n < 8 \<and> bit w n"
  by (simp add: bit_simps)

lemma join_u64:
  "push_bit 32 (ucast (ucast (drop_bit 32 (x::u64)) :: u32)) OR ucast (ucast x :: u32) = x"
  by (rule bit_word_eqI) (auto simp: bit_simps)

lemma unat_u64_split:
  "unat (x::u64) = unat (ucast (drop_bit 32 x) :: u32) * 2 ^ 32 + unat (ucast x :: u32)"
proof -
  have hi: "unat (ucast (drop_bit 32 x) :: u32) = unat x div 2 ^ 32"
  proof -
    have "unat x < 2 ^ 64" using unsigned_less [of x, where 'a = nat] by simp
    then have "unat x div 2 ^ 32 < 2 ^ 32" by (simp add: less_mult_imp_div_less)
    then show ?thesis
      by (simp add: unsigned_ucast_eq take_bit_eq_mod drop_bit_eq_div unat_div_distrib)
  qed
  have lo: "unat (ucast x :: u32) = unat x mod 2 ^ 32"
    by (simp add: unsigned_ucast_eq take_bit_eq_mod)
  show ?thesis unfolding hi lo by (simp add: div_mult_mod_eq)
qed

section \<open>Lists\<close>

lemma suffix_ConsI2: "suffix xs ys \<Longrightarrow> suffix xs (y # ys)"
  by (auto simp: suffix_def)

lemma fold_take_Suc:
  "k < length fs \<Longrightarrow> fold (\<lambda>f r. f r) (take (Suc k) fs) r = (fs ! k) (fold (\<lambda>f r. f r) (take k fs) r)"
  by (simp add: take_Suc_conv_app_nth)

end
