(* ===== verification/Hw.thy ===== *)
theory Hw
  imports Prelude
begin

text \<open>
  The memory-mapped bus and the retired-instruction counter: the only way the flight code
  meets the machine. A device is code that is not under \<^verbatim>\<open>src/\<close>, so what a read returns is
  a parameter: \<open>dev\<close> answers the read of an address from the history of everything the
  program has done on the bus so far, which covers FIFOs, timers and stalled ports alike.
  The history is what the hardware can observe, newest event first. \<open>instret\<close> answers
  \<^verbatim>\<open>csrr minstret\<close> the same way.
\<close>

section \<open>Bus events\<close>

datatype io_event =
    Rd u32 u32   \<comment> \<open>address, value returned\<close>
  | Wr u32 u32   \<comment> \<open>address, value written\<close>
  | Instret u32  \<comment> \<open>value of \<open>minstret\<close>\<close>

record hw =
  dev :: "io_event list \<Rightarrow> u32 \<Rightarrow> u32"
  instret :: "io_event list \<Rightarrow> u32"
  io :: "io_event list"

definition bus_read :: "u32 \<Rightarrow> hw \<Rightarrow> u32 \<times> hw" where
  "bus_read a h = (let v = dev h (io h) a in (v, h\<lparr>io := Rd a v # io h\<rparr>))"

definition bus_write :: "u32 \<Rightarrow> u32 \<Rightarrow> hw \<Rightarrow> hw" where
  "bus_write a v h = h\<lparr>io := Wr a v # io h\<rparr>"

definition read_minstret :: "hw \<Rightarrow> u32 \<times> hw" where
  "read_minstret h = (let v = instret h (io h) in (v, h\<lparr>io := Instret v # io h\<rparr>))"

lemma bus_read_dev [simp]:
  "dev (snd (bus_read a h)) = dev h" "instret (snd (bus_read a h)) = instret h"
  by (simp_all add: bus_read_def Let_def)

lemma bus_write_dev [simp]:
  "dev (bus_write a v h) = dev h" "instret (bus_write a v h) = instret h"
  by (simp_all add: bus_write_def)

lemma read_minstret_dev [simp]:
  "dev (snd (read_minstret h)) = dev h" "instret (snd (read_minstret h)) = instret h"
  by (simp_all add: read_minstret_def Let_def)

section \<open>Only the bus moves\<close>

text \<open>
  Two machines are on one \<^emph>\<open>run\<close> when the second has the same devices and a history that
  continues the first one's: what every routine of the drivers does to the hardware.
\<close>

definition hw_run :: "hw \<Rightarrow> hw \<Rightarrow> bool" where
  "hw_run h h' \<longleftrightarrow> dev h' = dev h \<and> instret h' = instret h \<and> suffix (io h) (io h')"

lemma hw_run_refl [simp, intro]: "hw_run h h"
  by (simp add: hw_run_def)

lemma hw_run_trans [trans]: "hw_run a b \<Longrightarrow> hw_run b c \<Longrightarrow> hw_run a c"
  unfolding hw_run_def using suffix_order.trans by metis

lemma hw_run_bus_read [simp, intro]: "hw_run h (snd (bus_read a h))"
  by (simp add: hw_run_def bus_read_def Let_def suffix_ConsI2)

lemma hw_run_bus_write [simp, intro]: "hw_run h (bus_write a v h)"
  by (simp add: hw_run_def bus_write_def suffix_ConsI2)

lemma hw_run_read_minstret [simp, intro]: "hw_run h (snd (read_minstret h))"
  by (simp add: hw_run_def read_minstret_def Let_def suffix_ConsI2)

lemma hw_run_length: "hw_run h h' \<Longrightarrow> length (io h) \<le> length (io h')"
  by (auto simp: hw_run_def suffix_def)

text \<open>What the program wrote to one address, oldest first.\<close>

fun writes_to :: "u32 \<Rightarrow> io_event list \<Rightarrow> u32 list" where
  "writes_to a [] = []"
| "writes_to a (Wr b v # es) = (if a = b then writes_to a es @ [v] else writes_to a es)"
| "writes_to a (_ # es) = writes_to a es"

fun reads_of :: "u32 \<Rightarrow> io_event list \<Rightarrow> nat" where
  "reads_of a [] = 0"
| "reads_of a (Rd b v # es) = (if a = b then Suc (reads_of a es) else reads_of a es)"
| "reads_of a (_ # es) = reads_of a es"

end
