(* ===== verification/Mtime.thy ===== *)
theory Mtime
  imports Hw
begin

text \<open>
  The machine timer, \<^verbatim>\<open>flight/hal/mtime.c\<close>: a 64-bit counter behind two 32-bit registers,
  read high / low / high again and retried while the high word moves. The state is the
  component's one global, the count of exhausted retry budgets. The facts at the end say
  what a successful read returns on a counter that never runs backwards, when a read
  succeeds, and what a failed one leaves behind.
\<close>

section \<open>The reader\<close>

definition MTIME_LO :: u32 where [obc_consts]: "MTIME_LO = 0x0200BFF8"
definition MTIME_HI :: u32 where [obc_consts]: "MTIME_HI = 0x0200BFFC"
definition MTIME_READ_ATTEMPTS :: nat where [obc_consts]: "MTIME_READ_ATTEMPTS = 4"
definition OBC_MTIME_HZ :: u32 where [obc_consts]: "OBC_MTIME_HZ = 32768"

record machine =
  hw :: hw
  s_unstable_count :: u32

text \<open>
  The retry loop, with the attempts left as its first argument. \<open>None\<close>: no attempt saw
  the high word hold still.
\<close>

fun mtime_attempts :: "nat \<Rightarrow> hw \<Rightarrow> u64 option \<times> hw" where
  "mtime_attempts 0 h = (None, h)"
| "mtime_attempts (Suc n) h =
     (let (hi, h1) = bus_read MTIME_HI h;
          (lo, h2) = bus_read MTIME_LO h1;
          (hi_again, h3) = bus_read MTIME_HI h2
      in if hi = hi_again then (Some (push_bit 32 (ucast hi) OR ucast lo), h3)
         else mtime_attempts n h3)"

text \<open>
  \<^verbatim>\<open>obc_mtime_read\<close>: the status, the out-parameter's cell after the call, and the state.
\<close>

definition obc_mtime_read ::
  "u64 ptr \<Rightarrow> 'a machine_scheme \<Rightarrow> obc_status \<times> u64 ptr \<times> 'a machine_scheme" where
  "obc_mtime_read out s =
     (case out of
        None \<Rightarrow> (OBC_ERR_INVALID, out, s)
      | Some _ \<Rightarrow>
          (case mtime_attempts MTIME_READ_ATTEMPTS (hw s) of
             (Some v, h) \<Rightarrow> (OBC_OK, Some v, s\<lparr>hw := h\<rparr>)
           | (None, h) \<Rightarrow>
               (OBC_ERR_UNSTABLE, out,
                s\<lparr>hw := h, s_unstable_count := s_unstable_count s + 1\<rparr>)))"

definition obc_mtime_unstable_count :: "'a machine_scheme \<Rightarrow> u32" where
  "obc_mtime_unstable_count s = s_unstable_count s"

section \<open>The counter behind the registers\<close>

text \<open>
  Documented behaviour of the ACLINT timer: the two registers show the halves of one
  64-bit count \<open>T\<close>, which depends on when it is looked at and never decreases.
\<close>

definition shows_counter :: "(io_event list \<Rightarrow> u64) \<Rightarrow> hw \<Rightarrow> bool" where
  "shows_counter T h \<longleftrightarrow>
     (\<forall>t. dev h t MTIME_LO = ucast (T t) \<and> dev h t MTIME_HI = ucast (drop_bit 32 (T t)))"

definition never_backwards :: "(io_event list \<Rightarrow> u64) \<Rightarrow> bool" where
  "never_backwards T \<longleftrightarrow> (\<forall>e t. T t \<le> T (e # t))"

lemma never_backwards_suffix:
  assumes "never_backwards T" and "suffix t t'"
  shows "T t \<le> T t'"
proof -
  obtain es where "t' = es @ t" using assms(2) by (auto simp: suffix_def)
  moreover have "T t \<le> T (es @ t)" for es
    using assms(1) by (induction es) (auto simp: never_backwards_def intro: order.trans)
  ultimately show ?thesis by simp
qed

lemma shows_counter_run: "hw_run h h' \<Longrightarrow> shows_counter T h' = shows_counter T h"
  by (simp add: shows_counter_def hw_run_def)

section \<open>Facts about the loop\<close>

lemma hw_run_mtime_attempts: "hw_run h (snd (mtime_attempts n h))"
proof (induction n arbitrary: h)
  case 0
  then show ?case by simp
next
  case (Suc n)
  let ?h3 = "snd (bus_read MTIME_HI (snd (bus_read MTIME_LO (snd (bus_read MTIME_HI h)))))"
  have "hw_run h ?h3" by (meson hw_run_bus_read hw_run_trans)
  then show ?case
    using hw_run_trans [OF _ Suc.IH [of ?h3]] by (simp add: case_prod_beta Let_def)
qed

lemma mtime_attempts_length: "length (io (snd (mtime_attempts n h))) \<le> length (io h) + 3 * n"
proof (induction n arbitrary: h)
  case 0
  then show ?case by simp
next
  case (Suc n)
  let ?h3 = "snd (bus_read MTIME_HI (snd (bus_read MTIME_LO (snd (bus_read MTIME_HI h)))))"
  have "length (io ?h3) = length (io h) + 3" by (simp add: bus_read_def Let_def)
  then show ?case
    using Suc.IH [of ?h3] by (auto simp: case_prod_beta Let_def)
qed

text \<open>
  The two high words agree and the count never runs backwards, so the high word was the
  same at the low read between them: the value is the count at that instant.
\<close>

lemma high_word_mono:
  "(x::u64) \<le> y \<Longrightarrow> (ucast (drop_bit 32 x) :: u32) \<le> ucast (drop_bit 32 y)"
  using unat_u64_split [of x] unat_u64_split [of y]
    unsigned_less [of "ucast x :: u32", where 'a = nat] unsigned_less [of "ucast y :: u32", where 'a = nat]
  by (simp add: word_le_nat_alt)

lemma sandwiched_count:
  fixes a b c :: u64
  assumes "a \<le> b" "b \<le> c"
    and "(ucast (drop_bit 32 a) :: u32) = ucast (drop_bit 32 c)"
  shows "push_bit 32 (ucast (ucast (drop_bit 32 a) :: u32)) OR ucast (ucast b :: u32) = b"
proof -
  have "(ucast (drop_bit 32 a) :: u32) \<le> ucast (drop_bit 32 b)"
    and "(ucast (drop_bit 32 b) :: u32) \<le> ucast (drop_bit 32 c)"
    using assms(1,2) by (simp_all add: high_word_mono)
  with assms(3) have "(ucast (drop_bit 32 a) :: u32) = ucast (drop_bit 32 b)" by simp
  then show ?thesis using join_u64 [of b] by simp
qed

lemma mtime_attempts_exact:
  assumes "shows_counter T h" and "never_backwards T"
    and "mtime_attempts n h = (Some v, h')"
  shows "\<exists>t. v = T t \<and> suffix (io h) t \<and> suffix t (io h')"
  using assms
proof (induction n arbitrary: h)
  case 0
  then show ?case by simp
next
  case (Suc n)
  define h1 where "h1 = snd (bus_read MTIME_HI h)"
  define h2 where "h2 = snd (bus_read MTIME_LO h1)"
  define h3 where "h3 = snd (bus_read MTIME_HI h2)"
  have run: "hw_run h h1" "hw_run h1 h2" "hw_run h2 h3"
    by (simp_all add: h1_def h2_def h3_def)
  have vals: "fst (bus_read MTIME_HI h) = ucast (drop_bit 32 (T (io h)))"
    "fst (bus_read MTIME_LO h1) = ucast (T (io h1))"
    "fst (bus_read MTIME_HI h2) = ucast (drop_bit 32 (T (io h2)))"
    using Suc.prems(1) run by (simp_all add: shows_counter_def hw_run_def bus_read_def Let_def)
  have mono: "T (io h) \<le> T (io h1)" "T (io h1) \<le> T (io h2)"
    using run Suc.prems(2) by (simp_all add: hw_run_def never_backwards_suffix)
  have step: "mtime_attempts (Suc n) h =
    (if (ucast (drop_bit 32 (T (io h))) :: u32) = ucast (drop_bit 32 (T (io h2)))
     then (Some (push_bit 32 (ucast (ucast (drop_bit 32 (T (io h))) :: u32))
                 OR ucast (ucast (T (io h1)) :: u32)), h3)
     else mtime_attempts n h3)"
    by (simp add: case_prod_beta Let_def vals h1_def [symmetric] h2_def [symmetric]
        h3_def [symmetric])
  show ?case
  proof (cases "(ucast (drop_bit 32 (T (io h))) :: u32) = ucast (drop_bit 32 (T (io h2)))")
    case True
    have "(Some v, h') = (Some (T (io h1)), h3)"
      using step Suc.prems(3) True sandwiched_count [OF mono True]
      by (simp del: mtime_attempts.simps)
    then have "v = T (io h1)" and "h' = h3" by simp_all
    then show ?thesis using run suffix_order.trans unfolding hw_run_def by blast
  next
    case False
    with step Suc.prems(3) have rec: "mtime_attempts n h3 = (Some v, h')"
      by (simp del: mtime_attempts.simps)
    have hh3: "hw_run h h3" using run hw_run_trans by blast
    then have "shows_counter T h3" using Suc.prems(1) by (simp add: shows_counter_run)
    from Suc.IH [OF this Suc.prems(2) rec] obtain t
      where "v = T t" "suffix (io h3) t" "suffix t (io h')" by blast
    then show ?thesis using hh3 suffix_order.trans unfolding hw_run_def by blast
  qed
qed

text \<open>
  Between six consecutive register reads the count moves by less than \<open>2 ^ 32\<close>, so the
  high word can step at most once: if the first attempt straddles the step, the second
  cannot.
\<close>

definition slow_counter :: "(io_event list \<Rightarrow> u64) \<Rightarrow> bool" where
  "slow_counter T \<longleftrightarrow>
     (\<forall>t es. length es \<le> 6 \<longrightarrow> unat (T (es @ t)) < unat (T t) + 2 ^ 32)"

lemma high_word_steps_once:
  fixes a b c d :: u64
  assumes "a \<le> b" "b \<le> c" "c \<le> d" and "unat d < unat a + 2 ^ 32"
    and "(ucast (drop_bit 32 a) :: u32) \<noteq> ucast (drop_bit 32 b)"
  shows "(ucast (drop_bit 32 c) :: u32) = ucast (drop_bit 32 d)"
proof -
  let ?h = "\<lambda>x::u64. unat (ucast (drop_bit 32 x) :: u32)"
  have le: "?h a \<le> ?h b" "?h b \<le> ?h c" "?h c \<le> ?h d"
    using assms(1-3) high_word_mono unfolding word_le_nat_alt by blast+
  have ne: "?h a \<noteq> ?h b" using assms(5) by (simp add: word_unat_eq_iff)
  have "unat x = ?h x * 4294967296 + unat (ucast x :: u32)"
    and "unat (ucast x :: u32) < 4294967296" for x :: u64
    using unat_u64_split [of x] unsigned_less [of "ucast x :: u32", where 'a = nat] by simp_all
  from this [of a] this [of d] assms(4) have "?h d \<le> ?h a + 1" by simp
  with le ne have "?h c = ?h d" by linarith
  then show ?thesis by (simp add: word_unat_eq_iff)
qed

lemma mtime_attempts_two:
  assumes "shows_counter T h" and "never_backwards T" and "slow_counter T"
  shows "\<exists>v h'. mtime_attempts (Suc (Suc n)) h = (Some v, h') \<and>
           length (io h') \<le> length (io h) + 6"
proof -
  define h1 where "h1 = snd (bus_read MTIME_HI h)"
  define h2 where "h2 = snd (bus_read MTIME_LO h1)"
  define h3 where "h3 = snd (bus_read MTIME_HI h2)"
  define h4 where "h4 = snd (bus_read MTIME_HI h3)"
  define h5 where "h5 = snd (bus_read MTIME_LO h4)"
  define h6 where "h6 = snd (bus_read MTIME_HI h5)"
  note defs = h1_def h2_def h3_def h4_def h5_def h6_def
  have run: "hw_run h h1" "hw_run h1 h2" "hw_run h2 h3" "hw_run h3 h4" "hw_run h4 h5"
    by (simp_all add: defs)
  have len: "length (io h3) = length (io h) + 3" "length (io h6) = length (io h) + 6"
    by (simp_all add: defs bus_read_def Let_def)
  have hi: "fst (bus_read MTIME_HI h) = ucast (drop_bit 32 (T (io h)))"
    "fst (bus_read MTIME_HI h2) = ucast (drop_bit 32 (T (io h2)))"
    "fst (bus_read MTIME_HI h3) = ucast (drop_bit 32 (T (io h3)))"
    "fst (bus_read MTIME_HI h5) = ucast (drop_bit 32 (T (io h5)))"
    using assms(1) by (simp_all add: defs shows_counter_def bus_read_def Let_def)
  have r2: "hw_run h h2" "hw_run h2 h3" "hw_run h3 h5" "hw_run h h5"
    using run hw_run_trans by blast+
  then have le: "T (io h) \<le> T (io h2)" "T (io h2) \<le> T (io h3)" "T (io h3) \<le> T (io h5)"
    using assms(2) by (simp_all add: hw_run_def never_backwards_suffix)
  have "io h5 = [Rd MTIME_LO (fst (bus_read MTIME_LO h4)), Rd MTIME_HI (fst (bus_read MTIME_HI h3)),
     Rd MTIME_HI (fst (bus_read MTIME_HI h2)), Rd MTIME_LO (fst (bus_read MTIME_LO h1)),
     Rd MTIME_HI (fst (bus_read MTIME_HI h))] @ io h"
    by (simp add: defs bus_read_def Let_def)
  then obtain es where "io h5 = es @ io h" and "length es \<le> 6" by fastforce
  then have slow: "unat (T (io h5)) < unat (T (io h)) + 2 ^ 32"
    using assms(3) by (metis slow_counter_def)
  show ?thesis
    using high_word_steps_once [OF le slow] len
    by (auto simp: case_prod_beta Let_def hi h1_def [symmetric] h2_def [symmetric]
        h3_def [symmetric] h4_def [symmetric] h5_def [symmetric] h6_def [symmetric])
qed

text \<open>A failed run of the loop saw the high word move on every attempt.\<close>

lemma mtime_attempts_none_length:
  "mtime_attempts n h = (None, h') \<Longrightarrow> length (io h') = length (io h) + 3 * n"
proof (induction n arbitrary: h)
  case 0
  then show ?case by simp
next
  case (Suc n)
  let ?h3 = "snd (bus_read MTIME_HI (snd (bus_read MTIME_LO (snd (bus_read MTIME_HI h)))))"
  have "length (io ?h3) = length (io h) + 3" by (simp add: bus_read_def Let_def)
  then show ?case
    using Suc.IH [of ?h3] Suc.prems by (auto simp: case_prod_beta Let_def split: if_splits)
qed

section \<open>Properties\<close>

text \<open>
  C16: on a counter that never runs backwards, a read that succeeds returns a value the
  counter really had at some instant during the call; in particular it is never off by
  the \<open>2 ^ 32\<close> of a carry that falls between the two register reads.
\<close>

theorem mtime_read_exact:
  assumes "obc_mtime_read (Some x) s = (OBC_OK, Some v, s')"
    and "shows_counter T (hw s)" and "never_backwards T"
  shows "(\<exists>t. v = T t \<and> suffix (io (hw s)) t \<and> suffix t (io (hw s'))) \<and>
         T (io (hw s)) \<le> v \<and> v \<le> T (io (hw s'))"
proof -
  from assms(1) obtain h where "mtime_attempts MTIME_READ_ATTEMPTS (hw s) = (Some v, h)"
    and "hw s' = h" by (auto simp: obc_mtime_read_def split: option.splits prod.splits)
  with mtime_attempts_exact [OF assms(2,3)] obtain t
    where "v = T t" "suffix (io (hw s)) t" "suffix t (io (hw s'))" by blast
  then show ?thesis using assms(3) never_backwards_suffix by blast
qed

text \<open>A counter whose low word carries under the first attempt, for the witnesses.\<close>

definition carrying_counter :: "io_event list \<Rightarrow> u64" where
  "carrying_counter t = (if t = [] then 0xFFFFFFFF else 0x100000000)"

definition carrying_machine :: machine where
  "carrying_machine =
     \<lparr>hw = \<lparr>dev = (\<lambda>t a. if a = MTIME_LO then ucast (carrying_counter t)
                        else ucast (drop_bit 32 (carrying_counter t))),
            instret = (\<lambda>_. 0), io = []\<rparr>,
      s_unstable_count = 0\<rparr>"

lemma carrying_machine_counter:
  "shows_counter carrying_counter (hw carrying_machine)"
  "never_backwards carrying_counter" "slow_counter carrying_counter"
  by (auto simp: shows_counter_def carrying_machine_def MTIME_HI_def MTIME_LO_def
      never_backwards_def slow_counter_def carrying_counter_def)

lemma carrying_machine_read:
  "fst (obc_mtime_read (Some 0) carrying_machine) = OBC_OK \<and>
   fst (snd (obc_mtime_read (Some 0) carrying_machine)) = Some 0x100000000"
  by code_simp

theorem mtime_read_exact_witness:
  "(0x100000000 :: u64) \<le> carrying_counter
     (io (hw (snd (snd (obc_mtime_read (Some 0) carrying_machine)))))"
proof -
  have "obc_mtime_read (Some 0) carrying_machine =
    (OBC_OK, Some 0x100000000, snd (snd (obc_mtime_read (Some 0) carrying_machine)))"
    using carrying_machine_read by (simp add: prod_eq_iff)
  from mtime_read_exact [OF this carrying_machine_counter(1,2)] show ?thesis by simp
qed

text \<open>
  C35: two attempts are enough. If the count moves by less than \<open>2 ^ 32\<close> over six register
  reads, a read returns \<open>OBC_OK\<close> within six bus reads and counts no fault; the retry
  budget of four is never exhausted.
\<close>

theorem mtime_read_settles:
  assumes "shows_counter T (hw s)" and "never_backwards T" and "slow_counter T"
  shows "\<exists>v s'. obc_mtime_read (Some x) s = (OBC_OK, Some v, s') \<and>
           s_unstable_count s' = s_unstable_count s \<and>
           length (io (hw s')) \<le> length (io (hw s)) + 6"
proof -
  have "MTIME_READ_ATTEMPTS = Suc (Suc 2)" by (simp add: MTIME_READ_ATTEMPTS_def)
  with mtime_attempts_two [OF assms, of 2] show ?thesis
    by (auto simp: obc_mtime_read_def simp del: mtime_attempts.simps)
qed

theorem mtime_read_settles_witness:
  "\<exists>v s'. obc_mtime_read (Some 0) carrying_machine = (OBC_OK, Some v, s') \<and>
     s_unstable_count s' = s_unstable_count carrying_machine \<and>
     length (io (hw s')) \<le> length (io (hw carrying_machine)) + 6"
  by (rule mtime_read_settles [OF carrying_machine_counter])

text \<open>
  A read that fails says so and changes nothing else: the only failure of a valid
  call is \<open>OBC_ERR_UNSTABLE\<close>, it leaves the caller's cell as it was, adds one to the fault
  count and has spent exactly the four attempts.
\<close>

lemma mtime_read_failure:
  assumes "obc_mtime_read (Some x) s = (st, out, s')" and "st \<noteq> OBC_OK"
  shows "st = OBC_ERR_UNSTABLE \<and> out = Some x \<and>
         s_unstable_count s' = s_unstable_count s + 1 \<and>
         length (io (hw s')) = length (io (hw s)) + 12"
  using assms mtime_attempts_none_length [of MTIME_READ_ATTEMPTS "hw s" "hw s'"]
  by (auto simp: obc_mtime_read_def MTIME_READ_ATTEMPTS_def split: option.splits prod.splits
      simp del: mtime_attempts.simps)

end
