(* ===== verification/Uart.thy ===== *)
theory Uart
  imports Mtime
begin

text \<open>
  The two serial ports, \<^verbatim>\<open>flight/hal/uart.c\<close>: the console (UART0, text) and the ground link
  (UART1, telemetry out and commands in). The driver keeps no state of its own; every
  routine acts on the bus. The facts say how often a port is polled, which bytes leave it,
  and that numbers are printed correctly.
\<close>

section \<open>Registers\<close>

definition UART0_BASE :: u32 where [obc_consts]: "UART0_BASE = 0x10013000"
definition UART1_BASE :: u32 where [obc_consts]: "UART1_BASE = 0x10023000"
definition UART_TXDATA :: u32 where [obc_consts]: "UART_TXDATA = 0x00"
definition UART_RXDATA :: u32 where [obc_consts]: "UART_RXDATA = 0x04"
definition UART_TXCTRL :: u32 where [obc_consts]: "UART_TXCTRL = 0x08"
definition UART_RXCTRL :: u32 where [obc_consts]: "UART_RXCTRL = 0x0C"
definition UART_IE :: u32 where [obc_consts]: "UART_IE = 0x10"
definition UART_DIV :: u32 where [obc_consts]: "UART_DIV = 0x18"
definition UART_TXDATA_FULL :: u32 where [obc_consts]: "UART_TXDATA_FULL = 0x80000000"
definition UART_RXDATA_EMPTY :: u32 where [obc_consts]: "UART_RXDATA_EMPTY = 0x80000000"
definition UART_TXCTRL_TXEN :: u32 where [obc_consts]: "UART_TXCTRL_TXEN = 1"
definition UART_RXCTRL_RXEN :: u32 where [obc_consts]: "UART_RXCTRL_RXEN = 1"
definition UART_DIV_115200 :: u32 where [obc_consts]: "UART_DIV_115200 = 138"
definition OBC_UART_TX_POLL_INSTR :: u32 where [obc_consts]: "OBC_UART_TX_POLL_INSTR = 5"
definition OBC_UART_TX_RETRY_TOTAL :: u32 where [obc_consts]: "OBC_UART_TX_RETRY_TOTAL = 256"

section \<open>Transmit and receive\<close>

definition port_init :: "u32 \<Rightarrow> hw \<Rightarrow> hw" where
  "port_init base h =
     bus_write (base + UART_TXCTRL) UART_TXCTRL_TXEN
       (bus_write (base + UART_DIV) UART_DIV_115200
         (bus_write (base + UART_IE) 0 h))"

definition obc_uart_init :: "hw \<Rightarrow> hw" where
  "obc_uart_init h =
     bus_write (UART1_BASE + UART_RXCTRL) UART_RXCTRL_RXEN
       (port_init UART1_BASE (port_init UART0_BASE h))"

text \<open>
  \<^verbatim>\<open>port_putc\<close>: the \<^verbatim>\<open>for (;;)\<close> loop ends because every refused poll takes one off the
  allowance. Returned beside the status: the allowance left.
\<close>

function port_putc :: "u32 \<Rightarrow> u8 \<Rightarrow> u32 \<Rightarrow> hw \<Rightarrow> obc_status \<times> u32 \<times> hw" where
  "port_putc base byte allowance h =
     (let (status, h1) = bus_read (base + UART_TXDATA) h
      in if status AND UART_TXDATA_FULL = 0
         then (OBC_OK, allowance, bus_write (base + UART_TXDATA) (ucast byte) h1)
         else if allowance = 0 then (OBC_ERR_TIMEOUT, allowance, h1)
         else port_putc base byte (allowance - 1) h1)"
  by pat_completeness auto
termination
  by (relation "measure (\<lambda>(base, byte, allowance, h). unat allowance)")
     (auto simp: measure_unat)

declare port_putc.simps [simp del]

definition obc_uart_putc :: "char \<Rightarrow> hw \<Rightarrow> obc_status \<times> hw" where
  "obc_uart_putc c h =
     (case port_putc UART0_BASE (of_char c) OBC_UART_TX_RETRY_TOTAL h of
        (st, _, h') \<Rightarrow> (st, h'))"

text \<open>
  \<^verbatim>\<open>obc_uart_downlink_write\<close>: one allowance carried through all the bytes. The pointer is
  to a buffer of at least \<open>len\<close> bytes.
\<close>

fun downlink_loop :: "u8 list \<Rightarrow> u32 \<Rightarrow> hw \<Rightarrow> obc_status \<times> hw" where
  "downlink_loop [] allowance h = (OBC_OK, h)"
| "downlink_loop (b # bs) allowance h =
     (case port_putc UART1_BASE b allowance h of
        (st, allowance', h') \<Rightarrow>
          if st \<noteq> OBC_OK then (st, h') else downlink_loop bs allowance' h')"

definition obc_uart_downlink_write :: "u8 list ptr \<Rightarrow> u32 \<Rightarrow> hw \<Rightarrow> obc_status \<times> hw" where
  "obc_uart_downlink_write bytes len h =
     (case bytes of
        None \<Rightarrow> (OBC_ERR_INVALID, h)
      | Some bs \<Rightarrow> downlink_loop (take (unat len) bs) OBC_UART_TX_RETRY_TOTAL h)"

definition obc_uart_uplink_getc :: "u8 ptr \<Rightarrow> hw \<Rightarrow> obc_status \<times> u8 ptr \<times> hw" where
  "obc_uart_uplink_getc out h =
     (case out of
        None \<Rightarrow> (OBC_ERR_INVALID, out, h)
      | Some _ \<Rightarrow>
          (let (rx, h1) = bus_read (UART1_BASE + UART_RXDATA) h
           in if rx AND UART_RXDATA_EMPTY \<noteq> 0 then (OBC_ERR_TIMEOUT, out, h1)
              else (OBC_OK, Some (ucast (rx AND 0xFF)), h1)))"

section \<open>Text\<close>

text \<open>
  A C string is a list of characters whose end, or an embedded NUL, stops the loop; the
  counter \<open>i\<close> is the loop's bound of 4096.
\<close>

fun puts_loop :: "u32 \<Rightarrow> string \<Rightarrow> hw \<Rightarrow> obc_status \<times> hw" where
  "puts_loop i [] h = (if i < 4096 then (OBC_OK, h) else (OBC_ERR_INVALID, h))"
| "puts_loop i (c # cs) h =
     (if i < 4096
      then if c = CHR 0x00 then (OBC_OK, h)
           else (case obc_uart_putc c h of
                   (st, h') \<Rightarrow> if st \<noteq> OBC_OK then (st, h') else puts_loop (i + 1) cs h')
      else (OBC_ERR_INVALID, h))"

definition obc_uart_puts :: "string ptr \<Rightarrow> hw \<Rightarrow> obc_status \<times> hw" where
  "obc_uart_puts s h =
     (case s of None \<Rightarrow> (OBC_ERR_INVALID, h) | Some cs \<Rightarrow> puts_loop 0 cs h)"

text \<open>The buffer \<^verbatim>\<open>buf\<close> of \<^verbatim>\<open>obc_uart_put_u32\<close>, least significant digit first.\<close>

function u32_digits :: "u32 \<Rightarrow> nat \<Rightarrow> char list" where
  "u32_digits v n =
     (if v > 0 \<and> n < 10
      then char_of (48 + unat (v mod 10)) # u32_digits (v div 10) (Suc n) else [])"
  by pat_completeness auto
termination by (relation "measure (\<lambda>(v, n). 10 - n)") auto

declare u32_digits.simps [simp del]

fun put_chars :: "char list \<Rightarrow> hw \<Rightarrow> obc_status \<times> hw" where
  "put_chars [] h = (OBC_OK, h)"
| "put_chars (c # cs) h =
     (case obc_uart_putc c h of
        (st, h') \<Rightarrow> if st \<noteq> OBC_OK then (st, h') else put_chars cs h')"

definition obc_uart_put_u32 :: "u32 \<Rightarrow> hw \<Rightarrow> obc_status \<times> hw" where
  "obc_uart_put_u32 v h =
     (if v = 0 then obc_uart_putc (CHR ''0'') h else put_chars (rev (u32_digits v 0)) h)"

definition hex_digit :: "u32 \<Rightarrow> char" where
  "hex_digit v = ''0123456789ABCDEF'' ! unat v"

definition obc_uart_put_hex32 :: "u32 \<Rightarrow> hw \<Rightarrow> obc_status \<times> hw" where
  "obc_uart_put_hex32 v h =
     and_then (obc_uart_puts (Some ''0x'') h)
       (put_chars (map (\<lambda>shift. hex_digit (drop_bit shift v AND 0xF)) [28, 24, 20, 16, 12, 8, 4, 0]))"

section \<open>What the driver does to the bus\<close>

named_theorems uart_run \<open>driver routines only continue the bus history\<close>

lemma port_putc_unfold:
  "port_putc base byte a h =
     (if fst (bus_read (base + UART_TXDATA) h) AND UART_TXDATA_FULL = 0
      then (OBC_OK, a, bus_write (base + UART_TXDATA) (ucast byte) (snd (bus_read (base + UART_TXDATA) h)))
      else if a = 0 then (OBC_ERR_TIMEOUT, a, snd (bus_read (base + UART_TXDATA) h))
      else port_putc base byte (a - 1) (snd (bus_read (base + UART_TXDATA) h)))"
  by (subst port_putc.simps) (simp add: case_prod_beta Let_def)

lemma port_putc_induct [case_names poll]:
  fixes a :: u32 and h :: hw
  assumes "\<And>a h. (fst (bus_read (base + UART_TXDATA) h) AND UART_TXDATA_FULL \<noteq> 0 \<Longrightarrow> a \<noteq> 0 \<Longrightarrow>
      P (a - 1) (snd (bus_read (base + UART_TXDATA) h))) \<Longrightarrow> P a h"
  shows "P a h"
proof (induction "unat a" arbitrary: a h rule: less_induct)
  case less
  show ?case
    by (rule assms, rule less) (simp add: measure_unat)
qed

lemma hw_run_port_putc [uart_run]: "hw_run h (snd (snd (port_putc base byte a h)))"
proof (induction a h rule: port_putc_induct [of base])
  case (poll a h)
  then show ?case
    by (subst port_putc_unfold)
       (auto intro: hw_run_trans [OF hw_run_bus_read] hw_run_trans [OF hw_run_bus_read hw_run_bus_write])
qed

lemma hw_run_putc [uart_run]: "hw_run h (snd (obc_uart_putc c h))"
  using hw_run_port_putc [of h UART0_BASE "of_char c" OBC_UART_TX_RETRY_TOTAL]
  by (simp add: obc_uart_putc_def case_prod_beta)

lemma hw_run_downlink_loop [uart_run]: "hw_run h (snd (downlink_loop bs a h))"
proof (induction bs arbitrary: a h)
  case Nil
  then show ?case by simp
next
  case (Cons b bs)
  then show ?case
    using hw_run_port_putc [of h UART1_BASE b a] hw_run_trans
    by (auto simp: case_prod_beta)
qed

lemma hw_run_downlink_write [uart_run]: "hw_run h (snd (obc_uart_downlink_write bs n h))"
  by (auto simp: obc_uart_downlink_write_def uart_run split: option.splits)

lemma hw_run_uplink_getc [uart_run]: "hw_run h (snd (snd (obc_uart_uplink_getc out h)))"
  by (auto simp: obc_uart_uplink_getc_def case_prod_beta Let_def split: option.splits)

lemma hw_run_puts_loop: "hw_run h (snd (puts_loop i cs h))"
proof (induction cs arbitrary: i h)
  case Nil
  then show ?case by simp
next
  case (Cons c cs)
  then show ?case
    using hw_run_putc [of h c] hw_run_trans by (auto simp: case_prod_beta)
qed

lemma hw_run_puts [uart_run]: "hw_run h (snd (obc_uart_puts cs h))"
  by (auto simp: obc_uart_puts_def hw_run_puts_loop split: option.splits)

lemma hw_run_put_chars [uart_run]: "hw_run h (snd (put_chars cs h))"
proof (induction cs arbitrary: h)
  case Nil
  then show ?case by simp
next
  case (Cons c cs)
  then show ?case
    using hw_run_putc [of h c] hw_run_trans by (auto simp: case_prod_beta)
qed

lemma hw_run_put_u32 [uart_run]: "hw_run h (snd (obc_uart_put_u32 v h))"
  by (simp add: obc_uart_put_u32_def uart_run)

lemma hw_run_and_then:
  "hw_run h (snd r) \<Longrightarrow> (\<And>h. hw_run h (snd (f h))) \<Longrightarrow> hw_run h (snd (and_then r f))"
  using hw_run_trans by (auto simp: and_then_def split: prod.splits)

lemma hw_run_put_hex32 [uart_run]: "hw_run h (snd (obc_uart_put_hex32 v h))"
  unfolding obc_uart_put_hex32_def by (intro hw_run_and_then uart_run)

section \<open>Polls\<close>

text \<open>
  What one \<open>port_putc\<close> costs and leaves: every refused poll takes one off the allowance,
  and a byte is written exactly when the call succeeds.
\<close>

lemma port_putc_cost:
  assumes "port_putc base byte a h = (st, a', h')"
  shows "(st = OBC_OK \<and> unat a' \<le> unat a \<and>
            reads_of (base + UART_TXDATA) (io h') =
              reads_of (base + UART_TXDATA) (io h) + (unat a - unat a') + 1 \<and>
            writes_to (base + UART_TXDATA) (io h') =
              writes_to (base + UART_TXDATA) (io h) @ [ucast byte]) \<or>
         (st = OBC_ERR_TIMEOUT \<and> a' = 0 \<and>
            reads_of (base + UART_TXDATA) (io h') =
              reads_of (base + UART_TXDATA) (io h) + unat a + 1 \<and>
            writes_to (base + UART_TXDATA) (io h') = writes_to (base + UART_TXDATA) (io h))"
  using assms
proof (induction a h rule: port_putc_induct [of base])
  case (poll a h)
  define h1 where "h1 = snd (bus_read (base + UART_TXDATA) h)"
  have h1: "reads_of (base + UART_TXDATA) (io h1) = Suc (reads_of (base + UART_TXDATA) (io h))"
    "writes_to (base + UART_TXDATA) (io h1) = writes_to (base + UART_TXDATA) (io h)"
    by (simp_all add: h1_def bus_read_def Let_def)
  let ?full = "fst (bus_read (base + UART_TXDATA) h) AND UART_TXDATA_FULL \<noteq> 0"
  show ?case
  proof (cases "?full \<and> a \<noteq> 0")
    case False
    then show ?thesis
      using poll.prems h1
      by (subst (asm) port_putc_unfold)
         (auto simp: bus_write_def h1_def [symmetric] split: if_splits)
  next
    case True
    then have "port_putc base byte (a - 1) h1 = (st, a', h')"
      using poll.prems by (subst (asm) port_putc_unfold) (simp add: h1_def)
    moreover have "unat (a - 1) = unat a - 1" "unat a > 0"
      using True by (auto simp: unat_minus_one unat_gt_0)
    ultimately show ?thesis
      using poll.IH True h1 by (auto simp: h1_def [symmetric])
  qed
qed

abbreviation downlink_tx :: u32 where "downlink_tx \<equiv> UART1_BASE + UART_TXDATA"
abbreviation console_tx :: u32 where "console_tx \<equiv> UART0_BASE + UART_TXDATA"

lemma downlink_loop_cost:
  assumes "downlink_loop bs a h = (st, h')"
  shows "reads_of downlink_tx (io h') \<le> reads_of downlink_tx (io h) + length bs + unat a \<and>
    (\<exists>k \<le> length bs.
       writes_to downlink_tx (io h') = writes_to downlink_tx (io h) @ map ucast (take k bs) \<and>
       (if k = length bs then st = OBC_OK else st = OBC_ERR_TIMEOUT))"
  using assms
proof (induction bs arbitrary: a h)
  case Nil
  then show ?case by simp
next
  case (Cons b bs)
  obtain st1 a1 h1 where p: "port_putc UART1_BASE b a h = (st1, a1, h1)"
    by (cases "port_putc UART1_BASE b a h") auto
  note cost = port_putc_cost [OF p]
  show ?case
  proof (cases "st1 = OBC_OK")
    case True
    with Cons.prems p have "downlink_loop bs a1 h1 = (st, h')" by simp
    from Cons.IH [OF this] obtain k where k: "k \<le> length bs"
      "writes_to downlink_tx (io h') = writes_to downlink_tx (io h1) @ map ucast (take k bs)"
      "if k = length bs then st = OBC_OK else st = OBC_ERR_TIMEOUT"
      and r: "reads_of downlink_tx (io h') \<le> reads_of downlink_tx (io h1) + length bs + unat a1"
      by blast
    show ?thesis
    proof (intro conjI exI [of _ "Suc k"])
      show "reads_of downlink_tx (io h') \<le> reads_of downlink_tx (io h) + length (b # bs) + unat a"
        using r cost True by auto
    qed (use k cost True in auto)
  next
    case False
    with Cons.prems p cost have "st = OBC_ERR_TIMEOUT" "h' = h1" by auto
    then show ?thesis
      using cost False by (intro conjI exI [of _ 0]) auto
  qed
qed

section \<open>A port that takes every byte\<close>

definition port_ready :: "u32 \<Rightarrow> hw \<Rightarrow> bool" where
  "port_ready base h \<longleftrightarrow> (\<forall>t. dev h t (base + UART_TXDATA) AND UART_TXDATA_FULL = 0)"

lemma port_ready_run: "hw_run h h' \<Longrightarrow> port_ready base h' = port_ready base h"
  by (simp add: port_ready_def hw_run_def)

lemma port_putc_ready:
  assumes "port_ready base h"
  shows "\<exists>h'. port_putc base byte a h = (OBC_OK, a, h')"
  using assms by (subst port_putc_unfold) (simp add: port_ready_def bus_read_def Let_def)

lemma putc_ready:
  assumes "port_ready UART0_BASE h"
  shows "\<exists>h'. obc_uart_putc c h = (OBC_OK, h') \<and> port_ready UART0_BASE h' \<and>
    writes_to console_tx (io h') = writes_to console_tx (io h) @ [ucast (of_char c :: u8)]"
proof -
  obtain h' where h': "port_putc UART0_BASE (of_char c) OBC_UART_TX_RETRY_TOTAL h
      = (OBC_OK, OBC_UART_TX_RETRY_TOTAL, h')"
    using port_putc_ready [OF assms] by blast
  moreover have "hw_run h h'"
    using hw_run_port_putc [of h UART0_BASE "of_char c" OBC_UART_TX_RETRY_TOTAL] h' by simp
  ultimately show ?thesis
    using port_putc_cost [OF h'] assms port_ready_run by (auto simp: obc_uart_putc_def)
qed

lemma put_chars_ready:
  assumes "port_ready UART0_BASE h"
  shows "\<exists>h'. put_chars cs h = (OBC_OK, h') \<and> port_ready UART0_BASE h' \<and>
    writes_to console_tx (io h') =
      writes_to console_tx (io h) @ map (\<lambda>c. ucast (of_char c :: u8)) cs"
  using assms
proof (induction cs arbitrary: h)
  case Nil
  then show ?case by simp
next
  case (Cons c cs)
  obtain h1 where "obc_uart_putc c h = (OBC_OK, h1)" "port_ready UART0_BASE h1"
    "writes_to console_tx (io h1) = writes_to console_tx (io h) @ [ucast (of_char c :: u8)]"
    using putc_ready [OF Cons.prems] by blast
  then show ?case using Cons.IH [of h1] by auto
qed

lemma puts_loop_ready:
  assumes "port_ready UART0_BASE h" and "CHR 0x00 \<notin> set cs" and "unat i + length cs < 4096"
  shows "\<exists>h'. puts_loop i cs h = (OBC_OK, h') \<and> port_ready UART0_BASE h' \<and>
    writes_to console_tx (io h') =
      writes_to console_tx (io h) @ map (\<lambda>c. ucast (of_char c :: u8)) cs"
  using assms
proof (induction i cs h rule: puts_loop.induct)
  case (1 i h)
  then show ?case by (simp add: word_less_nat_alt)
next
  case (2 i c cs h)
  have i: "i < 4096" "unat (i + 1) = unat i + 1"
    using "2.prems"(3) by (simp_all add: word_less_nat_alt unat_word_ariths)
  obtain h1 where h1: "obc_uart_putc c h = (OBC_OK, h1)" "port_ready UART0_BASE h1"
    "writes_to console_tx (io h1) = writes_to console_tx (io h) @ [ucast (of_char c :: u8)]"
    using putc_ready [OF "2.prems"(1)] by blast
  have "c \<noteq> CHR 0x00" using "2.prems"(2) by auto
  from "2.IH" [OF i(1) this h1(1) [symmetric] _ h1(2)] show ?case
    using h1 i "2.prems" by (auto simp: \<open>c \<noteq> CHR 0x00\<close>)
qed

lemma puts_ready:
  assumes "port_ready UART0_BASE h" and "CHR 0x00 \<notin> set cs" and "length cs < 4096"
  shows "port_ready UART0_BASE (snd (obc_uart_puts (Some cs) h))"
    "writes_to console_tx (io (snd (obc_uart_puts (Some cs) h))) =
      writes_to console_tx (io h) @ map (\<lambda>c. ucast (of_char c :: u8)) cs"
  using puts_loop_ready [of h cs 0] assms by (auto simp: obc_uart_puts_def)

section \<open>Decimal digits\<close>

fun dec_value :: "char list \<Rightarrow> nat" where
  "dec_value [] = 0"
| "dec_value (c # cs) = (of_char c - 48) * 10 ^ length cs + dec_value cs"

lemma dec_value_snoc: "dec_value (cs @ [c]) = dec_value cs * 10 + (of_char c - 48)"
  by (induction cs) (simp_all add: algebra_simps)

lemma u32_digits_value:
  "unat v < 10 ^ (10 - n) \<Longrightarrow> n \<le> 10 \<Longrightarrow> dec_value (rev (u32_digits v n)) = unat v"
proof (induction v n rule: u32_digits.induct)
  case (1 v n)
  show ?case
  proof (cases "v > 0 \<and> n < 10")
    case False
    then show ?thesis using 1(2,3) by (subst u32_digits.simps) (auto simp: not_less)
  next
    case True
    have v10: "unat (v div 10) = unat v div 10" "unat (v mod 10) = unat v mod 10"
      by (simp_all add: unat_div_distrib unat_mod_distrib)
    have "10 - n = Suc (10 - Suc n)" using True by linarith
    then have "unat (v div 10) < 10 ^ (10 - Suc n)"
      using 1(2) v10 by (simp add: less_mult_imp_div_less mult.commute)
    then have "dec_value (rev (u32_digits (v div 10) (Suc n))) = unat v div 10"
      using 1(1) True v10 by simp
    moreover have "unat v mod 10 < 10" by simp
    ultimately show ?thesis
      using True by (subst u32_digits.simps) (simp add: dec_value_snoc v10)
  qed
qed

section \<open>Properties\<close>

text \<open>
  C34: an emission is bounded by one allowance for the whole frame: writing \<open>len\<close> bytes
  polls the port at most \<open>len + 256\<close> times whatever the device answers, and what leaves
  the port is always a prefix of the frame, the whole of it exactly when the call returns
  \<open>OBC_OK\<close>.
\<close>

theorem downlink_write_bounded:
  assumes "obc_uart_downlink_write (Some bs) len h = (st, h')" and "unat len \<le> length bs"
  shows "reads_of downlink_tx (io h') \<le> reads_of downlink_tx (io h) + unat len + 256 \<and>
    (\<exists>k \<le> unat len.
       writes_to downlink_tx (io h') = writes_to downlink_tx (io h) @ map ucast (take k bs) \<and>
       (st = OBC_OK \<longleftrightarrow> k = unat len) \<and> (st \<noteq> OBC_OK \<longrightarrow> st = OBC_ERR_TIMEOUT))"
proof -
  from assms(1) have "downlink_loop (take (unat len) bs) OBC_UART_TX_RETRY_TOTAL h = (st, h')"
    by (simp add: obc_uart_downlink_write_def)
  from downlink_loop_cost [OF this] assms(2) obtain k where k: "k \<le> unat len"
    "writes_to downlink_tx (io h') = writes_to downlink_tx (io h) @ map ucast (take k bs)"
    "if k = unat len then st = OBC_OK else st = OBC_ERR_TIMEOUT"
    and r: "reads_of downlink_tx (io h') \<le> reads_of downlink_tx (io h) + unat len + 256"
    by (auto simp: OBC_UART_TX_RETRY_TOTAL_def min_absorb2)
  then show ?thesis by (intro conjI exI [of _ k]) (auto split: if_splits)
qed

text \<open>A port that takes two bytes and then refuses for ever.\<close>

definition stalling_hw :: hw where
  "stalling_hw =
     \<lparr>dev = (\<lambda>t a. if length (writes_to downlink_tx t) < 2 then 0 else UART_TXDATA_FULL),
      instret = (\<lambda>_. 0), io = []\<rparr>"

theorem downlink_write_bounded_witness:
  "reads_of downlink_tx (io (snd (obc_uart_downlink_write (Some [1, 2, 3]) 3 stalling_hw))) \<le> 259"
  using downlink_write_bounded [of "[1, 2, 3]" 3 stalling_hw, OF surjective_pairing]
  by (simp add: stalling_hw_def)

lemma u32_digits_length: "length (u32_digits v n) \<le> 10 - n"
proof (induction v n rule: u32_digits.induct)
  case (1 v n)
  then show ?case by (subst u32_digits.simps) auto
qed

text \<open>
  \<open>obc_uart_put_u32\<close> prints the decimal representation: on a port that takes every
  byte it succeeds, and the characters that leave the port, at most ten, are digits whose
  decimal value is the argument.
\<close>

lemma put_u32_prints_decimal:
  assumes "port_ready UART0_BASE h"
  shows "\<exists>cs h'. obc_uart_put_u32 v h = (OBC_OK, h') \<and>
    writes_to console_tx (io h') =
      writes_to console_tx (io h) @ map (\<lambda>c. ucast (of_char c :: u8)) cs \<and>
    dec_value cs = unat v \<and> cs \<noteq> [] \<and> length cs \<le> 10"
proof (cases "v = 0")
  case True
  then show ?thesis
    using putc_ready [OF assms, of "CHR ''0''"]
    by (auto simp: obc_uart_put_u32_def intro!: exI [of _ "''0''"])
next
  case False
  have "unat v < 10 ^ (10 - 0)" using unsigned_less [of v, where 'a = nat] by simp
  then have val: "dec_value (rev (u32_digits v 0)) = unat v" by (rule u32_digits_value) simp
  have "length (u32_digits v 0) \<le> 10" using u32_digits_length [of v 0] by simp
  moreover have "u32_digits v 0 \<noteq> []" using False by (subst u32_digits.simps) (simp add: word_gt_0)
  ultimately show ?thesis
    using put_chars_ready [OF assms, of "rev (u32_digits v 0)"] False val
    by (intro exI [of _ "rev (u32_digits v 0)"]) (auto simp: obc_uart_put_u32_def)
qed

definition ready_hw :: hw where
  "ready_hw = \<lparr>dev = (\<lambda>_ _. 0), instret = (\<lambda>_. 0), io = []\<rparr>"

lemma ready_hw [simp]: "port_ready base ready_hw"
  by (simp add: port_ready_def ready_hw_def)

end
