(* ===== verification/Commit.thy ===== *)
theory Commit
  imports Prelude
begin

text \<open>
  The commit discipline of every record that survives a reset: clear the magic, write the
  payload and its checksum, write the magic last. The interface is stated once, with the
  record's stores as a list so that a reset after any of them is a prefix of the list; the
  fault record, the mode record and the boot record interpret it.
\<close>

definition run_stores :: "('r \<Rightarrow> 'r) list \<Rightarrow> 'r \<Rightarrow> 'r" where
  "run_stores fs r = fold (\<lambda>f r. f r) fs r"

lemma run_stores_simps [simp]:
  "run_stores [] r = r" "run_stores (f # fs) r = run_stores fs (f r)"
  "run_stores (fs @ gs) r = run_stores gs (run_stores fs r)"
  by (simp_all add: run_stores_def)

text \<open>Payload stores that leave the magic alone, then the store of the magic.\<close>

locale commit_tail =
  fixes magic :: "'r \<Rightarrow> u32"
    and accepts :: "u32 \<Rightarrow> bool"
    and intact :: "'r \<Rightarrow> bool"
    and body :: "('r \<Rightarrow> 'r) list"
    and commit :: "'r \<Rightarrow> 'r"
  assumes body_magic: "f \<in> set body \<Longrightarrow> magic (f r) = magic r"
    and intact_magic: "intact r \<Longrightarrow> accepts (magic r)"
    and commit_intact: "intact (commit (run_stores body r))"
begin

lemma magic_run_stores:
  "set fs \<subseteq> set body \<Longrightarrow> magic (run_stores fs r) = magic r"
  by (induction fs arbitrary: r) (simp_all add: body_magic)

lemma torn_tail:
  assumes "\<not> accepts (magic r)" and "k \<le> length body"
  shows "\<not> intact (run_stores (take k (body @ [commit])) r)"
proof -
  have "take k (body @ [commit]) = take k body" using assms(2) by simp
  moreover have "magic (run_stores (take k body) r) = magic r"
    by (rule magic_run_stores) (rule set_take_subset)
  ultimately show ?thesis using assms(1) intact_magic by metis
qed

lemma complete_tail: "intact (run_stores (body @ [commit]) r)"
  by (simp add: commit_intact)

end

text \<open>The same with the magic cleared first: no precondition on what was there before.\<close>

locale commit_record = commit_tail +
  fixes clear :: "'r \<Rightarrow> 'r"
  assumes clear_magic: "\<not> accepts (magic (clear r))"
begin

lemma torn:
  assumes "0 < k" and "k \<le> Suc (length body)"
  shows "\<not> intact (run_stores (take k (clear # body @ [commit])) r)"
proof -
  obtain j where "k = Suc j" "j \<le> length body" using assms by (cases k) auto
  then show ?thesis using torn_tail [OF clear_magic, of j r] by simp
qed

lemma complete: "intact (run_stores (clear # body @ [commit]) r)"
  by (simp add: commit_intact)

text \<open>
  A reset between any two stores leaves either the old record, untouched, or one no reader
  believes, or the new one.
\<close>

lemma atomic:
  assumes "intact (run_stores (take k (clear # body @ [commit])) r)"
  shows "run_stores (take k (clear # body @ [commit])) r \<in>
           {r, run_stores (clear # body @ [commit]) r}"
proof (cases "0 < k \<and> k \<le> Suc (length body)")
  case True
  with torn assms show ?thesis by blast
next
  case False
  then consider "k = 0" | "length (clear # body @ [commit]) \<le> k" by force
  then show ?thesis by cases auto
qed

end

end
