(* ===== verification/Fault.thy ===== *)
theory Fault
  imports Hw Commit
begin

text \<open>
  The fault record: what the trap handler (\<^verbatim>\<open>flight/boot/trap.S\<close>) writes and what the next
  boot reads (\<^verbatim>\<open>flight/core/fault.c\<close>). The handler is modelled instruction by instruction
  over its registers and memory, so that a reset or a second trap between any two
  instructions is a prefix of a list.
\<close>

section \<open>The record\<close>

definition OBC_FAULT_MAGIC :: u32 where [obc_consts]: "OBC_FAULT_MAGIC = 0x0BCFA017"
definition OBC_FAULT_MAGIC_DOUBLE :: u32 where [obc_consts]: "OBC_FAULT_MAGIC_DOUBLE = 0x0BCDEAD2"
definition OBC_FAULT_CHECKSUM_SEED :: u32 where [obc_consts]: "OBC_FAULT_CHECKSUM_SEED = 0x5A5AC3C3"
definition OBC_RESET_UNKNOWN :: u32 where [obc_consts]: "OBC_RESET_UNKNOWN = 0"
definition OBC_RESET_TRAP :: u32 where [obc_consts]: "OBC_RESET_TRAP = 1"
definition OBC_RESET_DOUBLE_FAULT :: u32 where [obc_consts]: "OBC_RESET_DOUBLE_FAULT = 2"
definition OBC_RESET_REQUESTED :: u32 where [obc_consts]: "OBC_RESET_REQUESTED = 3"
definition OBC_MCAUSE_INTERRUPT_BIT :: u32 where [obc_consts]: "OBC_MCAUSE_INTERRUPT_BIT = 0x80000000"

record fault_record =
  fr_magic :: u32
  fr_checksum :: u32
  fr_cause :: u32
  fr_epc :: u32
  fr_tval :: u32
  fr_reset_cause :: u32
  fr_in_handler :: u32
  fr_save_t1 :: u32
  fr_save_t0 :: u32

definition obc_mcause_is_interrupt :: "u32 \<Rightarrow> bool" where
  "obc_mcause_is_interrupt mcause \<longleftrightarrow> mcause AND OBC_MCAUSE_INTERRUPT_BIT \<noteq> 0"

definition obc_mcause_code :: "u32 \<Rightarrow> u32" where
  "obc_mcause_code mcause = mcause AND NOT OBC_MCAUSE_INTERRUPT_BIT"

definition obc_fault_checksum :: "fault_record ptr \<Rightarrow> u32" where
  "obc_fault_checksum p =
     (case p of
        None \<Rightarrow> 0
      | Some r \<Rightarrow> (((OBC_FAULT_CHECKSUM_SEED XOR fr_cause r) XOR fr_epc r) XOR fr_tval r) XOR fr_reset_cause r)"

definition obc_fault_validate :: "u32 ptr \<Rightarrow> fault_record \<Rightarrow> obc_status \<times> u32 ptr" where
  "obc_fault_validate out r =
     (if out = None then (OBC_ERR_INVALID, out)
      else if fr_magic r = OBC_FAULT_MAGIC_DOUBLE then (OBC_OK, Some OBC_RESET_DOUBLE_FAULT)
      else if fr_magic r \<noteq> OBC_FAULT_MAGIC then (OBC_ERR_INVALID, Some OBC_RESET_UNKNOWN)
      else if fr_checksum r \<noteq> obc_fault_checksum (Some r) then (OBC_ERR_UNSTABLE, Some OBC_RESET_UNKNOWN)
      else (OBC_OK, Some (fr_reset_cause r)))"

definition fault_consume_stores :: "(fault_record \<Rightarrow> fault_record) list" where
  "fault_consume_stores =
     [\<lambda>r. r\<lparr>fr_magic := 0\<rparr>, \<lambda>r. r\<lparr>fr_checksum := 0\<rparr>, \<lambda>r. r\<lparr>fr_cause := 0\<rparr>,
      \<lambda>r. r\<lparr>fr_epc := 0\<rparr>, \<lambda>r. r\<lparr>fr_tval := 0\<rparr>, \<lambda>r. r\<lparr>fr_reset_cause := OBC_RESET_UNKNOWN\<rparr>]"

definition obc_fault_consume :: "fault_record \<Rightarrow> fault_record" where
  "obc_fault_consume = run_stores fault_consume_stores"

section \<open>Resetting on purpose\<close>

definition AON_BASE :: u32 where [obc_consts]: "AON_BASE = 0x10000000"
definition AON_WDOGCFG :: u32 where [obc_consts]: "AON_WDOGCFG = 0x000"
definition AON_WDOGCOUNT :: u32 where [obc_consts]: "AON_WDOGCOUNT = 0x008"
definition AON_WDOGKEY :: u32 where [obc_consts]: "AON_WDOGKEY = 0x01C"
definition AON_WDOGCMP0 :: u32 where [obc_consts]: "AON_WDOGCMP0 = 0x020"
definition WDOGKEY_VALUE :: u32 where [obc_consts]: "WDOGKEY_VALUE = 0x51F15E"
definition WDOGCFG_RSTEN :: u32 where [obc_consts]: "WDOGCFG_RSTEN = push_bit 8 1"
definition WDOGCFG_ZEROCMP :: u32 where [obc_consts]: "WDOGCFG_ZEROCMP = push_bit 9 1"
definition WDOGCFG_ENALWAYS :: u32 where [obc_consts]: "WDOGCFG_ENALWAYS = push_bit 12 1"

definition obc_reset_now :: "hw \<Rightarrow> unit flow \<times> hw" where
  "obc_reset_now h =
     (Reset,
      fold (\<lambda>(off, v). bus_write (AON_BASE + off) v)
        [(AON_WDOGKEY, WDOGKEY_VALUE), (AON_WDOGCOUNT, 0),
         (AON_WDOGKEY, WDOGKEY_VALUE), (AON_WDOGCMP0, 1),
         (AON_WDOGKEY, WDOGKEY_VALUE),
         (AON_WDOGCFG, WDOGCFG_ENALWAYS OR WDOGCFG_RSTEN OR WDOGCFG_ZEROCMP)] h)"

definition fault_clear :: "fault_record \<Rightarrow> fault_record" where
  "fault_clear r = r\<lparr>fr_magic := 0\<rparr>"

definition fault_body :: "u32 \<Rightarrow> (fault_record \<Rightarrow> fault_record) list" where
  "fault_body cause =
     [\<lambda>r. r\<lparr>fr_cause := 0\<rparr>, \<lambda>r. r\<lparr>fr_epc := 0\<rparr>, \<lambda>r. r\<lparr>fr_tval := 0\<rparr>,
      \<lambda>r. r\<lparr>fr_reset_cause := cause\<rparr>, \<lambda>r. r\<lparr>fr_checksum := obc_fault_checksum (Some r)\<rparr>]"

definition fault_commit :: "fault_record \<Rightarrow> fault_record" where
  "fault_commit r = r\<lparr>fr_magic := OBC_FAULT_MAGIC\<rparr>"

definition fault_reset_stores :: "u32 \<Rightarrow> (fault_record \<Rightarrow> fault_record) list" where
  "fault_reset_stores cause = fault_clear # fault_body cause @ [fault_commit]"

definition obc_fault_reset_with_cause ::
  "u32 \<Rightarrow> fault_record \<times> hw \<Rightarrow> unit flow \<times> fault_record \<times> hw" where
  "obc_fault_reset_with_cause cause s =
     (case s of (r, h) \<Rightarrow>
        (case obc_reset_now h of (fl, h') \<Rightarrow> (fl, run_stores (fault_reset_stores cause) r, h')))"

section \<open>The trap handler\<close>

text \<open>
  The registers the handler names, the stack pointer it must not, the trap CSRs, and the
  memory as words by address. The record lives at the address the startup code puts into
  \<^verbatim>\<open>mscratch\<close>; the offsets are the \<^verbatim>\<open>OBC_FR_*\<close> macros.
\<close>

record cpu =
  reg_t0 :: u32
  reg_t1 :: u32
  reg_t2 :: u32
  reg_sp :: u32
  csr_mscratch :: u32
  csr_mcause :: u32
  csr_mepc :: u32
  csr_mtval :: u32
  cpu_mem :: "u32 \<Rightarrow> u32"

definition sw_t1 :: "u32 \<Rightarrow> cpu \<Rightarrow> cpu" where
  "sw_t1 off c = c\<lparr>cpu_mem := (cpu_mem c)(reg_t0 c + off := reg_t1 c)\<rparr>"

definition lw_t1 :: "u32 \<Rightarrow> cpu \<Rightarrow> cpu" where
  "lw_t1 off c = c\<lparr>reg_t1 := cpu_mem c (reg_t0 c + off)\<rparr>"

definition li_t1 :: "u32 \<Rightarrow> cpu \<Rightarrow> cpu" where
  "li_t1 v c = c\<lparr>reg_t1 := v\<rparr>"

definition xor_t1_word :: "u32 \<Rightarrow> (cpu \<Rightarrow> cpu) list" where
  "xor_t1_word off = [\<lambda>c. c\<lparr>reg_t2 := cpu_mem c (reg_t0 c + off)\<rparr>, \<lambda>c. c\<lparr>reg_t1 := reg_t1 c XOR reg_t2 c\<rparr>]"

definition trap_prologue :: "(cpu \<Rightarrow> cpu) list" where
  "trap_prologue =
     [\<lambda>c. c\<lparr>reg_t0 := csr_mscratch c, csr_mscratch := reg_t0 c\<rparr>, sw_t1 28,
      \<lambda>c. c\<lparr>reg_t1 := csr_mscratch c\<rparr>, sw_t1 32, \<lambda>c. c\<lparr>csr_mscratch := reg_t0 c\<rparr>, lw_t1 24]"

text \<open>First entry: raise the flag, commit cause, epc, tval and the reset cause, then the
  checksum, then the magic.\<close>

definition trap_body :: "(cpu \<Rightarrow> cpu) list" where
  "trap_body =
     [li_t1 1, sw_t1 24,
      \<lambda>c. c\<lparr>reg_t1 := csr_mcause c\<rparr>, sw_t1 8, \<lambda>c. c\<lparr>reg_t1 := csr_mepc c\<rparr>, sw_t1 12,
      \<lambda>c. c\<lparr>reg_t1 := csr_mtval c\<rparr>, sw_t1 16, li_t1 OBC_RESET_TRAP, sw_t1 20,
      li_t1 OBC_FAULT_CHECKSUM_SEED] @
     xor_t1_word 8 @ xor_t1_word 12 @ xor_t1_word 16 @ xor_t1_word 20 @
     [sw_t1 4, li_t1 OBC_FAULT_MAGIC]"

definition trap_double_fault :: "(cpu \<Rightarrow> cpu) list" where
  "trap_double_fault = [li_t1 OBC_FAULT_MAGIC_DOUBLE, sw_t1 0]"

definition obc_trap_entry :: "cpu \<Rightarrow> cpu" where
  "obc_trap_entry c =
     (let c1 = run_stores trap_prologue c
      in if reg_t1 c1 \<noteq> 0 then run_stores trap_double_fault c1
         else run_stores (trap_body @ [sw_t1 0]) c1)"

text \<open>The C view of the record at an address, and what the startup code does to it.\<close>

definition record_at :: "u32 \<Rightarrow> (u32 \<Rightarrow> u32) \<Rightarrow> fault_record" where
  "record_at a m =
     \<lparr>fr_magic = m a, fr_checksum = m (a + 4), fr_cause = m (a + 8), fr_epc = m (a + 12),
      fr_tval = m (a + 16), fr_reset_cause = m (a + 20), fr_in_handler = m (a + 24),
      fr_save_t1 = m (a + 28), fr_save_t0 = m (a + 32)\<rparr>"

definition start_clears_in_handler :: "fault_record \<Rightarrow> fault_record" where
  "start_clears_in_handler r = r\<lparr>fr_in_handler := 0\<rparr>"

section \<open>Commit discipline\<close>

definition fault_accepts :: "u32 \<Rightarrow> bool" where
  "fault_accepts m \<longleftrightarrow> m = OBC_FAULT_MAGIC \<or> m = OBC_FAULT_MAGIC_DOUBLE"

definition fault_intact :: "fault_record \<Rightarrow> bool" where
  "fault_intact r \<longleftrightarrow> fst (obc_fault_validate (Some 0) r) = OBC_OK"

lemma fault_intact_magic: "fault_intact r \<Longrightarrow> fault_accepts (fr_magic r)"
  by (auto simp: fault_intact_def fault_accepts_def obc_fault_validate_def split: if_splits)

lemma fault_magics [simp]:
  "OBC_FAULT_MAGIC \<noteq> OBC_FAULT_MAGIC_DOUBLE" "OBC_FAULT_MAGIC_DOUBLE \<noteq> OBC_FAULT_MAGIC"
  "OBC_FAULT_MAGIC \<noteq> 0" "OBC_FAULT_MAGIC_DOUBLE \<noteq> 0"
  by (simp_all add: OBC_FAULT_MAGIC_def OBC_FAULT_MAGIC_DOUBLE_def)

lemma fault_checksum_cong [simp]:
  "obc_fault_checksum (Some (r\<lparr>fr_checksum := x\<rparr>)) = obc_fault_checksum (Some r)"
  "obc_fault_checksum (Some (r\<lparr>fr_magic := x\<rparr>)) = obc_fault_checksum (Some r)"
  by (simp_all add: obc_fault_checksum_def)

interpretation fault_reset: commit_record fr_magic fault_accepts fault_intact
  "fault_body cause" fault_commit fault_clear for cause
  by unfold_locales
     (auto simp: fault_body_def fault_commit_def fault_clear_def fault_intact_magic fault_accepts_def
        fault_intact_def obc_fault_validate_def obc_fault_checksum_def split: if_splits)

interpretation fault_trap: commit_tail "\<lambda>c. cpu_mem c (reg_t0 c)" fault_accepts
  "\<lambda>c. fault_intact (record_at (reg_t0 c) (cpu_mem c))" trap_body "sw_t1 0"
proof unfold_locales
  show "cpu_mem (f c) (reg_t0 (f c)) = cpu_mem c (reg_t0 c)" if "f \<in> set trap_body" for f c
    using that by (auto simp: trap_body_def sw_t1_def li_t1_def xor_t1_word_def)
  show "fault_accepts (cpu_mem c (reg_t0 c))" if "fault_intact (record_at (reg_t0 c) (cpu_mem c))" for c
    using fault_intact_magic [OF that] by (simp add: record_at_def)
  show "fault_intact (record_at (reg_t0 (sw_t1 0 (run_stores trap_body c)))
         (cpu_mem (sw_t1 0 (run_stores trap_body c))))" for c
    by (simp add: trap_body_def sw_t1_def li_t1_def xor_t1_word_def record_at_def fault_intact_def
        obc_fault_validate_def obc_fault_checksum_def)
qed

section \<open>Properties\<close>

text \<open>The record the handler leaves on its first entry, field by field.\<close>

lemma trap_entry_record:
  assumes "csr_mscratch c = a" and "fr_in_handler (record_at a (cpu_mem c)) = 0"
  shows "record_at a (cpu_mem (obc_trap_entry c)) =
    \<lparr>fr_magic = OBC_FAULT_MAGIC,
     fr_checksum = (((OBC_FAULT_CHECKSUM_SEED XOR csr_mcause c) XOR csr_mepc c) XOR csr_mtval c) XOR OBC_RESET_TRAP,
     fr_cause = csr_mcause c, fr_epc = csr_mepc c, fr_tval = csr_mtval c, fr_reset_cause = OBC_RESET_TRAP,
     fr_in_handler = 1, fr_save_t1 = reg_t1 c, fr_save_t0 = reg_t0 c\<rparr>"
  using assms
  by (simp add: obc_trap_entry_def trap_prologue_def trap_body_def sw_t1_def lw_t1_def li_t1_def
      xor_t1_word_def record_at_def Let_def)

text \<open>The handler's stores leave the magic word to the last of them, and its first nine
  instructions touch nothing the next boot reads.\<close>

lemma trap_body_pointer:
  "set fs \<subseteq> set (trap_body @ [sw_t1 0]) \<Longrightarrow> reg_t0 (run_stores fs c) = reg_t0 c"
  by (induction fs arbitrary: c)
     (auto simp: trap_body_def sw_t1_def li_t1_def xor_t1_word_def)

lemma trap_prologue_keeps:
  assumes "csr_mscratch c = a"
  shows "cpu_mem (run_stores (take k trap_prologue) c) a = cpu_mem c a"
    "reg_t0 (run_stores trap_prologue c) = a"
proof -
  consider "k = 0" | "k = 1" | "k = 2" | "k = 3" | "k = 4" | "k = 5" | "6 \<le> k" by linarith
  then show "cpu_mem (run_stores (take k trap_prologue) c) a = cpu_mem c a"
    using assms by cases (simp_all add: trap_prologue_def sw_t1_def lw_t1_def)
  show "reg_t0 (run_stores trap_prologue c) = a"
    using assms by (simp add: trap_prologue_def sw_t1_def lw_t1_def)
qed

lemma torn_trap_magic:
  assumes "csr_mscratch c = a" and "k < length (trap_prologue @ trap_body @ [sw_t1 0])"
  shows "cpu_mem (run_stores (take k (trap_prologue @ trap_body @ [sw_t1 0])) c) a = cpu_mem c a"
proof (cases "k \<le> length trap_prologue")
  case True
  then show ?thesis using trap_prologue_keeps(1) [OF assms(1)] by simp
next
  case False
  define c1 where "c1 = run_stores trap_prologue c"
  have c1: "reg_t0 c1 = a" "cpu_mem c1 a = cpu_mem c a"
    unfolding c1_def using trap_prologue_keeps(1) [OF assms(1), of "length trap_prologue"] trap_prologue_keeps(2) [OF assms(1)] by simp_all
  let ?n = "k - length trap_prologue"
  have t: "take k (trap_prologue @ trap_body @ [sw_t1 0]) = trap_prologue @ take ?n trap_body"
    using False assms(2) by simp
  have s: "set (take ?n trap_body) \<subseteq> set trap_body" by (rule set_take_subset)
  then have "set (take ?n trap_body) \<subseteq> set (trap_body @ [sw_t1 0])" by auto
  from fault_trap.magic_run_stores [OF s, of c1] trap_body_pointer [OF this, of c1]
  have "cpu_mem (run_stores (take ?n trap_body) c1) a = cpu_mem c a" by (simp only: c1)
  then show ?thesis by (simp only: t run_stores_simps(3) c1_def)
qed

lemma torn_before_payload:
  assumes "csr_mscratch c = a" and "k \<le> 9"
  shows "obc_fault_validate out (start_clears_in_handler (record_at a
      (cpu_mem (run_stores (take k (trap_prologue @ trap_body @ [sw_t1 0])) c)))) =
    obc_fault_validate out (record_at a (cpu_mem c))"
proof -
  have "k = 0 \<or> k = 1 \<or> k = 2 \<or> k = 3 \<or> k = 4 \<or> k = 5 \<or> k = 6 \<or> k = 7 \<or> k = 8 \<or> k = 9"
    using assms(2) by presburger
  then show ?thesis
    using assms(1)
    by (elim disjE) (simp_all add: trap_prologue_def trap_body_def sw_t1_def lw_t1_def li_t1_def start_clears_in_handler_def
        record_at_def obc_fault_validate_def obc_fault_checksum_def)
qed

lemma fault_validate_none: "fst (obc_fault_validate (Some x) r) = OBC_OK \<longleftrightarrow> fault_intact r"
  by (simp add: fault_intact_def obc_fault_validate_def)

text \<open>
  C25: a trap reaches the next boot. With \<open>mscratch\<close> at the record and no trap in progress,
  the handler leaves a record that the next boot validates as a trap, with the full
  \<open>mcause\<close>, \<open>mepc\<close> and \<open>mtval\<close>; it restores \<open>mscratch\<close>, never touches the stack pointer and
  writes no memory outside the record.
\<close>

theorem trap_reaches_next_boot:
  assumes "csr_mscratch c = a" and "fr_in_handler (record_at a (cpu_mem c)) = 0"
  shows "let c' = obc_trap_entry c; r = record_at a (cpu_mem c')
    in obc_fault_validate (Some x) (start_clears_in_handler r) = (OBC_OK, Some OBC_RESET_TRAP) \<and>
       fr_cause r = csr_mcause c \<and> fr_epc r = csr_mepc c \<and> fr_tval r = csr_mtval c \<and>
       csr_mscratch c' = a \<and> reg_sp c' = reg_sp c \<and>
       (\<forall>b. b \<notin> (\<lambda>off. a + off) ` {0, 4, 8, 12, 16, 20, 24, 28, 32} \<longrightarrow> cpu_mem c' b = cpu_mem c b)"
  using assms
  by (simp add: obc_trap_entry_def trap_prologue_def trap_body_def sw_t1_def lw_t1_def li_t1_def
      xor_t1_word_def record_at_def Let_def obc_fault_validate_def start_clears_in_handler_def
      obc_fault_checksum_def)

definition trapping_cpu :: cpu where
  "trapping_cpu =
     \<lparr>reg_t0 = 11, reg_t1 = 12, reg_t2 = 13, reg_sp = 0x80004000, csr_mscratch = 0x80000100,
      csr_mcause = 0x80000003, csr_mepc = 0x20400123, csr_mtval = 5, cpu_mem = (\<lambda>_. 0)\<rparr>"

theorem trap_reaches_next_boot_witness:
  "fr_cause (record_at 0x80000100 (cpu_mem (obc_trap_entry trapping_cpu))) = 0x80000003"
  using trap_reaches_next_boot [where c = trapping_cpu and a = "0x80000100" and x = 0]
  by (simp add: Let_def trapping_cpu_def record_at_def)

text \<open>
  C33: what a reset in the middle of the trap handler leaves, after any number of the
  instructions of its first entry short of the last. The magic is the one the record held
  when the trap was taken. So if it held none, as after \<^verbatim>\<open>obc_fault_consume\<close>, the torn record
  is rejected. The handler does not clear a magic that is there, though: a trap taken before
  the boot has consumed the record of the previous one, torn before its first payload
  store, leaves that record to be read a second time exactly as it stood, and from there up
  to the store of the checksum only the checksum stands against belief.
\<close>

theorem torn_trap_record_rejected:
  assumes "csr_mscratch c = a" and "k < length (trap_prologue @ trap_body @ [sw_t1 0])"
  shows "let c' = run_stores (take k (trap_prologue @ trap_body @ [sw_t1 0])) c;
      r = record_at a (cpu_mem c); r' = start_clears_in_handler (record_at a (cpu_mem c'))
    in fr_magic r' = fr_magic r \<and>
      (\<not> fault_accepts (fr_magic r) \<longrightarrow> fst (obc_fault_validate (Some x) r') \<noteq> OBC_OK) \<and>
      (k \<le> 9 \<longrightarrow> obc_fault_validate (Some x) r' = obc_fault_validate (Some x) r)"
proof -
  define c' where "c' = run_stores (take k (trap_prologue @ trap_body @ [sw_t1 0])) c"
  have m: "cpu_mem c' a = cpu_mem c a" unfolding c'_def by (rule torn_trap_magic [OF assms])
  then have "\<not> fault_accepts (cpu_mem c a) \<Longrightarrow>
      fst (obc_fault_validate (Some x) (start_clears_in_handler (record_at a (cpu_mem c')))) \<noteq> OBC_OK"
    using fault_intact_magic [of "start_clears_in_handler (record_at a (cpu_mem c'))"]
    by (auto simp: fault_validate_none start_clears_in_handler_def record_at_def)
  then show ?thesis
    using m torn_before_payload [OF assms(1), of k "Some x"]
    unfolding c'_def [symmetric] by (simp add: Let_def start_clears_in_handler_def record_at_def)
qed

text \<open>
  A trap on a record that holds no magic, cut before the last store; and a second trap on a record that has
  not been consumed, cut as its payload begins: the next boot reads the first trap again.
\<close>

definition stale_cpu :: cpu where
  "stale_cpu = trapping_cpu
     \<lparr>csr_mcause := 7, cpu_mem := (cpu_mem (obc_trap_entry trapping_cpu))(0x80000118 := 0)\<rparr>"

theorem torn_trap_record_rejected_witness:
  "fst (obc_fault_validate (Some 0) (start_clears_in_handler (record_at 0x80000100
      (cpu_mem (run_stores (take 27 (trap_prologue @ trap_body @ [sw_t1 0])) trapping_cpu))))) \<noteq> OBC_OK \<and>
   obc_fault_validate (Some 0) (start_clears_in_handler (record_at 0x80000100
      (cpu_mem (run_stores (take 9 (trap_prologue @ trap_body @ [sw_t1 0])) stale_cpu)))) = (OBC_OK, Some OBC_RESET_TRAP)"
proof -
  have l: "length (trap_prologue @ trap_body @ [sw_t1 0]) = 28"
    by (simp add: trap_prologue_def trap_body_def xor_t1_word_def)
  have "csr_mscratch trapping_cpu = 0x80000100" "\<not> fault_accepts (fr_magic (record_at 0x80000100 (cpu_mem trapping_cpu)))"
    by (simp_all add: trapping_cpu_def record_at_def fault_accepts_def OBC_FAULT_MAGIC_def OBC_FAULT_MAGIC_DOUBLE_def)
  then have 1: "fst (obc_fault_validate (Some 0) (start_clears_in_handler (record_at 0x80000100
      (cpu_mem (run_stores (take 27 (trap_prologue @ trap_body @ [sw_t1 0])) trapping_cpu))))) \<noteq> OBC_OK"
    using torn_trap_record_rejected [of trapping_cpu "0x80000100" 27 0] l by (simp add: Let_def)
  have "csr_mscratch stale_cpu = 0x80000100" by (simp add: stale_cpu_def trapping_cpu_def)
  moreover have "obc_fault_validate (Some 0) (record_at 0x80000100 (cpu_mem stale_cpu)) = (OBC_OK, Some OBC_RESET_TRAP)"
    using trap_entry_record [of trapping_cpu "0x80000100"]
    by (simp add: stale_cpu_def trapping_cpu_def record_at_def obc_fault_validate_def obc_fault_checksum_def)
  ultimately show ?thesis
    using 1 torn_trap_record_rejected [of stale_cpu "0x80000100" 9 0] l by (simp add: Let_def)
qed

text \<open>The first-entry path keeps the record pointer in \<open>t0\<close> and \<open>mscratch\<close> and the flag up.\<close>

lemma trap_body_keeps_flag:
  assumes "f \<in> set (drop 2 (trap_body @ [sw_t1 0]))"
  shows "reg_t0 (f c) = reg_t0 c \<and> csr_mscratch (f c) = csr_mscratch c \<and>
    cpu_mem (f c) (reg_t0 c + 24) = cpu_mem c (reg_t0 c + 24)"
  using assms by (auto simp: trap_body_def sw_t1_def li_t1_def xor_t1_word_def)

lemma run_keeps_flag:
  assumes "set fs \<subseteq> set (drop 2 (trap_body @ [sw_t1 0]))"
  shows "reg_t0 (run_stores fs c) = reg_t0 c \<and> csr_mscratch (run_stores fs c) = csr_mscratch c \<and>
    cpu_mem (run_stores fs c) (reg_t0 c + 24) = cpu_mem c (reg_t0 c + 24)"
  using assms
proof (induction fs arbitrary: c)
  case Nil
  then show ?case by simp
next
  case (Cons f fs)
  have "f \<in> set (drop 2 (trap_body @ [sw_t1 0]))" using Cons.prems by simp
  then show ?case using Cons.IH [of "f c"] Cons.prems trap_body_keeps_flag [of f c] by simp
qed

text \<open>
  C32: a trap taken inside the handler is reported as a double fault and nothing else. Once
  the handler has raised its flag, a second trap at any later instruction of the
  first-entry path, with the registers as they stand there and any new trap CSRs, leaves a
  record the next boot reads as a double fault, and reaches it through an intact
  \<open>mscratch\<close>.
\<close>

theorem nested_trap_is_double_fault:
  fixes c :: cpu and a mc me mt x :: u32 and k :: nat
  assumes "csr_mscratch c = a" and "fr_in_handler (record_at a (cpu_mem c)) = 0" and "2 \<le> k"
  defines "c1 \<equiv> run_stores (take k (trap_body @ [sw_t1 0])) (run_stores trap_prologue c)"
  defines "c2 \<equiv> obc_trap_entry (c1\<lparr>csr_mcause := mc, csr_mepc := me, csr_mtval := mt\<rparr>)"
  shows "obc_fault_validate (Some x) (record_at a (cpu_mem c2)) = (OBC_OK, Some OBC_RESET_DOUBLE_FAULT) \<and>
    csr_mscratch c2 = a"
proof -
  define fs where "fs = take (k - 2) (drop 2 (trap_body @ [sw_t1 0]))"
  define c0 where "c0 = run_stores (take 2 (trap_body @ [sw_t1 0])) (run_stores trap_prologue c)"
  have c0: "reg_t0 c0 = a" "csr_mscratch c0 = a" "cpu_mem c0 (a + 24) = 1"
    using assms(1) by (simp_all add: c0_def trap_body_def trap_prologue_def sw_t1_def li_t1_def lw_t1_def)
  have "take k (trap_body @ [sw_t1 0]) = take 2 (trap_body @ [sw_t1 0]) @ fs"
    unfolding fs_def using assms(3) by (metis le_add_diff_inverse take_add)
  then have c1: "c1 = run_stores fs c0"
    unfolding c1_def c0_def by (simp only: run_stores_simps)
  have sub: "set fs \<subseteq> set (drop 2 (trap_body @ [sw_t1 0]))"
    unfolding fs_def by (rule set_take_subset)
  have "csr_mscratch c1 = a" "cpu_mem c1 (a + 24) = 1"
    using run_keeps_flag [OF sub, of c0] unfolding c1 c0 by simp_all
  then show ?thesis
    by (simp add: c2_def obc_trap_entry_def trap_prologue_def trap_double_fault_def sw_t1_def
        li_t1_def lw_t1_def Let_def record_at_def obc_fault_validate_def)
qed

theorem nested_trap_is_double_fault_witness:
  "fst (obc_fault_validate (Some 0) (record_at 0x80000100 (cpu_mem (obc_trap_entry
     ((run_stores (take 7 (trap_body @ [sw_t1 0])) (run_stores trap_prologue trapping_cpu))
        \<lparr>csr_mcause := 2, csr_mepc := 3, csr_mtval := 4\<rparr>))))) = OBC_OK"
proof -
  have "csr_mscratch trapping_cpu = 0x80000100"
    "fr_in_handler (record_at 0x80000100 (cpu_mem trapping_cpu)) = 0" "2 \<le> (7::nat)"
    by (simp_all add: trapping_cpu_def record_at_def)
  from nested_trap_is_double_fault [OF this, THEN conjunct1, THEN arg_cong [of _ _ fst]]
  show ?thesis by (simp only: fst_conv)
qed

text \<open>
  A deliberate reset is atomic. Cut after any number of its stores, what the next boot
  believes is either the record that was there before, untouched, or the new one, whose
  cause is the requested one.
\<close>

lemma deliberate_reset_is_atomic:
  "fst (obc_fault_validate (Some x) (run_stores (take k (fault_reset_stores cause)) r)) = OBC_OK \<Longrightarrow>
   run_stores (take k (fault_reset_stores cause)) r = r \<or>
   obc_fault_validate (Some x) (run_stores (take k (fault_reset_stores cause)) r) = (OBC_OK, Some cause)"
proof -
  assume ok: "fst (obc_fault_validate (Some x) (run_stores (take k (fault_reset_stores cause)) r)) = OBC_OK"
  have new: "obc_fault_validate (Some x) (run_stores (fault_reset_stores cause) r) = (OBC_OK, Some cause)"
    by (simp add: fault_reset_stores_def obc_fault_validate_def fault_commit_def fault_body_def
        fault_clear_def obc_fault_checksum_def)
  have "run_stores (take k (fault_reset_stores cause)) r \<in> {r, run_stores (fault_reset_stores cause) r}"
    using ok unfolding fault_validate_none fault_reset_stores_def by (rule fault_reset.atomic)
  with new show ?thesis by auto
qed

end
