(* ===== verification/Critical.thy ===== *)
theory Critical
  imports Prelude
begin

text \<open>
  Triple-redundant critical state, \<^verbatim>\<open>flight/core/critical.c\<close>. An item is three copies of one
  word, each with a checksum under its own seed; a read votes among the copies that pass
  their own checksum and repairs the ones that dissent. The registry is a list of items,
  in which the flight image has one, the operating mode; a pointer to an item is its index.
\<close>

section \<open>Items, copies and checksums\<close>

definition OBC_CRITICAL_COPIES :: nat where [obc_consts]: "OBC_CRITICAL_COPIES = 3"
definition OBC_CRITICAL_MAX_ITEMS :: nat where [obc_consts]: "OBC_CRITICAL_MAX_ITEMS = 4"
definition OBC_CRITICAL_SEED_0 :: u32 where [obc_consts]: "OBC_CRITICAL_SEED_0 = 0xA5A50001"
definition OBC_CRITICAL_SEED_1 :: u32 where [obc_consts]: "OBC_CRITICAL_SEED_1 = 0x5A5A0002"
definition OBC_CRITICAL_SEED_2 :: u32 where [obc_consts]: "OBC_CRITICAL_SEED_2 = 0xC3C30003"

record critical_copy =
  cc_value :: u32
  cc_checksum :: u32

record critical_item =
  ci_copies :: "critical_copy list"
  ci_seeds :: "u32 list"

record critical_st =
  obc_critical_items :: "critical_item list"
  obc_critical_repairs :: u32
  obc_critical_failed_votes :: u32
  obc_critical_unresolvable_events :: u32
  s_was_resolving :: "u8 list"

definition checksum_of :: "u32 \<Rightarrow> u32 \<Rightarrow> u32" where
  "checksum_of value seed = (value XOR seed) + push_bit 7 value + drop_bit 3 value"

definition copy_is_intact :: "critical_item \<Rightarrow> nat \<Rightarrow> bool" where
  "copy_is_intact item index =
     (let copy = ci_copies item ! index
      in cc_checksum copy = checksum_of (cc_value copy) (ci_seeds item ! index))"

definition write_copy :: "nat \<Rightarrow> u32 \<Rightarrow> critical_item \<Rightarrow> critical_item" where
  "write_copy index value item =
     item\<lparr>ci_copies := (ci_copies item)
       [index := \<lparr>cc_value = value, cc_checksum = checksum_of value (ci_seeds item ! index)\<rparr>]\<rparr>"

definition set_item :: "u32 \<Rightarrow> critical_item \<Rightarrow> critical_item" where
  "set_item value item = fold (\<lambda>i. write_copy i value) [0..<OBC_CRITICAL_COPIES] item"

definition obc_critical_set :: "nat ptr \<Rightarrow> u32 \<Rightarrow> critical_st \<Rightarrow> critical_st" where
  "obc_critical_set item value c =
     (case item of
        None \<Rightarrow> c
      | Some n \<Rightarrow> c\<lparr>obc_critical_items :=
          (obc_critical_items c)[n := set_item value (obc_critical_items c ! n)]\<rparr>)"

section \<open>The vote\<close>

definition item_index :: "nat \<Rightarrow> critical_st \<Rightarrow> nat" where
  "item_index item c =
     (if item < length (obc_critical_items c) \<and> item < OBC_CRITICAL_MAX_ITEMS then item else 0)"

definition agreeing :: "critical_item \<Rightarrow> nat \<Rightarrow> nat" where
  "agreeing item i =
     1 + length (filter (\<lambda>j. j \<noteq> i \<and> copy_is_intact item j \<and>
            cc_value (ci_copies item ! j) = cc_value (ci_copies item ! i))
          [0..<OBC_CRITICAL_COPIES])"

definition majority_index :: "critical_item \<Rightarrow> nat option" where
  "majority_index item =
     find (\<lambda>i. copy_is_intact item i \<and> 2 \<le> agreeing item i) [0..<OBC_CRITICAL_COPIES]"

fun repair_copies :: "u32 \<Rightarrow> nat list \<Rightarrow> critical_item \<times> u32 \<Rightarrow> critical_item \<times> u32" where
  "repair_copies winner [] r = r"
| "repair_copies winner (j # js) (item, repairs) =
     (if \<not> copy_is_intact item j \<or> cc_value (ci_copies item ! j) \<noteq> winner
      then repair_copies winner js (write_copy j winner item, repairs + 1)
      else repair_copies winner js (item, repairs))"

definition vote :: "nat \<Rightarrow> u32 ptr \<Rightarrow> critical_st \<Rightarrow> obc_status \<times> u32 ptr \<times> critical_st" where
  "vote n out c =
     (let item = obc_critical_items c ! n; index = item_index n c
      in case majority_index item of
           Some i \<Rightarrow>
             (let winner = cc_value (ci_copies item ! i);
                  (item', repairs) =
                    repair_copies winner [0..<OBC_CRITICAL_COPIES] (item, obc_critical_repairs c)
              in (OBC_OK, map_option (\<lambda>_. winner) out,
                  c\<lparr>obc_critical_items := (obc_critical_items c)[n := item'],
                    obc_critical_repairs := repairs,
                    s_was_resolving := (s_was_resolving c)[index := 1]\<rparr>))
         | None \<Rightarrow>
             (let c1 = c\<lparr>obc_critical_failed_votes := obc_critical_failed_votes c + 1\<rparr>
              in (OBC_ERR_UNSTABLE, out,
                  if s_was_resolving c ! index \<noteq> 0
                  then c1\<lparr>s_was_resolving := (s_was_resolving c)[index := 0],
                          obc_critical_unresolvable_events :=
                            obc_critical_unresolvable_events c + 1\<rparr>
                  else c1)))"

definition obc_critical_get ::
  "nat ptr \<Rightarrow> u32 ptr \<Rightarrow> critical_st \<Rightarrow> obc_status \<times> u32 ptr \<times> critical_st" where
  "obc_critical_get item out c =
     (case item of
        None \<Rightarrow> (OBC_ERR_INVALID, out, c)
      | Some n \<Rightarrow> if out = None then (OBC_ERR_INVALID, out, c) else vote n out c)"

fun scrub_items :: "nat list \<Rightarrow> obc_status \<Rightarrow> critical_st \<Rightarrow> obc_status \<times> critical_st" where
  "scrub_items [] worst c = (worst, c)"
| "scrub_items (n # ns) worst c =
     (case vote n None c of
        (st, _, c') \<Rightarrow> scrub_items ns (if st \<noteq> OBC_OK then st else worst) c')"

definition obc_critical_scrub :: "critical_st \<Rightarrow> obc_status \<times> critical_st" where
  "obc_critical_scrub c = scrub_items [0..<length (obc_critical_items c)] OBC_OK c"

text \<open>
  The image: one item, its three copies in sections the startup code does not touch (their
  content before the first \<^verbatim>\<open>obc_critical_set\<close> is whatever the RAM held).
\<close>

definition obc_critical_mode :: nat where "obc_critical_mode = 0"

definition mode_item :: "critical_copy list \<Rightarrow> critical_item" where
  "mode_item copies =
     \<lparr>ci_copies = copies, ci_seeds = [OBC_CRITICAL_SEED_0, OBC_CRITICAL_SEED_1, OBC_CRITICAL_SEED_2]\<rparr>"

section \<open>Closed forms\<close>

definition sealed_copy :: "u32 \<Rightarrow> u32 \<Rightarrow> critical_copy" where
  "sealed_copy v seed = \<lparr>cc_value = v, cc_checksum = checksum_of v seed\<rparr>"

definition wf_item :: "critical_item \<Rightarrow> bool" where
  "wf_item item \<longleftrightarrow> length (ci_copies item) = 3 \<and> length (ci_seeds item) = 3 \<and> distinct (ci_seeds item)"

definition wf_critical :: "critical_st \<Rightarrow> bool" where
  "wf_critical c \<longleftrightarrow> list_all wf_item (obc_critical_items c) \<and> length (s_was_resolving c) = 4"

text \<open>\<open>holds item v i\<close>: copy \<open>i\<close> passes its checksum and says \<open>v\<close>.\<close>

definition holds :: "critical_item \<Rightarrow> u32 \<Rightarrow> nat \<Rightarrow> bool" where
  "holds item v i \<longleftrightarrow> copy_is_intact item i \<and> cc_value (ci_copies item ! i) = v"

definition majority :: "critical_item \<Rightarrow> u32 \<Rightarrow> bool" where
  "majority item v \<longleftrightarrow>
     holds item v 0 \<and> holds item v 1 \<or> holds item v 0 \<and> holds item v 2 \<or> holds item v 1 \<and> holds item v 2"

lemma upt_3 [simp]: "[0..<OBC_CRITICAL_COPIES] = [0, 1, 2]"
  by (simp add: OBC_CRITICAL_COPIES_def upt_rec)

lemma length_3: "length xs = 3 \<longleftrightarrow> (\<exists>a b c. xs = [a, b, c])"
  by (auto simp: numeral_eq_Suc length_Suc_conv)

lemma majority_unique: "majority item v \<Longrightarrow> majority item w \<Longrightarrow> v = w"
  by (auto simp: majority_def holds_def)

lemma majority_index_eq:
  "majority_index item =
     (let ok = copy_is_intact item; v = (\<lambda>i. cc_value (ci_copies item ! i))
      in if ok 0 \<and> (ok 1 \<and> v 1 = v 0 \<or> ok 2 \<and> v 2 = v 0) then Some 0
         else if ok 1 \<and> ok 2 \<and> v 2 = v 1 then Some 1 else None)"
proof -
  define a b c where "a = cc_value (ci_copies item ! 0)" and "b = cc_value (ci_copies item ! 1)"
    and "c = cc_value (ci_copies item ! 2)"
  have v: "cc_value (ci_copies item ! 0) = a" "cc_value (ci_copies item ! Suc 0) = b"
    "cc_value (ci_copies item ! 2) = c" by (simp_all add: a_def b_def c_def)
  show ?thesis
    unfolding majority_index_def agreeing_def Let_def upt_3
    by (cases "copy_is_intact item 0"; cases "copy_is_intact item (Suc 0)";
        cases "copy_is_intact item 2"; cases "a = b"; cases "b = c"; cases "a = c"; simp add: v)
qed

lemma majority_index_Some:
  "majority item v \<Longrightarrow> \<exists>i. majority_index item = Some i \<and> cc_value (ci_copies item ! i) = v"
  by (auto simp: majority_def holds_def majority_index_eq Let_def)

lemma majority_index_None:
  "(\<forall>v. \<not> majority item v) \<Longrightarrow> majority_index item = None"
  by (auto simp: majority_def holds_def majority_index_eq Let_def)

lemma set_item_eq:
  "wf_item item \<Longrightarrow> set_item v item = item\<lparr>ci_copies := map (sealed_copy v) (ci_seeds item)\<rparr>"
  by (auto simp: set_item_def wf_item_def length_3 write_copy_def sealed_copy_def)

lemma write_copy_same:
  "j < length (ci_copies item) \<Longrightarrow> holds item v j \<Longrightarrow> write_copy j v item = item"
  by (cases item) (auto simp: holds_def write_copy_def copy_is_intact_def Let_def
      intro!: list_update_same_conv [THEN iffD2])

text \<open>How many of the three copies a repair has to rewrite.\<close>

definition dissenters :: "critical_item \<Rightarrow> u32 \<Rightarrow> nat" where
  "dissenters item v = length (filter (\<lambda>i. \<not> holds item v i) [0, 1, 2])"

lemma holds_write_other:
  "i \<noteq> j \<Longrightarrow> holds (write_copy j w item) v i = holds item v i"
  by (simp add: holds_def write_copy_def copy_is_intact_def Let_def)

lemma repair_copies_step:
  "j < length (ci_copies item) \<Longrightarrow>
   repair_copies v (j # js) (item, r) =
     repair_copies v js (write_copy j v item, r + (if holds item v j then 0 else 1))"
  by (auto simp: write_copy_same [unfolded holds_def] holds_def)

lemma repair_copies_eq:
  assumes "wf_item item"
  shows "repair_copies v [0, 1, 2] (item, r) = (set_item v item, r + of_nat (dissenters item v))"
proof -
  have len: "length (ci_copies item) = 3" using assms by (simp add: wf_item_def)
  have lenw: "length (ci_copies (write_copy j w it)) = length (ci_copies it)" for j w it
    by (simp add: write_copy_def)
  have "set_item v item = write_copy 2 v (write_copy 1 v (write_copy 0 v item))"
    by (simp add: set_item_def)
  then show ?thesis
    using len
    by (simp add: repair_copies_step lenw holds_write_other dissenters_def
        del: repair_copies.simps(2))
qed

lemma wf_set_item [simp]: "wf_item item \<Longrightarrow> wf_item (set_item v item)"
  by (simp add: set_item_eq) (simp add: wf_item_def)

lemma holds_sealed:
  "wf_item item \<Longrightarrow> i < 3 \<Longrightarrow> ci_copies item ! i = sealed_copy v (ci_seeds item ! i) \<Longrightarrow> holds item v i"
  by (simp add: holds_def copy_is_intact_def sealed_copy_def Let_def)

lemma majority_set_item: "wf_item item \<Longrightarrow> majority (set_item v item) v"
  unfolding majority_def
  by (auto intro!: holds_sealed simp: set_item_eq wf_item_def)

section \<open>What a vote does\<close>

text \<open>The two outcomes, with the whole effect on the state.\<close>

lemma vote_resolved:
  assumes "wf_item (obc_critical_items c ! n)" and "majority (obc_critical_items c ! n) v"
  shows "vote n out c =
    (OBC_OK, map_option (\<lambda>_. v) out,
     c\<lparr>obc_critical_items := (obc_critical_items c)[n := set_item v (obc_critical_items c ! n)],
       obc_critical_repairs := obc_critical_repairs c + of_nat (dissenters (obc_critical_items c ! n) v),
       s_was_resolving := (s_was_resolving c)[item_index n c := 1]\<rparr>)"
proof -
  obtain i where "majority_index (obc_critical_items c ! n) = Some i"
    and "cc_value (ci_copies (obc_critical_items c ! n) ! i) = v"
    using majority_index_Some [OF assms(2)] by blast
  then show ?thesis
    using repair_copies_eq [OF assms(1)] by (simp add: vote_def Let_def del: repair_copies.simps)
qed

lemma vote_unresolved:
  assumes "\<forall>v. \<not> majority (obc_critical_items c ! n) v"
  shows "vote n out c =
    (OBC_ERR_UNSTABLE, out,
     if s_was_resolving c ! item_index n c \<noteq> 0
     then c\<lparr>obc_critical_failed_votes := obc_critical_failed_votes c + 1,
            s_was_resolving := (s_was_resolving c)[item_index n c := 0],
            obc_critical_unresolvable_events := obc_critical_unresolvable_events c + 1\<rparr>
     else c\<lparr>obc_critical_failed_votes := obc_critical_failed_votes c + 1\<rparr>)"
  using majority_index_None [OF assms] by (simp add: vote_def Let_def)

lemma wf_nth: "wf_critical c \<Longrightarrow> n < length (obc_critical_items c) \<Longrightarrow> wf_item (obc_critical_items c ! n)"
  by (simp add: wf_critical_def list_all_length)

lemma wf_set: "wf_critical c \<Longrightarrow> wf_critical (obc_critical_set (Some n) v c)"
  by (cases "n < length (obc_critical_items c)")
     (auto simp: wf_critical_def obc_critical_set_def list_all_length nth_list_update)

lemma wf_vote:
  assumes "wf_critical c" and "n < length (obc_critical_items c)"
  shows "wf_critical (snd (snd (vote n out c)))"
proof (cases "\<exists>v. majority (obc_critical_items c ! n) v")
  case True
  then obtain v where "majority (obc_critical_items c ! n) v" ..
  from vote_resolved [OF wf_nth [OF assms] this] assms show ?thesis
    by (auto simp: wf_critical_def list_all_length nth_list_update)
next
  case False
  then show ?thesis using assms by (auto simp: vote_unresolved wf_critical_def)
qed

section \<open>The checksum\<close>

lemma take_bit_add_cong:
  fixes a a' b :: "'a::len word"
  assumes "take_bit m a = take_bit m a'"
  shows "take_bit m (a + b) = take_bit m (a' + b)"
  using assms
proof transfer
  fix m :: nat and a a' b :: int
  assume "take_bit LENGTH('a) (take_bit m a) = take_bit LENGTH('a) (take_bit m a')"
  then have "take_bit (min LENGTH('a) m) a = take_bit (min LENGTH('a) m) a'" by simp
  then have "take_bit (min LENGTH('a) m) (a + b) = take_bit (min LENGTH('a) m) (a' + b)"
    by (metis take_bit_add)
  then show "take_bit LENGTH('a) (take_bit m (a + b)) = take_bit LENGTH('a) (take_bit m (a' + b))"
    by simp
qed

lemma take_bit_add_cancel:
  fixes x x' y y' :: u32
  assumes "take_bit m x = take_bit m x'" and "x + y = x' + y'"
  shows "take_bit m y = take_bit m y'"
proof -
  have "take_bit m (NOT x) = take_bit m (NOT x')"
    using take_bit_not_take_bit [of m x] take_bit_not_take_bit [of m x'] assms(1) by simp
  from take_bit_add_cong [OF this, of 1] have "take_bit m (- x) = take_bit m (- x')"
    by (simp add: minus_eq_not_plus_1)
  from take_bit_add_cong [OF this, of "x' + y'"]
  have "take_bit m (- x + (x + y)) = take_bit m (- x' + (x' + y'))"
    using assms(2) by simp
  then show ?thesis by simp
qed

lemma bit_xor_pow:
  "bit (v XOR push_bit k (1::u32)) n \<longleftrightarrow> (if n = k \<and> k < 32 then \<not> bit v n else bit v n)"
  by (auto simp: bit_simps)

text \<open>
  The lowest bit a flipped bit reaches is \<open>k - 3\<close> through the shift right, or \<open>k\<close> itself
  when \<open>k < 3\<close>; below and at that bit nothing else changes, so the sums differ there.
\<close>

lemma checksum_of_flip:
  assumes "k < 32"
  shows "checksum_of (v XOR push_bit k 1) seed \<noteq> checksum_of v seed"
proof
  define w where "w = v XOR push_bit k (1::u32)"
  have bw: "bit w n \<longleftrightarrow> (if n = k then \<not> bit v n else bit v n)" for n
    using assms unfolding w_def bit_xor_pow by simp
  assume "checksum_of (v XOR push_bit k 1) seed = checksum_of v seed"
  then have eq: "((w XOR seed) + push_bit 7 w) + drop_bit 3 w = ((v XOR seed) + push_bit 7 v) + drop_bit 3 v"
    by (simp add: checksum_of_def w_def)
  show False
  proof (cases "k < 3")
    case True
    have d: "drop_bit 3 w = drop_bit 3 v"
      using True by (intro bit_word_eqI) (auto simp: bit_simps bw)
    have p: "take_bit (Suc k) (push_bit 7 w) = take_bit (Suc k) (push_bit 7 v)"
      using True by (intro bit_word_eqI) (auto simp: bit_simps bw)
    have "push_bit 7 w + (w XOR seed) = push_bit 7 v + (v XOR seed)"
      using eq by (simp add: d add.commute)
    from take_bit_add_cancel [OF p this]
    have "bit (take_bit (Suc k) (w XOR seed)) k = bit (take_bit (Suc k) (v XOR seed)) k"
      by simp
    then show False using assms by (auto simp: bit_simps bw)
  next
    case False
    let ?m = "k - 2"
    have "take_bit ?m (w XOR seed) = take_bit ?m (v XOR seed)"
      and "take_bit ?m (push_bit 7 w) = take_bit ?m (push_bit 7 v)"
      using False by (auto intro!: bit_word_eqI simp: bit_simps bw split: if_splits)
    then have "take_bit ?m ((w XOR seed) + push_bit 7 w) = take_bit ?m ((v XOR seed) + push_bit 7 v)"
      by (metis add.commute take_bit_add_cong)
    from take_bit_add_cancel [OF this eq]
    have "bit (take_bit ?m (drop_bit 3 w)) (k - 3) = bit (take_bit ?m (drop_bit 3 v)) (k - 3)"
      by simp
    moreover have "k - 3 < k - 2" using False by simp
    ultimately show False using assms False by (auto simp: bit_simps bw)
  qed
qed

section \<open>Counting failures as events\<close>

text \<open>
  The environment may rewrite the memory that holds the copies before each vote:
  \<open>observe\<close> votes once on each of a list of memory contents and returns which votes
  resolved.
\<close>

fun observe :: "nat \<Rightarrow> critical_item list list \<Rightarrow> critical_st \<Rightarrow> bool list \<times> critical_st" where
  "observe n [] c = ([], c)"
| "observe n (m # ms) c =
     (case vote n None (c\<lparr>obc_critical_items := m\<rparr>) of
        (st, _, c') \<Rightarrow>
          (case observe n ms c' of (bs, c'') \<Rightarrow> ((st = OBC_OK) # bs, c'')))"

text \<open>Falling edges of a sequence: a success followed by a failure.\<close>

fun falling :: "bool \<Rightarrow> bool list \<Rightarrow> nat" where
  "falling prev [] = 0"
| "falling prev (b # bs) = (if prev \<and> \<not> b then 1 else 0) + falling b bs"

lemma vote_counts:
  assumes "wf_critical c" and "n < length (obc_critical_items c)" and "n < OBC_CRITICAL_MAX_ITEMS"
    and "vote n out c = (st, out', c')"
  shows "obc_critical_unresolvable_events c' = obc_critical_unresolvable_events c +
           (if s_was_resolving c ! n \<noteq> 0 \<and> st \<noteq> OBC_OK then 1 else 0) \<and>
         (s_was_resolving c' ! n \<noteq> 0 \<longleftrightarrow> st = OBC_OK) \<and>
         obc_critical_failed_votes c' = obc_critical_failed_votes c + (if st = OBC_OK then 0 else 1)"
proof -
  have idx: "item_index n c = n" using assms(2,3) by (simp add: item_index_def)
  have len: "n < length (s_was_resolving c)"
    using assms(1,3) by (simp add: wf_critical_def OBC_CRITICAL_MAX_ITEMS_def)
  show ?thesis
  proof (cases "\<exists>v. majority (obc_critical_items c ! n) v")
    case True
    then obtain v where "majority (obc_critical_items c ! n) v" ..
    from vote_resolved [OF wf_nth [OF assms(1,2)] this, of out] assms(4) idx len show ?thesis by auto
  next
    case False
    then show ?thesis using vote_unresolved [of c n out] assms(4) idx len by auto
  qed
qed

lemma observe_counts:
  assumes "wf_critical c" and "n < OBC_CRITICAL_MAX_ITEMS"
    and "\<forall>m \<in> set ms. n < length m \<and> list_all wf_item m"
    and "observe n ms c = (bs, c')"
  shows "obc_critical_unresolvable_events c' =
           obc_critical_unresolvable_events c + of_nat (falling (s_was_resolving c ! n \<noteq> 0) bs) \<and>
         obc_critical_failed_votes c' =
           obc_critical_failed_votes c + of_nat (length (filter Not bs))"
  using assms
proof (induction ms arbitrary: c bs)
  case Nil
  then show ?case by simp
next
  case (Cons m ms)
  let ?c = "c\<lparr>obc_critical_items := m\<rparr>"
  obtain st out c1 where v: "vote n None ?c = (st, out, c1)" by (cases "vote n None ?c") auto
  obtain bs' where o: "observe n ms c1 = (bs', c')" and bs: "bs = (st = OBC_OK) # bs'"
    using Cons.prems(4) v by (auto split: prod.splits)
  have wf: "wf_critical ?c" "n < length (obc_critical_items ?c)"
    using Cons.prems by (auto simp: wf_critical_def)
  then have "wf_critical c1" using wf_vote [of ?c n None] v by simp
  then show ?case
    using Cons.IH [OF _ Cons.prems(2) _ o] Cons.prems(3)
      vote_counts [OF wf Cons.prems(2) v] bs by (cases "st = OBC_OK") auto
qed

section \<open>The interface the operating mode uses\<close>

text \<open>
  A word kept by redundant copies, as its client sees it: \<open>says s v\<close> is the abstract
  content, a majority of undamaged copies.
\<close>

locale voted_word =
  fixes put :: "u32 \<Rightarrow> 's \<Rightarrow> 's"
    and get :: "u32 ptr \<Rightarrow> 's \<Rightarrow> obc_status \<times> u32 ptr \<times> 's"
    and good :: "'s \<Rightarrow> bool"
    and says :: "'s \<Rightarrow> u32 \<Rightarrow> bool"
  assumes put_good: "good s \<Longrightarrow> good (put v s)"
    and put_says: "good s \<Longrightarrow> says (put v s) v"
    and get_good: "good s \<Longrightarrow> good (snd (snd (get out s)))"
    and get_says: "good s \<Longrightarrow> says s v \<Longrightarrow>
      fst (get (Some x) s) = OBC_OK \<and> fst (snd (get (Some x) s)) = Some v \<and>
      says (snd (snd (get (Some x) s))) v"
    and get_silent: "good s \<Longrightarrow> (\<And>v. \<not> says s v) \<Longrightarrow>
      fst (get (Some x) s) = OBC_ERR_UNSTABLE \<and> fst (snd (get (Some x) s)) = Some x"
begin

text \<open>A read of a word just written returns it, and reading is repeatable.\<close>

lemma get_put:
  "good s \<Longrightarrow> fst (get (Some x) (put v s)) = OBC_OK \<and> fst (snd (get (Some x) (put v s))) = Some v"
  using get_says put_good put_says by blast

lemma get_again:
  assumes "good s" and "fst (get (Some x) s) = OBC_OK"
  shows "fst (get (Some y) (snd (snd (get (Some x) s)))) = OBC_OK \<and>
    fst (snd (get (Some y) (snd (snd (get (Some x) s))))) = fst (snd (get (Some x) s))"
proof -
  obtain v where v: "says s v" using assms get_silent by force
  with assms(1) have s': "says (snd (snd (get (Some x) s))) v" "good (snd (snd (get (Some x) s)))"
    using get_says get_good by blast+
  show ?thesis using get_says [OF s'(2,1)] get_says [OF assms(1) v] by simp
qed

text \<open>The fail-safe reading of a two-valued word: no answer counts as the safe value.\<close>

lemma fail_safe:
  assumes "good s" and "fst (get (Some x) s) \<noteq> OBC_OK \<or> fst (snd (get (Some x) s)) = Some x"
  shows "\<And>v. says s v \<Longrightarrow> v = x"
  using assms get_says by fastforce

end

definition critical_good :: "critical_st \<Rightarrow> bool" where
  "critical_good c \<longleftrightarrow> wf_critical c \<and> 0 < length (obc_critical_items c)"

definition critical_says :: "critical_st \<Rightarrow> u32 \<Rightarrow> bool" where
  "critical_says c v \<longleftrightarrow> majority (obc_critical_items c ! obc_critical_mode) v"

interpretation mode_word: voted_word "obc_critical_set (Some obc_critical_mode)"
  "obc_critical_get (Some obc_critical_mode)" critical_good critical_says
proof unfold_locales
  fix c v out x
  assume g: "critical_good c"
  then have wf: "wf_critical c" "obc_critical_mode < length (obc_critical_items c)"
    by (simp_all add: critical_good_def obc_critical_mode_def)
  note wfi = wf_nth [OF wf]
  show "critical_good (obc_critical_set (Some obc_critical_mode) v c)"
    using wf_set [OF wf(1)] wf(2) by (auto simp: critical_good_def obc_critical_set_def)
  show "critical_says (obc_critical_set (Some obc_critical_mode) v c) v"
    using majority_set_item [OF wfi] wf(2) by (simp add: critical_says_def obc_critical_set_def)
  have len: "length (obc_critical_items (snd (snd (vote obc_critical_mode out c)))) =
      length (obc_critical_items c)" for out
    using vote_resolved [OF wfi] vote_unresolved [of c obc_critical_mode]
    by (cases "\<exists>v. majority (obc_critical_items c ! obc_critical_mode) v") auto
  show "critical_good (snd (snd (obc_critical_get (Some obc_critical_mode) out c)))"
    using wf_vote [OF wf, of out] len [of out] g
    by (auto simp: critical_good_def obc_critical_get_def simp flip: length_greater_0_conv)
  show "fst (obc_critical_get (Some obc_critical_mode) (Some x) c) = OBC_OK \<and>
      fst (snd (obc_critical_get (Some obc_critical_mode) (Some x) c)) = Some v \<and>
      critical_says (snd (snd (obc_critical_get (Some obc_critical_mode) (Some x) c))) v"
    if "critical_says c v"
    using that vote_resolved [OF wfi] majority_set_item [OF wfi] wf(2)
    by (simp add: critical_says_def obc_critical_get_def)
  show "fst (obc_critical_get (Some obc_critical_mode) (Some x) c) = OBC_ERR_UNSTABLE \<and>
      fst (snd (obc_critical_get (Some obc_critical_mode) (Some x) c)) = Some x"
    if "\<And>v. \<not> critical_says c v"
    using that vote_unresolved [of c obc_critical_mode "Some x"]
    by (simp add: critical_says_def obc_critical_get_def)
qed

section \<open>Properties\<close>

text \<open>The fault model: copy \<open>k\<close> of item \<open>n\<close> is overwritten with any two words.\<close>

definition corrupt_copy :: "nat \<Rightarrow> nat \<Rightarrow> critical_copy \<Rightarrow> critical_st \<Rightarrow> critical_st" where
  "corrupt_copy n k x c =
     c\<lparr>obc_critical_items := (obc_critical_items c)
        [n := (obc_critical_items c ! n)\<lparr>ci_copies := (ci_copies (obc_critical_items c ! n))[k := x]\<rparr>]\<rparr>"

lemma majority_after_one_corruption:
  assumes "wf_item item" and "k < 3"
  shows "majority ((set_item v item)\<lparr>ci_copies := (ci_copies (set_item v item))[k := x]\<rparr>) v"
proof -
  let ?i = "(set_item v item)\<lparr>ci_copies := (ci_copies (set_item v item))[k := x]\<rparr>"
  have wf: "wf_item ?i" using wf_set_item [OF assms(1), of v] by (simp add: wf_item_def)
  have "holds ?i v j" if "j < 3" "j \<noteq> k" for j
    by (rule holds_sealed [OF wf that(1)]) (use assms that in \<open>simp add: set_item_eq wf_item_def\<close>)
  moreover have "k = 0 \<or> k = 1 \<or> k = 2" using assms(2) by auto
  ultimately show ?thesis by (auto simp: majority_def)
qed

lemma set_item_after_corruption:
  "wf_item item \<Longrightarrow>
   set_item v ((set_item v item)\<lparr>ci_copies := (ci_copies (set_item v item))[k := x]\<rparr>) = set_item v item"
  by (subst set_item_eq) (auto simp: set_item_eq wf_item_def)

text \<open>
  C15: one corrupted copy is outvoted and repaired. Whatever two words land on any one of
  the three copies of an item after it was set, the next read returns the value that was
  set and leaves all the items exactly as the set left them.
\<close>

theorem vote_survives_one_corruption:
  assumes "wf_critical c" and "n < length (obc_critical_items c)" and "k < 3"
  shows "\<exists>c'. obc_critical_get (Some n) (Some y) (corrupt_copy n k x (obc_critical_set (Some n) v c))
             = (OBC_OK, Some v, c') \<and>
           obc_critical_items c' = obc_critical_items (obc_critical_set (Some n) v c) \<and>
           obc_critical_failed_votes c' = obc_critical_failed_votes c"
proof -
  let ?item = "obc_critical_items c ! n"
  let ?bad = "(set_item v ?item)\<lparr>ci_copies := (ci_copies (set_item v ?item))[k := x]\<rparr>"
  let ?c = "corrupt_copy n k x (obc_critical_set (Some n) v c)"
  have wfi: "wf_item ?item" using assms(1,2) by (rule wf_nth)
  have items: "obc_critical_items ?c = (obc_critical_items c)[n := ?bad]"
    using assms(2) by (simp add: corrupt_copy_def obc_critical_set_def)
  then have nth: "obc_critical_items ?c ! n = ?bad" using assms(2) by simp
  have wfb: "wf_item ?bad" using wf_set_item [OF wfi, of v] by (simp add: wf_item_def)
  show ?thesis
    using vote_resolved [of ?c n v "Some y", unfolded nth, OF wfb majority_after_one_corruption [OF wfi assms(3)]]
      items set_item_after_corruption [OF wfi] assms(2)
    by (simp add: obc_critical_get_def obc_critical_set_def corrupt_copy_def)
qed

definition boot_critical :: critical_st where
  "boot_critical =
     \<lparr>obc_critical_items = [mode_item [\<lparr>cc_value = 7, cc_checksum = 7\<rparr>, \<lparr>cc_value = 8, cc_checksum = 8\<rparr>,
                                     \<lparr>cc_value = 9, cc_checksum = 9\<rparr>]],
      obc_critical_repairs = 0, obc_critical_failed_votes = 0,
      obc_critical_unresolvable_events = 0, s_was_resolving = [1, 1, 1, 1]\<rparr>"

lemma boot_critical_wf:
  "wf_critical boot_critical" "0 < length (obc_critical_items boot_critical)"
  "obc_critical_mode < length (obc_critical_items boot_critical)"
  by (simp_all add: wf_critical_def boot_critical_def wf_item_def mode_item_def obc_critical_mode_def
      OBC_CRITICAL_SEED_0_def OBC_CRITICAL_SEED_1_def OBC_CRITICAL_SEED_2_def)

theorem vote_survives_one_corruption_witness:
  "\<exists>c'. obc_critical_get (Some 0) (Some 9)
        (corrupt_copy 0 1 \<lparr>cc_value = 0, cc_checksum = 0\<rparr> (obc_critical_set (Some 0) 1 boot_critical))
      = (OBC_OK, Some 1, c')"
  using vote_survives_one_corruption [OF boot_critical_wf(1,2), of 1] by fastforce

text \<open>
  C36: a read never invents a value. On a well-formed registry it succeeds exactly when two
  undamaged copies agree, and then returns what they agree on; otherwise it reports
  \<open>OBC_ERR_UNSTABLE\<close>, leaves the caller's cell and every copy alone and counts one failed
  vote.
\<close>

theorem critical_get_cases:
  assumes "wf_critical c" and "n < length (obc_critical_items c)"
    and "obc_critical_get (Some n) (Some y) c = (st, out, c')"
  shows "(\<exists>v. majority (obc_critical_items c ! n) v \<and> st = OBC_OK \<and> out = Some v) \<or>
         ((\<forall>v. \<not> majority (obc_critical_items c ! n) v) \<and> st = OBC_ERR_UNSTABLE \<and> out = Some y \<and>
          obc_critical_items c' = obc_critical_items c \<and>
          obc_critical_failed_votes c' = obc_critical_failed_votes c + 1)"
proof (cases "\<exists>v. majority (obc_critical_items c ! n) v")
  case True
  then obtain v where "majority (obc_critical_items c ! n) v" ..
  with vote_resolved [OF wf_nth [OF assms(1,2)] this] assms(3) show ?thesis
    by (auto simp: obc_critical_get_def)
next
  case False
  then show ?thesis
    using vote_unresolved [of c n "Some y"] assms(3) by (auto simp: obc_critical_get_def split: if_splits)
qed

theorem critical_get_cases_witness:
  "fst (obc_critical_get (Some 0) (Some 5) boot_critical) = OBC_ERR_UNSTABLE \<and>
   fst (snd (obc_critical_get (Some 0) (Some 5) boot_critical)) = Some 5"
proof -
  obtain st out c' where e: "obc_critical_get (Some 0) (Some 5) boot_critical = (st, out, c')"
    by (metis prod_cases3)
  moreover have "fst (obc_critical_get (Some 0) (Some 5) boot_critical) \<noteq> OBC_OK" by code_simp
  ultimately show ?thesis
    using critical_get_cases [OF boot_critical_wf(1,2) e] by auto
qed

text \<open>
  A burst that writes the same two words over two copies cannot make them agree: at
  most one of them passes its checksum, because each copy has its own seed.
\<close>

lemma burst_cannot_forge_agreement:
  assumes "wf_item item" and "i < 3" and "j < 3" and "i \<noteq> j"
    and "ci_copies item ! i = ci_copies item ! j"
  shows "\<not> (copy_is_intact item i \<and> copy_is_intact item j)"
proof
  assume "copy_is_intact item i \<and> copy_is_intact item j"
  then have "checksum_of (cc_value (ci_copies item ! i)) (ci_seeds item ! i) =
      checksum_of (cc_value (ci_copies item ! i)) (ci_seeds item ! j)"
    using assms(5) by (auto simp: copy_is_intact_def Let_def)
  then have "cc_value (ci_copies item ! i) XOR ci_seeds item ! i =
      cc_value (ci_copies item ! i) XOR ci_seeds item ! j"
    by (simp add: checksum_of_def)
  then have "ci_seeds item ! i = ci_seeds item ! j"
    by (metis bit.xor_left_self)
  then show False using assms(1-4) by (simp add: wf_item_def nth_eq_iff_index_eq)
qed

text \<open>
  Every single-bit upset of a copy's value is caught by its checksum: if the copy was
  intact, flipping any one bit of the value word leaves it not intact.
\<close>

lemma single_bit_upset_detected:
  assumes "copy_is_intact item i" and "i < length (ci_copies item)" and "k < 32"
  shows "\<not> copy_is_intact
    (item\<lparr>ci_copies := (ci_copies item)
       [i := (ci_copies item ! i)\<lparr>cc_value := cc_value (ci_copies item ! i) XOR push_bit k 1\<rparr>]\<rparr>) i"
  using assms(1,2) checksum_of_flip [OF assms(3), of "cc_value (ci_copies item ! i)" "ci_seeds item ! i"]
  by (simp add: copy_is_intact_def Let_def)

end
