(* ===== verification/Mode.thy ===== *)
theory Mode
  imports Mtime Uart Fault Critical
begin

text \<open>
  The operating mode, \<^verbatim>\<open>flight/core/mode.c\<close>. The state extends the machine by the globals
  of the critical, fault and mode modules; the operations are polymorphic in what further
  layers add. The mode is only ever read through the voter.
\<close>

section \<open>Types and constants\<close>

definition OBC_MODE_NOMINAL :: u32 where [obc_consts]: "OBC_MODE_NOMINAL = 0"
definition OBC_MODE_SAFE :: u32 where [obc_consts]: "OBC_MODE_SAFE = 1"
definition OBC_SAFE_NONE :: u32 where [obc_consts]: "OBC_SAFE_NONE = 0"
definition OBC_SAFE_TRAP :: u32 where [obc_consts]: "OBC_SAFE_TRAP = 1"
definition OBC_SAFE_FRAME_OVERRUN :: u32 where [obc_consts]: "OBC_SAFE_FRAME_OVERRUN = 2"
definition OBC_SAFE_CLOCK :: u32 where [obc_consts]: "OBC_SAFE_CLOCK = 3"
definition OBC_SAFE_RESET_LOOP :: u32 where [obc_consts]: "OBC_SAFE_RESET_LOOP = 4"
definition OBC_SAFE_TELEMETRY :: u32 where [obc_consts]: "OBC_SAFE_TELEMETRY = 5"
definition OBC_MODE_MAGIC :: u32 where [obc_consts]: "OBC_MODE_MAGIC = 0x0BC5AFE1"
definition OBC_MODE_CHECKSUM_SEED :: u32 where [obc_consts]: "OBC_MODE_CHECKSUM_SEED = 0x3C3CA5A5"

record mode_record =
  mr_magic :: u32
  mr_checksum :: u32
  mr_reason :: u32

record mode_state = machine +
  crit :: critical_st
  obc_fault_record :: fault_record
  obc_mode :: u32
  obc_safe_reason :: u32
  s_announced :: u32
  obc_mode_record :: mode_record

text \<open>A driver call whose status is thrown away, and the text calls \<^verbatim>\<open>OBC_IGNORE(...)\<close>.\<close>

definition on_hw :: "(hw \<Rightarrow> obc_status \<times> hw) \<Rightarrow> 'a machine_scheme \<Rightarrow> 'a machine_scheme" where
  "on_hw f s = s\<lparr>hw := snd (f (hw s))\<rparr>"

abbreviation say :: "string \<Rightarrow> 'a machine_scheme \<Rightarrow> 'a machine_scheme" where
  "say text \<equiv> on_hw (obc_uart_puts (Some text))"

definition crlf :: string where "crlf = [CHR 0x0D, CHR 0x0A]"

section \<open>Operations\<close>

definition obc_mode_is_safe :: "'a mode_state_scheme \<Rightarrow> bool \<times> 'a mode_state_scheme" where
  "obc_mode_is_safe s =
     (case obc_critical_get (Some obc_critical_mode) (Some OBC_MODE_SAFE) (crit s) of
        (st, value, c) \<Rightarrow>
          if st \<noteq> OBC_OK then (True, s\<lparr>crit := c, obc_mode := OBC_MODE_SAFE\<rparr>)
          else (the value = OBC_MODE_SAFE, s\<lparr>crit := c, obc_mode := the value\<rparr>))"

definition mode_checksum :: "mode_record \<Rightarrow> u32" where
  "mode_checksum r = OBC_MODE_CHECKSUM_SEED XOR mr_reason r"

definition reason_text :: "u32 \<Rightarrow> string" where
  "reason_text reason =
     (if reason = OBC_SAFE_TRAP then ''trap on a previous boot''
      else if reason = OBC_SAFE_FRAME_OVERRUN then ''frame overrun''
      else if reason = OBC_SAFE_CLOCK then ''clock would not settle''
      else if reason = OBC_SAFE_RESET_LOOP then ''reset loop, the ladder ran out of rungs''
      else ''unspecified'')"

text \<open>The record's stores, in order: magic off, payload, checksum, magic on.\<close>

definition mode_clear :: "mode_record \<Rightarrow> mode_record" where
  "mode_clear r = r\<lparr>mr_magic := 0\<rparr>"

definition mode_body :: "u32 \<Rightarrow> (mode_record \<Rightarrow> mode_record) list" where
  "mode_body reason = [\<lambda>r. r\<lparr>mr_reason := reason\<rparr>, \<lambda>r. r\<lparr>mr_checksum := mode_checksum r\<rparr>]"

definition mode_commit :: "mode_record \<Rightarrow> mode_record" where
  "mode_commit r = r\<lparr>mr_magic := OBC_MODE_MAGIC\<rparr>"

definition mode_stores :: "u32 \<Rightarrow> (mode_record \<Rightarrow> mode_record) list" where
  "mode_stores reason = mode_clear # mode_body reason @ [mode_commit]"

definition obc_mode_enter_safe :: "u32 \<Rightarrow> 'a mode_state_scheme \<Rightarrow> 'a mode_state_scheme" where
  "obc_mode_enter_safe reason s =
     (if s_announced s \<noteq> 0 then s
      else (let s1 = s\<lparr>s_announced := 1,
                 crit := obc_critical_set (Some obc_critical_mode) OBC_MODE_SAFE (crit s),
                 obc_mode := OBC_MODE_SAFE, obc_safe_reason := reason,
                 obc_mode_record := run_stores (mode_stores reason) (obc_mode_record s)\<rparr>
            in say crlf (say (reason_text reason) (say ''mode   : SAFE, '' s1))))"

definition mode_intact :: "mode_record \<Rightarrow> bool" where
  "mode_intact r \<longleftrightarrow> mr_magic r = OBC_MODE_MAGIC \<and> mr_checksum r = mode_checksum r"

definition obc_mode_restore :: "u32 \<Rightarrow> 'a mode_state_scheme \<Rightarrow> 'a mode_state_scheme" where
  "obc_mode_restore previous_reset_cause s =
     (let s1 = s\<lparr>crit := obc_critical_set (Some obc_critical_mode) OBC_MODE_NOMINAL (crit s),
            obc_mode := OBC_MODE_NOMINAL, obc_safe_reason := OBC_SAFE_NONE, s_announced := 0\<rparr>
      in if previous_reset_cause = OBC_RESET_TRAP \<or> previous_reset_cause = OBC_RESET_DOUBLE_FAULT
         then obc_mode_enter_safe OBC_SAFE_TRAP s1
         else if mode_intact (obc_mode_record s1)
         then obc_mode_enter_safe (mr_reason (obc_mode_record s1)) s1
         else s1)"

text \<open>
  What the startup code does to these variables: \<open>.bss\<close> is zeroed and \<open>.data\<close> copied from
  flash, while the fault record, the mode record and the three critical regions keep what
  the reset left in them.
\<close>

definition mode_startup :: "'a mode_state_scheme \<Rightarrow> 'a mode_state_scheme" where
  "mode_startup s =
     s\<lparr>s_unstable_count := 0,
       crit := (crit s)\<lparr>obc_critical_repairs := 0, obc_critical_failed_votes := 0,
                  obc_critical_unresolvable_events := 0, s_was_resolving := [1, 1, 1, 1]\<rparr>,
       obc_mode := 0, obc_safe_reason := 0, s_announced := 0\<rparr>"

section \<open>Frames\<close>

lemma on_hw_sel [simp, obc_frame]:
  "hw (on_hw f s) = snd (f (hw s))" "s_unstable_count (on_hw f s) = s_unstable_count s"
  "machine.more (on_hw f s) = machine.more s"
  by (simp_all add: on_hw_def)

lemma on_hw_mode [simp, obc_frame]:
  "crit (on_hw f s) = crit s" "obc_fault_record (on_hw f s) = obc_fault_record s"
  "obc_mode (on_hw f s) = obc_mode s" "obc_safe_reason (on_hw f s) = obc_safe_reason s"
  "s_announced (on_hw f s) = s_announced s" "obc_mode_record (on_hw f s) = obc_mode_record s"
  "mode_state.more (on_hw f s) = mode_state.more s"
  by (simp_all add: on_hw_def)

lemma hw_run_on_hw: "(\<And>h. hw_run h (snd (f h))) \<Longrightarrow> hw_run (hw s) (hw (on_hw f s))"
  by simp

lemma is_safe_frame [obc_frame]:
  "hw (snd (obc_mode_is_safe s)) = hw s"
  "s_unstable_count (snd (obc_mode_is_safe s)) = s_unstable_count s"
  "obc_fault_record (snd (obc_mode_is_safe s)) = obc_fault_record s"
  "obc_safe_reason (snd (obc_mode_is_safe s)) = obc_safe_reason s"
  "s_announced (snd (obc_mode_is_safe s)) = s_announced s"
  "obc_mode_record (snd (obc_mode_is_safe s)) = obc_mode_record s"
  "mode_state.more (snd (obc_mode_is_safe s)) = mode_state.more s"
  by (simp_all add: obc_mode_is_safe_def split: prod.splits)

lemma enter_safe_frame [obc_frame]:
  "s_unstable_count (obc_mode_enter_safe r s) = s_unstable_count s"
  "obc_fault_record (obc_mode_enter_safe r s) = obc_fault_record s"
  "mode_state.more (obc_mode_enter_safe r s) = mode_state.more s"
  by (simp_all add: obc_mode_enter_safe_def Let_def)

lemma enter_safe_again: "s_announced s \<noteq> 0 \<Longrightarrow> obc_mode_enter_safe r s = s"
  by (simp add: obc_mode_enter_safe_def)

lemma enter_safe_first:
  assumes "s_announced s = 0"
  shows "s_announced (obc_mode_enter_safe r s) = 1"
    "crit (obc_mode_enter_safe r s) = obc_critical_set (Some obc_critical_mode) OBC_MODE_SAFE (crit s)"
    "obc_mode (obc_mode_enter_safe r s) = OBC_MODE_SAFE"
    "obc_safe_reason (obc_mode_enter_safe r s) = r"
    "obc_mode_record (obc_mode_enter_safe r s) = run_stores (mode_stores r) (obc_mode_record s)"
  using assms by (simp_all add: obc_mode_enter_safe_def Let_def)

lemma modes_differ [simp]: "OBC_MODE_NOMINAL \<noteq> OBC_MODE_SAFE" "OBC_MODE_SAFE \<noteq> OBC_MODE_NOMINAL"
  by (simp_all add: OBC_MODE_NOMINAL_def OBC_MODE_SAFE_def)

section \<open>The record\<close>

interpretation mode_rec: commit_record mr_magic "\<lambda>m. m = OBC_MODE_MAGIC" mode_intact
  "mode_body reason" mode_commit mode_clear for reason
  by unfold_locales
     (auto simp: mode_body_def mode_commit_def mode_clear_def mode_intact_def mode_checksum_def
        OBC_MODE_MAGIC_def)

lemma mode_stores_run:
  "run_stores (mode_stores reason) r =
     \<lparr>mr_magic = OBC_MODE_MAGIC, mr_checksum = OBC_MODE_CHECKSUM_SEED XOR reason, mr_reason = reason,
      \<dots> = mode_record.more r\<rparr>"
  by (simp add: mode_stores_def mode_clear_def mode_body_def mode_commit_def mode_checksum_def)

lemma mode_stores_intact: "mode_intact (run_stores (mode_stores reason) r)"
  unfolding mode_stores_def by (rule mode_rec.complete)

section \<open>What a read of the mode returns\<close>

text \<open>Through the interface of the voted word: only an intact majority for another value is
  a "not safe".\<close>

lemma is_safe_says:
  assumes "critical_good (crit s)" and "critical_says (crit s) v"
  shows "fst (obc_mode_is_safe s) = (v = OBC_MODE_SAFE)"
    "critical_says (crit (snd (obc_mode_is_safe s))) v"
    "obc_mode (snd (obc_mode_is_safe s)) = v"
  using mode_word.get_says [OF assms, of OBC_MODE_SAFE]
  by (auto simp: obc_mode_is_safe_def split: prod.splits)

lemma is_safe_silent:
  assumes "critical_good (crit s)" and "\<And>v. \<not> critical_says (crit s) v"
  shows "fst (obc_mode_is_safe s)" "obc_mode (snd (obc_mode_is_safe s)) = OBC_MODE_SAFE"
  using mode_word.get_silent [OF assms, of OBC_MODE_SAFE]
  by (auto simp: obc_mode_is_safe_def split: prod.splits)

lemma is_safe_good:
  "critical_good (crit s) \<Longrightarrow> critical_good (crit (snd (obc_mode_is_safe s)))"
  using mode_word.get_good [of "crit s" "Some OBC_MODE_SAFE"]
  by (auto simp: obc_mode_is_safe_def split: prod.splits)

lemma not_safe_iff:
  "critical_good (crit s) \<Longrightarrow>
   \<not> fst (obc_mode_is_safe s) \<longleftrightarrow> (\<exists>v. critical_says (crit s) v \<and> v \<noteq> OBC_MODE_SAFE)"
  using is_safe_says(1) is_safe_silent(1) by blast

lemma enter_safe_good:
  "critical_good (crit s) \<Longrightarrow> critical_good (crit (obc_mode_enter_safe r s))"
  by (cases "s_announced s = 0") (simp_all add: enter_safe_first enter_safe_again mode_word.put_good)

lemma restore_decides:
  fixes cause :: u32
  assumes "critical_good (crit s)"
  defines "trapped \<equiv> cause = OBC_RESET_TRAP \<or> cause = OBC_RESET_DOUBLE_FAULT"
  defines "s' \<equiv> obc_mode_restore cause s"
  shows "critical_good (crit s')"
    "critical_says (crit s') (if trapped \<or> mode_intact (obc_mode_record s) then OBC_MODE_SAFE else OBC_MODE_NOMINAL)"
    "obc_safe_reason s' =
       (if trapped then OBC_SAFE_TRAP
        else if mode_intact (obc_mode_record s) then mr_reason (obc_mode_record s) else OBC_SAFE_NONE)"
    "s_announced s' = (if trapped \<or> mode_intact (obc_mode_record s) then 1 else 0)"
    "obc_mode_record s' =
       (if trapped \<or> mode_intact (obc_mode_record s)
        then run_stores (mode_stores (obc_safe_reason s')) (obc_mode_record s) else obc_mode_record s)"
  unfolding s'_def trapped_def
  by (auto simp: obc_mode_restore_def Let_def enter_safe_first mode_word.put_good mode_word.put_says assms(1))

section \<open>Everything that can happen to the mode\<close>

text \<open>
  \<open>unforged c c'\<close>: radiation rewrote any number of copies, but every copy that passes its
  checksum afterwards is one it did not touch.
\<close>

definition unforged :: "critical_st \<Rightarrow> critical_st \<Rightarrow> bool" where
  "unforged c c' \<longleftrightarrow>
     critical_good c' \<and> s_was_resolving c' = s_was_resolving c \<and>
     (\<forall>i < 3. copy_is_intact (obc_critical_items c' ! obc_critical_mode) i \<longrightarrow>
        ci_copies (obc_critical_items c' ! obc_critical_mode) ! i =
          ci_copies (obc_critical_items c ! obc_critical_mode) ! i \<and>
        ci_seeds (obc_critical_items c' ! obc_critical_mode) ! i =
          ci_seeds (obc_critical_items c ! obc_critical_mode) ! i)"

inductive mode_step :: "'a mode_state_scheme \<Rightarrow> 'a mode_state_scheme \<Rightarrow> bool" where
  poll: "mode_step s (snd (obc_mode_is_safe s))"
| enter: "mode_step s (obc_mode_enter_safe r s)"
| scrub: "mode_step s (s\<lparr>crit := snd (obc_critical_scrub (crit s))\<rparr>)"
| upset: "unforged (crit s) c' \<Longrightarrow> mode_step s (s\<lparr>crit := c'\<rparr>)"
| reboot: "mode_step s (obc_mode_restore cause (mode_startup s))"

text \<open>The invariant of a degraded system: no undamaged copy says anything else, and the
  record that brings the next boot up degraded is intact.\<close>

definition only_safe :: "critical_st \<Rightarrow> bool" where
  "only_safe c \<longleftrightarrow>
     (\<forall>i < 3. copy_is_intact (obc_critical_items c ! obc_critical_mode) i \<longrightarrow>
        cc_value (ci_copies (obc_critical_items c ! obc_critical_mode) ! i) = OBC_MODE_SAFE)"

definition latched :: "u32 \<Rightarrow> 'a mode_state_scheme \<Rightarrow> bool" where
  "latched r s \<longleftrightarrow>
     critical_good (crit s) \<and> only_safe (crit s) \<and> s_announced s \<noteq> 0 \<and>
     mode_intact (obc_mode_record s) \<and> mr_reason (obc_mode_record s) = obc_safe_reason s \<and>
     obc_safe_reason s \<in> {r, OBC_SAFE_TRAP}"

lemma only_safe_says: "only_safe c \<Longrightarrow> critical_says c v \<Longrightarrow> v = OBC_MODE_SAFE"
  by (auto simp: only_safe_def critical_says_def majority_def holds_def)

lemma only_safe_set:
  assumes "critical_good c"
  shows "only_safe (obc_critical_set (Some obc_critical_mode) OBC_MODE_SAFE c)"
proof -
  have wf: "wf_item (obc_critical_items c ! obc_critical_mode)" and
    n: "obc_critical_mode < length (obc_critical_items c)"
    using assms by (simp_all add: critical_good_def obc_critical_mode_def wf_nth)
  then show ?thesis
    by (simp add: only_safe_def obc_critical_set_def set_item_eq sealed_copy_def wf_item_def)
qed

text \<open>A vote on any item rewrites copies only to what a majority of undamaged ones said.\<close>

lemma vote_only_safe:
  assumes "critical_good c" and "n < length (obc_critical_items c)" and "only_safe c"
  shows "critical_good (snd (snd (vote n out c))) \<and> only_safe (snd (snd (vote n out c))) \<and>
    length (obc_critical_items (snd (snd (vote n out c)))) = length (obc_critical_items c)"
proof (cases "\<exists>v. majority (obc_critical_items c ! n) v")
  case True
  then obtain v where v: "majority (obc_critical_items c ! n) v" ..
  have wf: "wf_critical c" using assms(1) by (simp add: critical_good_def)
  note wfn = wf_nth [OF wf assms(2)]
  have c': "snd (snd (vote n out c)) =
      c\<lparr>obc_critical_items := (obc_critical_items c)[n := set_item v (obc_critical_items c ! n)],
        obc_critical_repairs := obc_critical_repairs c + of_nat (dissenters (obc_critical_items c ! n) v),
        s_was_resolving := (s_was_resolving c)[item_index n c := 1]\<rparr>"
    using vote_resolved [OF wfn v, of out] by simp
  have "only_safe (snd (snd (vote n out c)))"
  proof (cases "n = obc_critical_mode")
    case True
    then have "v = OBC_MODE_SAFE" using only_safe_says [OF assms(3)] v by (simp add: critical_says_def)
    then show ?thesis
      using only_safe_set [OF assms(1)] assms(2)
      unfolding c' by (simp add: only_safe_def obc_critical_set_def True)
  next
    case False
    then show ?thesis using assms(3) by (simp add: c' only_safe_def)
  qed
  then show ?thesis
    using wf_vote [OF wf assms(2), of out] assms(1) by (simp add: critical_good_def c')
next
  case False
  then show ?thesis
    using assms by (auto simp: vote_unresolved critical_good_def wf_critical_def only_safe_def)
qed

lemma scrub_only_safe:
  assumes "critical_good c" and "only_safe c" and "\<forall>n \<in> set ns. n < length (obc_critical_items c)"
  shows "critical_good (snd (scrub_items ns w c)) \<and> only_safe (snd (scrub_items ns w c))"
  using assms
proof (induction ns arbitrary: w c)
  case Nil
  then show ?case by simp
next
  case (Cons n ns)
  obtain st x c' where v: "vote n None c = (st, x, c')" by (cases "vote n None c") auto
  then show ?case
    using Cons.IH [of c'] vote_only_safe [of c n None] Cons.prems by simp
qed

lemma get_only_safe:
  "critical_good c \<Longrightarrow> only_safe c \<Longrightarrow>
   only_safe (snd (snd (obc_critical_get (Some obc_critical_mode) (Some x) c)))"
  using vote_only_safe [of c obc_critical_mode "Some x"]
  by (simp add: obc_critical_get_def critical_good_def obc_critical_mode_def)

lemma latched_enter:
  assumes "critical_good (crit s)" and "s_announced s = 0"
  shows "latched r (obc_mode_enter_safe r s)"
  using assms only_safe_set [of "crit s"] mode_stores_intact [of r]
  by (simp add: latched_def enter_safe_first mode_word.put_good) (simp add: mode_stores_run)

lemma startup_good:
  "critical_good (crit s) \<Longrightarrow> critical_good (crit (mode_startup s))"
  by (simp add: mode_startup_def critical_good_def wf_critical_def)

lemma latched_reboot:
  assumes "latched r s"
  shows "latched r (obc_mode_restore cause (mode_startup s))"
proof -
  have g: "critical_good (crit (mode_startup s))"
    and m: "mode_intact (obc_mode_record (mode_startup s))"
    and rr: "mr_reason (obc_mode_record (mode_startup s)) \<in> {r, OBC_SAFE_TRAP}"
    using assms startup_good [of s] by (auto simp: latched_def mode_startup_def)
  let ?set = "\<lambda>s::'a mode_state_scheme. s\<lparr>crit := obc_critical_set (Some obc_critical_mode) OBC_MODE_NOMINAL (crit s),
    obc_mode := OBC_MODE_NOMINAL, obc_safe_reason := OBC_SAFE_NONE, s_announced := 0\<rparr>"
  let ?q = "if cause = OBC_RESET_TRAP \<or> cause = OBC_RESET_DOUBLE_FAULT then OBC_SAFE_TRAP
    else mr_reason (obc_mode_record (mode_startup s))"
  have q: "obc_mode_restore cause (mode_startup s) = obc_mode_enter_safe ?q (?set (mode_startup s))"
    using m by (simp add: obc_mode_restore_def)
  have qr: "?q \<in> {r, OBC_SAFE_TRAP}" using rr by simp
  have "latched ?q (obc_mode_restore cause (mode_startup s))"
    unfolding q by (rule latched_enter) (simp_all add: mode_word.put_good g)
  then show ?thesis using qr by (auto simp: latched_def split: if_splits)
qed

lemma latched_step:
  assumes "mode_step s s'" and "latched r s"
  shows "latched r s'"
  using assms
proof (induction rule: mode_step.induct)
  case (poll s)
  then show ?case
    using is_safe_good [of s] get_only_safe [of "crit s" OBC_MODE_SAFE]
    by (auto simp: latched_def is_safe_frame) (auto simp: obc_mode_is_safe_def split: prod.splits if_splits)
next
  case (enter s q)
  then show ?case by (simp add: enter_safe_again latched_def)
next
  case (scrub s)
  then show ?case
    using scrub_only_safe [of "crit s" "[0..<length (obc_critical_items (crit s))]" OBC_OK]
    by (auto simp: latched_def obc_critical_scrub_def)
next
  case (upset s c')
  then have "only_safe c'"
    by (auto simp: latched_def unforged_def only_safe_def copy_is_intact_def Let_def)
  then show ?case using upset by (auto simp: latched_def unforged_def)
next
  case (reboot s cause)
  then show ?case by (rule latched_reboot)
qed

lemma latched_reachable:
  assumes "mode_step\<^sup>*\<^sup>* s s'" and "latched r s"
  shows "latched r s'"
  using assms by (induction rule: rtranclp_induct) (auto intro: latched_step)

lemma latched_is_safe: "latched r s \<Longrightarrow> fst (obc_mode_is_safe s)"
  using not_safe_iff [of s] only_safe_says [of "crit s"] by (auto simp: latched_def)

section \<open>Properties\<close>

definition cold_machine :: mode_state where
  "cold_machine =
     \<lparr>hw = ready_hw, s_unstable_count = 0, crit = boot_critical,
      obc_fault_record = record_at 0 (\<lambda>_. 0), obc_mode = 0, obc_safe_reason = 0, s_announced = 0,
      obc_mode_record = \<lparr>mr_magic = 0, mr_checksum = 0, mr_reason = 0\<rparr>\<rparr>"

lemma cold_machine_good: "critical_good (crit cold_machine)" "s_announced cold_machine = 0"
  using boot_critical_wf by (simp_all add: cold_machine_def critical_good_def)

text \<open>
  C1: safe mode is absorbing. Once entered, whatever sequence of polls, further entries,
  scrubs, unforged memory upsets of any number of copies and machine resets with any cause
  follows, the mode still reads as safe; the recorded reason is the first one, or a trap
  taken since, and the record that carries it across the next reset is intact.
\<close>

theorem safe_mode_is_absorbing:
  assumes "critical_good (crit s)" and "s_announced s = 0"
    and "mode_step\<^sup>*\<^sup>* (obc_mode_enter_safe r s) s'"
  shows "fst (obc_mode_is_safe s') \<and> obc_safe_reason s' \<in> {r, OBC_SAFE_TRAP} \<and>
    mode_intact (obc_mode_record s') \<and> mr_reason (obc_mode_record s') = obc_safe_reason s'"
proof -
  have "latched r s'"
    by (rule latched_reachable [OF assms(3)]) (rule latched_enter [OF assms(1,2)])
  then show ?thesis using latched_is_safe by (auto simp: latched_def)
qed

theorem safe_mode_is_absorbing_witness:
  "fst (obc_mode_is_safe (obc_mode_restore 0 (mode_startup (obc_mode_enter_safe 5 cold_machine))))"
  using safe_mode_is_absorbing [OF cold_machine_good r_into_rtranclp, OF mode_step.reboot] by blast

text \<open>
  C24: the boot decides the mode from evidence. It comes up degraded exactly after a trap, a
  double fault or an intact mode record, with the trap taking precedence as the reason;
  a record that fails its magic or checksum counts for nothing; and a degraded boot commits
  an intact record of its own.
\<close>

theorem restore_decides_mode:
  assumes "critical_good (crit s)"
  shows "fst (obc_mode_is_safe (obc_mode_restore cause s)) =
      (cause = OBC_RESET_TRAP \<or> cause = OBC_RESET_DOUBLE_FAULT \<or> mode_intact (obc_mode_record s)) \<and>
    obc_safe_reason (obc_mode_restore cause s) =
      (if cause = OBC_RESET_TRAP \<or> cause = OBC_RESET_DOUBLE_FAULT then OBC_SAFE_TRAP
       else if mode_intact (obc_mode_record s) then mr_reason (obc_mode_record s) else OBC_SAFE_NONE) \<and>
    (fst (obc_mode_is_safe (obc_mode_restore cause s)) \<longrightarrow>
      mode_intact (obc_mode_record (obc_mode_restore cause s)) \<and>
      mr_reason (obc_mode_record (obc_mode_restore cause s)) = obc_safe_reason (obc_mode_restore cause s))"
proof -
  note d = restore_decides [OF assms, of cause]
  have "fst (obc_mode_is_safe (obc_mode_restore cause s)) =
      (cause = OBC_RESET_TRAP \<or> cause = OBC_RESET_DOUBLE_FAULT \<or> mode_intact (obc_mode_record s))"
    using is_safe_says(1) [OF d(1,2)] by simp
  then show ?thesis
    using d(3,5) mode_stores_intact by (auto simp: mode_stores_run)
qed

theorem restore_decides_mode_witness:
  "fst (obc_mode_is_safe (obc_mode_restore 3 cold_machine)) = False \<and>
   fst (obc_mode_is_safe (obc_mode_restore 2 cold_machine)) = True"
  using restore_decides_mode [OF cold_machine_good(1), of 3]
    restore_decides_mode [OF cold_machine_good(1), of 2]
  by (simp add: OBC_RESET_TRAP_def OBC_RESET_DOUBLE_FAULT_def cold_machine_def mode_intact_def
      OBC_MODE_MAGIC_def)

text \<open>
  C37: the window in which a reset forgets safe mode. Entering safe mode, and every degraded
  boot, rewrites the mode record; cut after \<open>k\<close> of its stores by a reset that is not a trap,
  the next boot is degraded exactly when nothing had been written yet and the old record
  was intact, or everything had: between the first and the last store the system comes
  back nominal, and it never comes back with a reason that was not recorded.
\<close>

theorem reset_during_safe_entry:
  assumes "critical_good (crit s)" and "cause \<noteq> OBC_RESET_TRAP" and "cause \<noteq> OBC_RESET_DOUBLE_FAULT"
    and "obc_mode_record s = run_stores (take k (mode_stores r)) old"
  shows "fst (obc_mode_is_safe (obc_mode_restore cause s)) = (k = 0 \<and> mode_intact old \<or> 4 \<le> k) \<and>
    obc_safe_reason (obc_mode_restore cause s) \<in> {OBC_SAFE_NONE, mr_reason old, r}"
proof -
  note d = restore_decides [OF assms(1), of cause]
  have safe: "fst (obc_mode_is_safe (obc_mode_restore cause s)) = mode_intact (obc_mode_record s)"
    using is_safe_says(1) [OF d(1,2)] assms(2,3) by simp
  consider "k = 0" | "0 < k" "k \<le> 3" | "4 \<le> k" by linarith
  then show ?thesis
  proof cases
    case 1
    then show ?thesis using safe d(3) assms(2-4) by simp
  next
    case 2
    then have "\<not> mode_intact (obc_mode_record s)"
      unfolding assms(4) mode_stores_def by (intro mode_rec.torn) (simp_all add: mode_body_def)
    then show ?thesis using safe d(3) assms(2,3) 2 by simp
  next
    case 3
    then have "obc_mode_record s = run_stores (mode_stores r) old"
      unfolding assms(4) by (simp add: mode_stores_def mode_body_def)
    then show ?thesis
      using safe d(3) assms(2,3) mode_stores_intact [of r old] 3 by (simp add: mode_stores_run)
  qed
qed

definition degraded_record :: mode_record where
  "degraded_record = run_stores (mode_stores 4) \<lparr>mr_magic = 0, mr_checksum = 0, mr_reason = 0\<rparr>"

theorem reset_during_safe_entry_witness:
  "\<not> fst (obc_mode_is_safe (obc_mode_restore 3
      (cold_machine\<lparr>obc_mode_record := run_stores (take 2 (mode_stores 4)) degraded_record\<rparr>)))"
  using reset_during_safe_entry [where cause = 3 and k = 2 and r = 4 and old = degraded_record
      and s = "cold_machine\<lparr>obc_mode_record := run_stores (take 2 (mode_stores 4)) degraded_record\<rparr>"]
    cold_machine_good
  by (simp add: OBC_RESET_TRAP_def OBC_RESET_DOUBLE_FAULT_def)

text \<open>
  Safe mode announces itself, once. On a console that takes every byte the first entry
  sends exactly the announcement with the text of its reason; any later entry sends nothing
  and changes nothing.
\<close>

lemma safe_entry_announced_once:
  assumes "port_ready UART0_BASE (hw s)" and "s_announced s = 0"
  shows "writes_to console_tx (io (hw (obc_mode_enter_safe r s))) =
      writes_to console_tx (io (hw s)) @
        map (\<lambda>c. ucast (of_char c :: u8)) (''mode   : SAFE, '' @ reason_text r @ crlf) \<and>
    obc_mode_enter_safe q (obc_mode_enter_safe r s) = obc_mode_enter_safe r s"
proof -
  have nul: "CHR 0x00 \<notin> set (reason_text r)" "length (reason_text r) < 4096"
    by (simp_all add: reason_text_def)
  have c: "CHR 0x00 \<notin> set ''mode   : SAFE, ''" "length ''mode   : SAFE, '' < 4096"
    "CHR 0x00 \<notin> set crlf" "length crlf < 4096" by (simp_all add: crlf_def)
  note p = puts_ready [OF assms(1) c(1,2)]
  note q = puts_ready [OF p(1) nul]
  note t = puts_ready [OF q(1) c(3,4)]
  have "hw (obc_mode_enter_safe r s) =
      snd (obc_uart_puts (Some crlf) (snd (obc_uart_puts (Some (reason_text r))
        (snd (obc_uart_puts (Some ''mode   : SAFE, '') (hw s))))))"
    using assms(2) by (simp add: obc_mode_enter_safe_def)
  then show ?thesis
    using enter_safe_again [of "obc_mode_enter_safe r s" q] enter_safe_first(1) [OF assms(2)]
    by (simp only: p(2) q(2) t(2) map_append append_assoc) simp
qed

end
