(* ===== verification/Recover.thy ===== *)
theory Recover
  imports Mode
begin

text \<open>
  Escalation and the watchdog, \<^verbatim>\<open>flight/core/recover.c\<close>: the AON watchdog registers, the
  record of consecutive short boots that survives a reset, the suspension log, and the
  ladder's three rungs. The task table is a parameter here (\<^verbatim>\<open>flight/core/sched.h\<close> declares
  it, \<^verbatim>\<open>tasks.c\<close> defines it): a task's function and its subsystem reset are functions on
  the whole state, and a null function pointer is \<open>None\<close>.
\<close>

section \<open>Types and constants\<close>

definition OBC_RUNG_NONE :: u32 where [obc_consts]: "OBC_RUNG_NONE = 0"
definition OBC_RUNG_SUSPEND_TASK :: u32 where [obc_consts]: "OBC_RUNG_SUSPEND_TASK = 1"
definition OBC_RUNG_RESET_SUBSYSTEM :: u32 where [obc_consts]: "OBC_RUNG_RESET_SUBSYSTEM = 2"
definition OBC_RUNG_RESET_MACHINE :: u32 where [obc_consts]: "OBC_RUNG_RESET_MACHINE = 3"
definition OBC_SUSPEND_LOG_LEN :: u32 where [obc_consts]: "OBC_SUSPEND_LOG_LEN = 16"
definition OBC_BOOT_MAGIC :: u32 where [obc_consts]: "OBC_BOOT_MAGIC = 0x0BC8007A"
definition OBC_BOOT_CHECKSUM_SEED :: u32 where [obc_consts]: "OBC_BOOT_CHECKSUM_SEED = 0x7A00BC0B"
definition OBC_SHORT_BOOT_LIMIT :: u32 where [obc_consts]: "OBC_SHORT_BOOT_LIMIT = 5"
definition OBC_HEALTHY_FRAMES :: u32 where [obc_consts]: "OBC_HEALTHY_FRAMES = 8"
definition WDOG_TIMEOUT_TICKS :: u32 where [obc_consts]: "WDOG_TIMEOUT_TICKS = 4096"

record suspension =
  su_task :: u8
  su_frame :: u8
  su_rung :: u8
  su_pad :: u8

record boot_record =
  br_magic :: u32
  br_checksum :: u32
  br_short_boots :: u32
  br_in_progress :: u32

record recover_state = mode_state +
  obc_boot_record :: boot_record
  obc_suspensions :: "suspension list"
  obc_suspension_count :: u32
  obc_suspension_overflow :: u32
  s_suspended_task :: u32
  s_suspended_frame :: u32

record 's obc_task =
  task_name :: string
  task_fn :: "('s \<Rightarrow> 's) option"
  period_frames :: u32
  budget_instr :: u32
  essential :: u32
  reset_fn :: "('s \<Rightarrow> 's) option"

section \<open>The hardware watchdog\<close>

definition aon_write :: "u32 \<Rightarrow> u32 \<Rightarrow> 'a machine_scheme \<Rightarrow> 'a machine_scheme" where
  "aon_write offset value s = s\<lparr>hw := bus_write (AON_BASE + offset) value (hw s)\<rparr>"

definition obc_recover_arm_hardware :: "'a machine_scheme \<Rightarrow> 'a machine_scheme" where
  "obc_recover_arm_hardware s =
     fold (\<lambda>(off, v). aon_write off v)
       [(AON_WDOGKEY, WDOGKEY_VALUE), (AON_WDOGCOUNT, 0),
        (AON_WDOGKEY, WDOGKEY_VALUE), (AON_WDOGCMP0, WDOG_TIMEOUT_TICKS),
        (AON_WDOGKEY, WDOGKEY_VALUE),
        (AON_WDOGCFG, WDOGCFG_ENALWAYS OR WDOGCFG_RSTEN OR WDOGCFG_ZEROCMP)] s"

definition obc_recover_disarm_hardware :: "'a machine_scheme \<Rightarrow> 'a machine_scheme" where
  "obc_recover_disarm_hardware s =
     fold (\<lambda>(off, v). aon_write off v)
       [(AON_WDOGKEY, WDOGKEY_VALUE), (AON_WDOGCFG, 0),
        (AON_WDOGKEY, WDOGKEY_VALUE), (AON_WDOGCOUNT, 0)] s"

definition obc_recover_feed_hardware :: "'a machine_scheme \<Rightarrow> 'a machine_scheme" where
  "obc_recover_feed_hardware s =
     aon_write AON_WDOGCOUNT 0 (aon_write AON_WDOGKEY WDOGKEY_VALUE s)"

section \<open>Consecutive short boots\<close>

definition boot_checksum :: "boot_record \<Rightarrow> u32" where
  "boot_checksum r =
     (OBC_BOOT_CHECKSUM_SEED XOR br_short_boots r) XOR (br_in_progress r * 0x9E3779B9)"

definition boot_record_is_intact :: "boot_record \<Rightarrow> bool" where
  "boot_record_is_intact r \<longleftrightarrow> br_magic r = OBC_BOOT_MAGIC \<and> br_checksum r = boot_checksum r"

definition obc_recover_short_boots :: "'a recover_state_scheme \<Rightarrow> u32" where
  "obc_recover_short_boots s =
     (if boot_record_is_intact (obc_boot_record s) then br_short_boots (obc_boot_record s) else 0)"

definition boot_clear :: "boot_record \<Rightarrow> boot_record" where
  "boot_clear r = r\<lparr>br_magic := 0\<rparr>"

definition boot_body :: "u32 \<Rightarrow> u32 \<Rightarrow> (boot_record \<Rightarrow> boot_record) list" where
  "boot_body count in_progress =
     [\<lambda>r. r\<lparr>br_short_boots := count\<rparr>, \<lambda>r. r\<lparr>br_in_progress := in_progress\<rparr>,
      \<lambda>r. r\<lparr>br_checksum := boot_checksum r\<rparr>]"

definition boot_commit :: "boot_record \<Rightarrow> boot_record" where
  "boot_commit r = r\<lparr>br_magic := OBC_BOOT_MAGIC\<rparr>"

definition boot_stores :: "u32 \<Rightarrow> u32 \<Rightarrow> (boot_record \<Rightarrow> boot_record) list" where
  "boot_stores count in_progress = boot_clear # boot_body count in_progress @ [boot_commit]"

definition boot_record_write :: "u32 \<Rightarrow> u32 \<Rightarrow> 'a recover_state_scheme \<Rightarrow> 'a recover_state_scheme" where
  "boot_record_write count in_progress s =
     s\<lparr>obc_boot_record := run_stores (boot_stores count in_progress) (obc_boot_record s)\<rparr>"

definition boots_counted :: "boot_record \<Rightarrow> u32" where
  "boots_counted r =
     (if boot_record_is_intact r
      then (if br_in_progress r \<noteq> 0 then br_short_boots r + 1 else br_short_boots r) else 0)"

definition obc_recover_boot_begins :: "'a recover_state_scheme \<Rightarrow> u32 \<times> 'a recover_state_scheme" where
  "obc_recover_boot_begins s =
     (let count = boots_counted (obc_boot_record s)
      in (if count \<ge> OBC_SHORT_BOOT_LIMIT then OBC_RUNG_RESET_MACHINE else OBC_RUNG_NONE,
          boot_record_write count 1 s))"

definition obc_recover_boot_is_healthy ::
  "u32 \<Rightarrow> 'a recover_state_scheme \<Rightarrow> bool \<times> 'a recover_state_scheme" where
  "obc_recover_boot_is_healthy frames_completed s =
     (if frames_completed < OBC_HEALTHY_FRAMES then (False, s) else (True, boot_record_write 0 0 s))"

section \<open>The ladder\<close>

definition obc_recover_is_suspended :: "u32 \<Rightarrow> u32 \<Rightarrow> 'a recover_state_scheme \<Rightarrow> bool" where
  "obc_recover_is_suspended task_index frame s \<longleftrightarrow>
     s_suspended_task s = task_index \<and> s_suspended_frame s = frame"

definition log_suspension ::
  "u32 \<Rightarrow> u32 \<Rightarrow> u32 \<Rightarrow> 'a recover_state_scheme \<Rightarrow> 'a recover_state_scheme" where
  "log_suspension task_index frame rung s =
     (if obc_suspension_count s \<ge> OBC_SUSPEND_LOG_LEN
      then s\<lparr>obc_suspension_overflow := obc_suspension_overflow s + 1\<rparr>
      else s\<lparr>obc_suspensions := (obc_suspensions s)[unat (obc_suspension_count s) :=
               \<lparr>su_task = ucast task_index, su_frame = ucast frame, su_rung = ucast rung, su_pad = 0\<rparr>],
             obc_suspension_count := obc_suspension_count s + 1\<rparr>)"

definition obc_recover_escalate ::
  "('a recover_state_scheme) obc_task list \<Rightarrow> u32 \<Rightarrow> u32 \<Rightarrow> u32 \<Rightarrow> 'a recover_state_scheme \<Rightarrow>
     unit flow \<times> 'a recover_state_scheme" where
  "obc_recover_escalate table rung task_index frame s =
     (if rung = OBC_RUNG_SUSPEND_TASK
      then (let period = period_frames (table ! unat task_index);
                next_due = frame + (if period = 0 then 1 else period)
            in (Ret (), log_suspension task_index next_due rung
                  (s\<lparr>s_suspended_task := task_index, s_suspended_frame := next_due\<rparr>)))
      else if rung = OBC_RUNG_RESET_SUBSYSTEM
      then (case reset_fn (table ! unat task_index) of
              None \<Rightarrow> (Ret (), s)
            | Some f \<Rightarrow>
                (Ret (), f (say (''recover: rung 2, subsystem reset'' @ crlf)
                           (log_suspension task_index frame rung s))))
      else if rung \<noteq> OBC_RUNG_RESET_MACHINE then (Ret (), s)
      else if obc_recover_short_boots s \<ge> OBC_SHORT_BOOT_LIMIT
      then (Ret (), obc_mode_enter_safe OBC_SAFE_RESET_LOOP s)
      else (let s1 = say (''recover: rung 3, resetting'' @ crlf) s
            in case obc_reset_now (hw s1) of (fl, h) \<Rightarrow> (fl, s1\<lparr>hw := h\<rparr>)))"

text \<open>What the startup code does to this layer; the boot record survives.\<close>

definition recover_startup :: "'a recover_state_scheme \<Rightarrow> 'a recover_state_scheme" where
  "recover_startup s =
     (mode_startup s)\<lparr>obc_suspensions := replicate 16 \<lparr>su_task = 0, su_frame = 0, su_rung = 0, su_pad = 0\<rparr>,
        obc_suspension_count := 0, obc_suspension_overflow := 0,
        s_suspended_task := 0xFFFFFFFF, s_suspended_frame := 0xFFFFFFFF\<rparr>"

section \<open>Frames\<close>

lemma rungs_differ [simp]:
  "OBC_RUNG_SUSPEND_TASK \<noteq> OBC_RUNG_RESET_SUBSYSTEM" "OBC_RUNG_SUSPEND_TASK \<noteq> OBC_RUNG_RESET_MACHINE"
  "OBC_RUNG_RESET_SUBSYSTEM \<noteq> OBC_RUNG_SUSPEND_TASK" "OBC_RUNG_RESET_SUBSYSTEM \<noteq> OBC_RUNG_RESET_MACHINE"
  "OBC_RUNG_RESET_MACHINE \<noteq> OBC_RUNG_SUSPEND_TASK" "OBC_RUNG_RESET_MACHINE \<noteq> OBC_RUNG_RESET_SUBSYSTEM"
  "OBC_RUNG_NONE \<noteq> OBC_RUNG_RESET_MACHINE" "OBC_RUNG_RESET_MACHINE \<noteq> OBC_RUNG_NONE"
  by (simp_all add: OBC_RUNG_NONE_def OBC_RUNG_SUSPEND_TASK_def OBC_RUNG_RESET_SUBSYSTEM_def
      OBC_RUNG_RESET_MACHINE_def)

lemma on_hw_recover [simp, obc_frame]:
  "obc_boot_record (on_hw f s) = obc_boot_record s" "obc_suspensions (on_hw f s) = obc_suspensions s"
  "obc_suspension_count (on_hw f s) = obc_suspension_count s"
  "obc_suspension_overflow (on_hw f s) = obc_suspension_overflow s"
  "s_suspended_task (on_hw f s) = s_suspended_task s"
  "s_suspended_frame (on_hw f s) = s_suspended_frame s"
  "recover_state.more (on_hw f s) = recover_state.more s"
  by (simp_all add: on_hw_def)

lemma enter_safe_recover [simp, obc_frame]:
  "obc_boot_record (obc_mode_enter_safe r s) = obc_boot_record s"
  "obc_suspensions (obc_mode_enter_safe r s) = obc_suspensions s"
  "obc_suspension_count (obc_mode_enter_safe r s) = obc_suspension_count s"
  "obc_suspension_overflow (obc_mode_enter_safe r s) = obc_suspension_overflow s"
  "s_suspended_task (obc_mode_enter_safe r s) = s_suspended_task s"
  "s_suspended_frame (obc_mode_enter_safe r s) = s_suspended_frame s"
  "recover_state.more (obc_mode_enter_safe r s) = recover_state.more s"
  by (simp_all add: obc_mode_enter_safe_def Let_def)

lemma log_suspension_frame [simp, obc_frame]:
  "machine.hw (log_suspension i f r s) = hw s" "s_unstable_count (log_suspension i f r s) = s_unstable_count s"
  "crit (log_suspension i f r s) = crit s" "s_announced (log_suspension i f r s) = s_announced s"
  "obc_mode_record (log_suspension i f r s) = obc_mode_record s"
  "obc_boot_record (log_suspension i f r s) = obc_boot_record s"
  "s_suspended_task (log_suspension i f r s) = s_suspended_task s"
  "s_suspended_frame (log_suspension i f r s) = s_suspended_frame s"
  "recover_state.more (log_suspension i f r s) = recover_state.more s"
  by (simp_all add: log_suspension_def)

section \<open>The boot record\<close>

interpretation boot_rec: commit_record br_magic "\<lambda>m. m = OBC_BOOT_MAGIC" boot_record_is_intact
  "boot_body count in_progress" boot_commit boot_clear for count in_progress
  by unfold_locales
     (auto simp: boot_body_def boot_commit_def boot_clear_def boot_record_is_intact_def
        boot_checksum_def OBC_BOOT_MAGIC_def)

lemma boot_stores_run [simp]:
  "boot_record_is_intact (run_stores (boot_stores c p) r)"
  "br_short_boots (run_stores (boot_stores c p) r) = c"
  "br_in_progress (run_stores (boot_stores c p) r) = p"
  by (simp_all add: boot_stores_def boot_clear_def boot_body_def boot_commit_def
      boot_record_is_intact_def boot_checksum_def)

lemma boots_counted_stores [simp]:
  "boots_counted (run_stores (boot_stores c p) r) = (if p \<noteq> 0 then c + 1 else c)"
  by (simp add: boots_counted_def)

text \<open>One boot, as the record sees it: it begins, and either some later point finds it
  healthy after enough frames, or it is cut short.\<close>

definition boot_once :: "bool \<Rightarrow> 'a recover_state_scheme \<Rightarrow> 'a recover_state_scheme" where
  "boot_once healthy s =
     (let s1 = snd (obc_recover_boot_begins s)
      in recover_startup (if healthy then snd (obc_recover_boot_is_healthy OBC_HEALTHY_FRAMES s1) else s1))"

lemma startup_boot_record [simp]: "obc_boot_record (recover_startup s) = obc_boot_record s"
  by (simp add: recover_startup_def mode_startup_def)

lemma boot_once_counts:
  "boots_counted (obc_boot_record (boot_once healthy s)) =
     (if healthy then 0 else boots_counted (obc_boot_record s) + 1)"
  by (simp add: boot_once_def obc_recover_boot_begins_def obc_recover_boot_is_healthy_def
      boot_record_write_def Let_def)

text \<open>The length of the run of short boots a history ends with.\<close>

definition streak :: "bool list \<Rightarrow> nat" where
  "streak bs = length (takeWhile Not (rev bs))"

lemma streak_snoc: "streak (bs @ [b]) = (if b then 0 else Suc (streak bs))"
  by (simp add: streak_def)

lemma streak_le: "streak bs \<le> length bs"
  unfolding streak_def by (metis length_rev length_takeWhile_le)

lemma boots_counted_history:
  assumes "boots_counted (obc_boot_record s) = 0"
  shows "boots_counted (obc_boot_record (fold boot_once bs s)) = of_nat (streak bs)"
proof (induction bs rule: rev_induct)
  case Nil
  then show ?case using assms by (simp add: streak_def)
next
  case (snoc b bs)
  then show ?case by (simp add: boot_once_counts streak_snoc del: of_nat_Suc) (simp add: add.commute)
qed

lemma startup_crit_good:
  "critical_good (crit s) \<Longrightarrow> critical_good (crit (recover_startup s))"
  by (simp add: recover_startup_def startup_good)

lemma boot_once_crit_good:
  "critical_good (crit s) \<Longrightarrow> critical_good (crit (boot_once b s))"
  by (simp add: boot_once_def obc_recover_boot_begins_def obc_recover_boot_is_healthy_def
      boot_record_write_def Let_def startup_crit_good)

lemma boot_history_crit_good:
  "critical_good (crit s) \<Longrightarrow> critical_good (crit (fold boot_once bs s))"
  by (induction bs arbitrary: s) (simp_all add: boot_once_crit_good)

lemma short_boots_begun [simp]:
  "obc_recover_short_boots (snd (obc_recover_boot_begins s)) = boots_counted (obc_boot_record s)"
  by (simp add: obc_recover_boot_begins_def obc_recover_short_boots_def boot_record_write_def Let_def)

text \<open>A boot that has begun is counted by the next unless it is declared healthy.\<close>

lemma begun_boot_counts:
  "boots_counted (obc_boot_record (snd (obc_recover_boot_begins s))) =
     obc_recover_short_boots (snd (obc_recover_boot_begins s)) + 1"
  by (simp add: obc_recover_boot_begins_def obc_recover_short_boots_def boot_record_write_def Let_def)

lemma limit_le_streak:
  assumes "length bs < 2 ^ 32"
  shows "OBC_SHORT_BOOT_LIMIT \<le> (of_nat (streak bs) :: u32) \<longleftrightarrow> 5 \<le> streak bs"
proof -
  have "unat (of_nat (streak bs) :: u32) = streak bs"
    using assms streak_le [of bs] by (simp add: unat_of_nat take_bit_eq_mod)
  then show ?thesis by (simp add: OBC_SHORT_BOOT_LIMIT_def word_le_nat_alt)
qed

section \<open>The suspension log\<close>

text \<open>What the log says: the entries below the count.\<close>

definition logged :: "'a recover_state_scheme \<Rightarrow> suspension list" where
  "logged s = take (unat (obc_suspension_count s)) (obc_suspensions s)"

definition wf_log :: "'a recover_state_scheme \<Rightarrow> bool" where
  "wf_log s \<longleftrightarrow> length (obc_suspensions s) = 16 \<and> unat (obc_suspension_count s) \<le> 16"

lemma startup_log: "wf_log (recover_startup s)" "logged (recover_startup s) = []"
  by (simp_all add: wf_log_def logged_def recover_startup_def)

lemma log_suspension_log:
  assumes "wf_log s"
  shows "wf_log (log_suspension i f r s)"
    "logged (log_suspension i f r s) =
       take 16 (logged s @ [\<lparr>su_task = ucast i, su_frame = ucast f, su_rung = ucast r, su_pad = 0\<rparr>])"
    "obc_suspension_overflow (log_suspension i f r s) =
       obc_suspension_overflow s + (if length (logged s) < 16 then 0 else 1)"
proof -
  have c: "obc_suspension_count s \<ge> OBC_SUSPEND_LOG_LEN \<longleftrightarrow> \<not> unat (obc_suspension_count s) < 16"
    by (simp add: OBC_SUSPEND_LOG_LEN_def word_le_nat_alt not_less)
  have u: "unat (obc_suspension_count s + 1) = unat (obc_suspension_count s) + 1"
    if "unat (obc_suspension_count s) < 16"
    using that by (simp add: unat_word_ariths)
  show "wf_log (log_suspension i f r s)"
    "logged (log_suspension i f r s) =
       take 16 (logged s @ [\<lparr>su_task = ucast i, su_frame = ucast f, su_rung = ucast r, su_pad = 0\<rparr>])"
    "obc_suspension_overflow (log_suspension i f r s) =
       obc_suspension_overflow s + (if length (logged s) < 16 then 0 else 1)"
    using assms c u
    by (auto simp: wf_log_def logged_def log_suspension_def take_Suc_conv_app_nth not_less)
qed

section \<open>Properties\<close>

text \<open>What the boot after a history counts and asks for.\<close>

lemma next_boot_counts:
  assumes "boots_counted (obc_boot_record s) = 0" and "length bs < 2 ^ 32"
  shows "fst (obc_recover_boot_begins (fold boot_once bs s)) =
      (if 5 \<le> streak bs then OBC_RUNG_RESET_MACHINE else OBC_RUNG_NONE) \<and>
    obc_recover_short_boots (snd (obc_recover_boot_begins (fold boot_once bs s))) = of_nat (streak bs)"
  using boots_counted_history [OF assms(1), of bs] limit_le_streak [OF assms(2)]
  by (auto simp: obc_recover_boot_begins_def [of "fold boot_once bs s"] obc_recover_short_boots_def
      boot_record_write_def Let_def)

text \<open>
  C9: the streak of short boots is counted exactly, however a boot dies. After any history
  of fewer than \<open>2 ^ 32\<close> boots on a record that started out empty or not believable, the
  next boot counts precisely the unbroken run of boots before it that were never declared
  healthy, and asks for the top rung exactly when there were five or more.
\<close>

theorem boot_streak_counts:
  assumes "boots_counted (obc_boot_record s) = 0" and "length bs < 2 ^ 32"
  shows "fst (obc_recover_boot_begins (fold boot_once bs s)) =
      (if 5 \<le> streak bs then OBC_RUNG_RESET_MACHINE else OBC_RUNG_NONE) \<and>
    obc_recover_short_boots (snd (obc_recover_boot_begins (fold boot_once bs s))) = of_nat (streak bs)"
  by (rule next_boot_counts [OF assms])

definition cold_recover :: recover_state where
  "cold_recover = mode_state.extend cold_machine
     (recover_state.fields \<lparr>br_magic = 7, br_checksum = 0, br_short_boots = 77, br_in_progress = 1\<rparr>
        (replicate 16 \<lparr>su_task = 0, su_frame = 0, su_rung = 0, su_pad = 0\<rparr>) 0 0 0xFFFFFFFF 0xFFFFFFFF)"

lemma cold_recover_good:
  "critical_good (crit cold_recover)" "boots_counted (obc_boot_record cold_recover) = 0"
  "s_announced cold_recover = 0" "hw cold_recover = ready_hw"
  using cold_machine_good
  by (simp_all add: cold_recover_def boots_counted_def boot_record_is_intact_def OBC_BOOT_MAGIC_def
      mode_state.defs recover_state.defs cold_machine_def)

theorem boot_streak_counts_witness:
  "fst (obc_recover_boot_begins (fold boot_once [False, True, False, False, False, False, False] cold_recover)) =
     OBC_RUNG_RESET_MACHINE"
  using boot_streak_counts [OF cold_recover_good(2), of "[False, True, False, False, False, False, False]"]
  by (simp add: streak_def del: fold_simps)

text \<open>
  C26: the ladder escalates towards safe mode and cannot loop. Asked for a machine reset in
  a boot that follows any history, it resets while fewer than five boots in a row were
  short; from the fifth on it never resets: it returns, and the mode reads as safe. The
  count of short boots grows by one across such a reset, but not where \<^verbatim>\<open>recover.h\<close> says: its
  comment has rung 3 increment the count, while the code leaves the boot record as it is,
  flag raised, and it is the next boot that counts this one, as it counts a boot the
  watchdog ended.
\<close>

theorem ladder_stops_resetting:
  assumes "critical_good (crit s)" and "boots_counted (obc_boot_record s) = 0" and "length bs < 2 ^ 32"
    and "snd (obc_recover_boot_begins (fold boot_once bs s)) = s1"
    and "obc_recover_escalate table OBC_RUNG_RESET_MACHINE i f s1 = (fl, s2)"
  shows "(streak bs < 5 \<longrightarrow> fl = Reset \<and> obc_boot_record s2 = obc_boot_record s1 \<and>
        obc_recover_short_boots s2 = of_nat (streak bs) \<and>
        obc_recover_short_boots (snd (obc_recover_boot_begins (recover_startup s2))) = of_nat (streak bs + 1)) \<and>
    (5 \<le> streak bs \<longrightarrow> fl = Ret () \<and> (s_announced s1 = 0 \<longrightarrow> fst (obc_mode_is_safe s2)))"
proof -
  have n: "obc_recover_short_boots s1 = of_nat (streak bs)"
    using next_boot_counts [OF assms(2,3)] assms(4) by simp
  have g: "critical_good (crit s1)"
    using boot_history_crit_good [OF assms(1), of bs] assms(4) [symmetric]
    by (simp add: obc_recover_boot_begins_def boot_record_write_def Let_def)
  show ?thesis
  proof (cases "5 \<le> streak bs")
    case True
    then have "fl = Ret ()" "s2 = obc_mode_enter_safe OBC_SAFE_RESET_LOOP s1"
      using assms(5) n limit_le_streak [OF assms(3)] by (simp_all add: obc_recover_escalate_def)
    then show ?thesis using latched_is_safe [OF latched_enter [OF g]] True by simp
  next
    case False
    then have e: "fl = Reset" "obc_boot_record s2 = obc_boot_record s1"
      using assms(5) n limit_le_streak [OF assms(3)]
      by (auto simp: obc_recover_escalate_def obc_reset_now_def Let_def)
    moreover from e(2) have "obc_recover_short_boots s2 = of_nat (streak bs)"
      using n by (simp add: obc_recover_short_boots_def split: if_splits)
    moreover have "boots_counted (obc_boot_record s1) = obc_recover_short_boots s1 + 1"
      using assms(4) by (auto simp: begun_boot_counts)
    ultimately show ?thesis using False n by simp
  qed
qed

theorem ladder_stops_resetting_witness:
  "fst (obc_recover_escalate [] OBC_RUNG_RESET_MACHINE 0 0
      (snd (obc_recover_boot_begins (fold boot_once (replicate 5 False) cold_recover)))) = Ret () \<and>
   (case obc_recover_escalate [] OBC_RUNG_RESET_MACHINE 0 0
        (snd (obc_recover_boot_begins (fold boot_once (replicate 4 False) cold_recover))) of
      (fl, s2) \<Rightarrow> fl = Reset \<and> obc_recover_short_boots s2 = 4 \<and>
        obc_recover_short_boots (snd (obc_recover_boot_begins (recover_startup s2))) = 5)"
  using ladder_stops_resetting [OF cold_recover_good(1,2) _ refl surjective_pairing, of "replicate 5 False"]
    ladder_stops_resetting [OF cold_recover_good(1,2) _ refl surjective_pairing, of "replicate 4 False" "[]" 0 0]
  by (auto simp: streak_def case_prod_beta)

text \<open>
  A reset during the boot record's update never invents a streak. Cut after any number
  of its five stores, the next boot counts what the old record said if nothing was written,
  what the new one says if everything was, and zero in between.
\<close>

lemma torn_boot_record:
  "boots_counted (run_stores (take k (boot_stores count in_progress)) r) =
     (if k = 0 then boots_counted r
      else if k < 5 then 0 else if in_progress \<noteq> 0 then count + 1 else count)"
proof -
  consider "k = 0" | "0 < k" "k < 5" | "5 \<le> k" by linarith
  then show ?thesis
  proof cases
    case 2
    then have "\<not> boot_record_is_intact (run_stores (take k (boot_stores count in_progress)) r)"
      unfolding boot_stores_def by (intro boot_rec.torn) (simp_all add: boot_body_def)
    then show ?thesis using 2 by (simp add: boots_counted_def)
  next
    case 3
    then have "take k (boot_stores count in_progress) = boot_stores count in_progress"
      by (simp add: boot_stores_def boot_body_def)
    then show ?thesis using 3 by simp
  qed simp
qed

text \<open>
  C38: a suspension withholds exactly the task's next dispatch. Suspending a task in a frame
  in which it was due marks the frame one period later, which is due, and no other; no due
  frame lies in between; and the suspension is logged against that frame. This is the frame
  the comment inside \<^verbatim>\<open>obc_recover_escalate\<close> names; the one in \<^verbatim>\<open>recover.h\<close>, that rung 1 suspends
  the task for the next frame, holds for a task of period one only: with any longer period
  the next frame is not suspended.
\<close>

theorem suspension_hits_next_due_frame:
  fixes frame p i :: u32
  assumes "p = period_frames (table ! unat i)" and "0 < p" and "frame mod p = 0"
    and "unat frame + unat p < 2 ^ 32" and "wf_log s"
    and "obc_recover_escalate table OBC_RUNG_SUSPEND_TASK i frame s = (fl, s')"
  shows "fl = Ret () \<and> (\<forall>g. obc_recover_is_suspended i g s' \<longleftrightarrow> g = frame + p) \<and>
    (obc_recover_is_suspended i (frame + 1) s' \<longleftrightarrow> p = 1) \<and>
    (frame + p) mod p = 0 \<and> (\<forall>g. frame < g \<and> g < frame + p \<longrightarrow> g mod p \<noteq> 0) \<and>
    logged s' = take 16 (logged s @
      [\<lparr>su_task = ucast i, su_frame = ucast (frame + p), su_rung = 1, su_pad = 0\<rparr>])"
proof -
  have p: "p \<noteq> 0" using assms(2) by auto
  note due = next_multiple [OF assms(3,4)]
  have s': "fl = Ret ()" "s' = log_suspension i (frame + p) OBC_RUNG_SUSPEND_TASK
      (s\<lparr>s_suspended_task := i, s_suspended_frame := frame + p\<rparr>)"
    using assms(1,6) p by (simp_all add: obc_recover_escalate_def Let_def)
  have wf: "wf_log (s\<lparr>s_suspended_task := i, s_suspended_frame := frame + p\<rparr>)"
    and lg: "logged (s\<lparr>s_suspended_task := i, s_suspended_frame := frame + p\<rparr>) = logged s"
    using assms(5) by (simp_all add: wf_log_def logged_def)
  show ?thesis
    using due s' log_suspension_log(2) [OF wf] lg
    by (auto simp: obc_recover_is_suspended_def OBC_RUNG_SUSPEND_TASK_def)
qed

definition period_two_table :: "recover_state obc_task list" where
  "period_two_table = [\<lparr>task_name = [], task_fn = None, period_frames = 2, budget_instr = 0,
     essential = 0, reset_fn = None\<rparr>]"

theorem suspension_hits_next_due_frame_witness:
  "\<forall>g. obc_recover_is_suspended 0 g
     (snd (obc_recover_escalate period_two_table OBC_RUNG_SUSPEND_TASK 0 4 cold_recover)) \<longleftrightarrow> g = 6"
  using suspension_hits_next_due_frame [of 2 period_two_table 0 4 cold_recover, OF _ _ _ _ _ surjective_pairing]
  by (simp add: period_two_table_def wf_log_def cold_recover_def mode_state.defs recover_state.defs)

end
