(* ===== verification/Queue.thy ===== *)
theory Queue
  imports Prelude "HOL-Library.Multiset"
begin

text \<open>
  The time-tagged command queue and the command table, \<^verbatim>\<open>flight/cmd/queue.c\<close> and
  \<^verbatim>\<open>flight/cmd/table.c\<close>: four slots, the arming state, and the four handlers with the
  variables they touch. The table is an argument of the operations that search it;
  \<open>obc_cmd_table\<close> is the one in flash.
\<close>

section \<open>State\<close>

definition OBC_CMD_QUEUE_LEN :: nat where [obc_consts]: "OBC_CMD_QUEUE_LEN = 4"
definition OBC_CMD_LATE_TICKS :: u32 where [obc_consts]: "OBC_CMD_LATE_TICKS = 1024"
definition OBC_CMD_ARM_FRAMES :: u32 where [obc_consts]: "OBC_CMD_ARM_FRAMES = 4"
definition OBC_CMD_ARM_NONE :: u32 where [obc_consts]: "OBC_CMD_ARM_NONE = 0xFFFF"

record cmd_slot =
  sl_when :: u32
  sl_arg :: u32
  sl_counter :: u32
  sl_opcode :: u8
  sl_occupied :: u8

record queue_st =
  obc_cmd_queue :: "cmd_slot list"
  obc_cmd_queued :: u32
  obc_cmd_executed :: u32
  obc_cmd_late :: u32
  obc_cmd_armed_opcode :: u32
  obc_cmd_armed_until :: u32
  obc_cmd_noop_arg :: u32
  obc_cmd_ping_count :: u32
  obc_cmd_arm_target :: u32
  obc_cmd_safe_requested :: u32

record obc_cmd =
  cd_name :: string
  cd_opcode :: u8
  cd_critical :: u8
  cd_arg_min :: u32
  cd_arg_max :: u32
  cd_fn :: "(u32 \<Rightarrow> queue_st \<Rightarrow> queue_st) option"

section \<open>Handlers and table\<close>

definition cmd_ping :: "u32 \<Rightarrow> queue_st \<Rightarrow> queue_st" where
  "cmd_ping arg q = q\<lparr>obc_cmd_ping_count := sat_inc (obc_cmd_ping_count q)\<rparr>"

definition cmd_set :: "u32 \<Rightarrow> queue_st \<Rightarrow> queue_st" where
  "cmd_set arg q = q\<lparr>obc_cmd_noop_arg := arg\<rparr>"

definition cmd_arm :: "u32 \<Rightarrow> queue_st \<Rightarrow> queue_st" where
  "cmd_arm arg q = q\<lparr>obc_cmd_arm_target := arg\<rparr>"

definition cmd_safe :: "u32 \<Rightarrow> queue_st \<Rightarrow> queue_st" where
  "cmd_safe arg q = q\<lparr>obc_cmd_safe_requested := 1\<rparr>"

definition OP_PING :: nat where [obc_consts]: "OP_PING = 0x10"
definition OP_SET :: nat where [obc_consts]: "OP_SET = 0x11"
definition OP_ARM :: nat where [obc_consts]: "OP_ARM = 0x12"
definition OP_SAFE :: nat where [obc_consts]: "OP_SAFE = 0x13"

definition obc_cmd_table :: "obc_cmd list" where
  "obc_cmd_table =
     [\<lparr>cd_name = ''ping'', cd_opcode = of_nat OP_PING, cd_critical = 0, cd_arg_min = 0, cd_arg_max = 0,
       cd_fn = Some cmd_ping\<rparr>,
      \<lparr>cd_name = ''set'', cd_opcode = of_nat OP_SET, cd_critical = 0, cd_arg_min = 100, cd_arg_max = 900,
       cd_fn = Some cmd_set\<rparr>,
      \<lparr>cd_name = ''arm'', cd_opcode = of_nat OP_ARM, cd_critical = 0, cd_arg_min = of_nat OP_PING,
       cd_arg_max = of_nat OP_SAFE, cd_fn = Some cmd_arm\<rparr>,
      \<lparr>cd_name = ''safe'', cd_opcode = of_nat OP_SAFE, cd_critical = 1, cd_arg_min = 0, cd_arg_max = 0,
       cd_fn = Some cmd_safe\<rparr>]"

definition lookup :: "obc_cmd list \<Rightarrow> u8 \<Rightarrow> obc_cmd option" where
  "lookup table opcode = find (\<lambda>row. cd_opcode row = opcode) table"

section \<open>Operations\<close>

definition empty_slot :: "cmd_slot \<Rightarrow> cmd_slot" where
  "empty_slot sl = sl\<lparr>sl_occupied := 0, sl_when := 0, sl_arg := 0, sl_counter := 0, sl_opcode := 0\<rparr>"

definition obc_cmd_queue_init :: "queue_st \<Rightarrow> queue_st" where
  "obc_cmd_queue_init q =
     q\<lparr>obc_cmd_queue := map empty_slot (obc_cmd_queue q), obc_cmd_queued := 0,
       obc_cmd_armed_opcode := OBC_CMD_ARM_NONE, obc_cmd_armed_until := 0\<rparr>"

definition free_slot :: "queue_st \<Rightarrow> nat option" where
  "free_slot q = find (\<lambda>i. sl_occupied (obc_cmd_queue q ! i) = 0) [0..<OBC_CMD_QUEUE_LEN]"

definition obc_cmd_queue_put ::
  "u8 \<Rightarrow> u32 \<Rightarrow> u32 \<Rightarrow> u32 \<Rightarrow> queue_st \<Rightarrow> obc_status \<times> queue_st" where
  "obc_cmd_queue_put opcode when arg counter q =
     (case free_slot q of
        Some i \<Rightarrow>
          (OBC_OK, q\<lparr>obc_cmd_queue := (obc_cmd_queue q)
             [i := \<lparr>sl_when = when, sl_arg = arg, sl_counter = counter, sl_opcode = opcode, sl_occupied = 1\<rparr>],
             obc_cmd_queued := obc_cmd_queued q + 1\<rparr>)
      | None \<Rightarrow> (OBC_ERR_INVALID, q))"

text \<open>The inner search of \<^verbatim>\<open>obc_cmd_queue_run\<close>; \<open>OBC_CMD_QUEUE_LEN\<close> means nothing is due.\<close>

definition search_step :: "u32 \<Rightarrow> queue_st \<Rightarrow> nat \<Rightarrow> nat \<Rightarrow> nat" where
  "search_step now q i oldest =
     (if sl_occupied (obc_cmd_queue q ! i) = 0 then oldest
      else if sl_when (obc_cmd_queue q ! i) > now then oldest
      else if oldest = OBC_CMD_QUEUE_LEN \<or>
              sl_when (obc_cmd_queue q ! i) < sl_when (obc_cmd_queue q ! oldest) then i
      else oldest)"

definition oldest_due :: "u32 \<Rightarrow> queue_st \<Rightarrow> nat" where
  "oldest_due now q = fold (search_step now q) [0..<OBC_CMD_QUEUE_LEN] OBC_CMD_QUEUE_LEN"

definition take_slot :: "nat \<Rightarrow> queue_st \<Rightarrow> queue_st" where
  "take_slot i q =
     q\<lparr>obc_cmd_queue := (obc_cmd_queue q)[i := (obc_cmd_queue q ! i)\<lparr>sl_occupied := 0\<rparr>],
       obc_cmd_queued := (if obc_cmd_queued q > 0 then obc_cmd_queued q - 1 else obc_cmd_queued q)\<rparr>"

text \<open>Running the command of a slot that was just taken.\<close>

definition run_slot :: "obc_cmd list \<Rightarrow> u32 \<Rightarrow> u32 \<Rightarrow> cmd_slot \<Rightarrow> queue_st \<Rightarrow> queue_st" where
  "run_slot table now frame sl q =
     (case lookup table (sl_opcode sl) of
        None \<Rightarrow> q
      | Some cmd \<Rightarrow>
          (let q1 = (if now > sl_when sl + OBC_CMD_LATE_TICKS
                     then q\<lparr>obc_cmd_late := sat_inc (obc_cmd_late q)\<rparr> else q);
               q2 = the (cd_fn cmd) (sl_arg sl) q1;
               q3 = q2\<lparr>obc_cmd_executed := sat_inc (obc_cmd_executed q2)\<rparr>
           in if obc_cmd_arm_target q3 \<noteq> 0
              then q3\<lparr>obc_cmd_armed_opcode := obc_cmd_arm_target q3,
                      obc_cmd_armed_until := frame + OBC_CMD_ARM_FRAMES, obc_cmd_arm_target := 0\<rparr>
              else q3))"

definition expire_arm :: "u32 \<Rightarrow> queue_st \<Rightarrow> queue_st" where
  "expire_arm frame q =
     (if obc_cmd_armed_opcode q \<noteq> OBC_CMD_ARM_NONE \<and> frame \<ge> obc_cmd_armed_until q
      then q\<lparr>obc_cmd_armed_opcode := OBC_CMD_ARM_NONE\<rparr> else q)"

fun run_passes :: "nat \<Rightarrow> obc_cmd list \<Rightarrow> u32 \<Rightarrow> u32 \<Rightarrow> queue_st \<Rightarrow> queue_st" where
  "run_passes 0 table now frame q = q"
| "run_passes (Suc n) table now frame q =
     (let oldest = oldest_due now q
      in if oldest = OBC_CMD_QUEUE_LEN then q
         else run_passes n table now frame
                (run_slot table now frame (obc_cmd_queue q ! oldest) (take_slot oldest q)))"

definition obc_cmd_queue_run :: "obc_cmd list \<Rightarrow> u32 \<Rightarrow> u32 \<Rightarrow> queue_st \<Rightarrow> queue_st" where
  "obc_cmd_queue_run table now frame q =
     run_passes OBC_CMD_QUEUE_LEN table now frame (expire_arm frame q)"

section \<open>Well-formed queues\<close>

text \<open>Four slots, and a count that is the number of occupied ones.\<close>

definition held :: "queue_st \<Rightarrow> nat list" where
  "held q = filter (\<lambda>i. sl_occupied (obc_cmd_queue q ! i) \<noteq> 0) [0..<OBC_CMD_QUEUE_LEN]"

definition wf_queue :: "queue_st \<Rightarrow> bool" where
  "wf_queue q \<longleftrightarrow> length (obc_cmd_queue q) = OBC_CMD_QUEUE_LEN \<and> obc_cmd_queued q = of_nat (length (held q))"

type_synonym entry = "u8 \<times> u32 \<times> u32 \<times> u32"

definition entry_of :: "cmd_slot \<Rightarrow> entry" where
  "entry_of sl = (sl_opcode sl, sl_when sl, sl_arg sl, sl_counter sl)"

definition pending :: "queue_st \<Rightarrow> entry multiset" where
  "pending q = mset (map (\<lambda>i. entry_of (obc_cmd_queue q ! i)) (held q))"

lemma distinct_held [simp]: "distinct (held q)"
  by (simp add: held_def)

lemma set_held: "set (held q) = {i. i < OBC_CMD_QUEUE_LEN \<and> sl_occupied (obc_cmd_queue q ! i) \<noteq> 0}"
  by (auto simp: held_def)

lemma held_le: "length (held q) \<le> OBC_CMD_QUEUE_LEN"
  unfolding held_def by (metis length_filter_le length_upt minus_nat.diff_0)

text \<open>A distinct list of indices is determined by its set, up to order.\<close>

lemma pending_alt: "pending q = {#entry_of (obc_cmd_queue q ! i). i \<in># mset_set (set (held q))#}"
  unfolding pending_def by (simp add: mset_map mset_set_set)

lemma size_pending [simp]: "size (pending q) = length (held q)"
  by (simp add: pending_def)

lemma free_slot_Some:
  assumes "free_slot q = Some i"
  shows "i < OBC_CMD_QUEUE_LEN" "sl_occupied (obc_cmd_queue q ! i) = 0"
  using assms by (auto simp: free_slot_def find_Some_iff)

lemma free_slot_None: "free_slot q = None \<longleftrightarrow> length (held q) = OBC_CMD_QUEUE_LEN"
proof -
  have "free_slot q = None \<longleftrightarrow> (\<forall>i < OBC_CMD_QUEUE_LEN. sl_occupied (obc_cmd_queue q ! i) \<noteq> 0)"
    by (auto simp: free_slot_def find_None_iff)
  also have "\<dots> \<longleftrightarrow> held q = [0..<OBC_CMD_QUEUE_LEN]"
    unfolding held_def by (auto simp: filter_id_conv)
  also have "\<dots> \<longleftrightarrow> length (held q) = OBC_CMD_QUEUE_LEN"
    unfolding held_def by (metis filter_id_conv length_filter_less length_upt minus_nat.diff_0 nless_le)
  finally show ?thesis .
qed

lemma set_held_update:
  assumes "length (obc_cmd_queue q) = OBC_CMD_QUEUE_LEN" and "i < OBC_CMD_QUEUE_LEN"
  shows "set (held (q\<lparr>obc_cmd_queue := (obc_cmd_queue q)[i := sl]\<rparr>)) =
    (if sl_occupied sl \<noteq> 0 then insert i (set (held q)) else set (held q) - {i})"
  using assms by (auto simp: set_held nth_list_update)

lemma length_held: "length (held q) = card (set (held q))"
  by (simp add: distinct_card)

lemma put_ok:
  assumes "wf_queue q" and "length (held q) < OBC_CMD_QUEUE_LEN"
  shows "\<exists>q'. obc_cmd_queue_put op w a c q = (OBC_OK, q') \<and> wf_queue q' \<and>
    pending q' = add_mset (op, w, a, c) (pending q)"
proof -
  obtain i where i: "free_slot q = Some i" using assms(2) free_slot_None [of q] by fastforce
  note fi = free_slot_Some [OF i]
  let ?sl = "\<lparr>sl_when = w, sl_arg = a, sl_counter = c, sl_opcode = op, sl_occupied = 1\<rparr>"
  let ?q = "q\<lparr>obc_cmd_queue := (obc_cmd_queue q)[i := ?sl], obc_cmd_queued := obc_cmd_queued q + 1\<rparr>"
  have len: "length (obc_cmd_queue q) = OBC_CMD_QUEUE_LEN" using assms(1) by (simp add: wf_queue_def)
  have new: "i \<notin> set (held q)" using fi by (simp add: set_held)
  have h: "set (held ?q) = insert i (set (held q))"
    using set_held_update [OF len fi(1), of ?sl] by (simp add: held_def)
  have "wf_queue ?q"
    using assms(1) new h by (simp add: wf_queue_def length_held)
  moreover have "pending ?q = add_mset (op, w, a, c) (pending q)"
    unfolding pending_alt h using new len fi(1)
    by (auto simp: entry_of_def set_held nth_list_update intro!: image_mset_cong)
  ultimately show ?thesis using i by (simp add: obc_cmd_queue_put_def)
qed

lemma put_full:
  "length (held q) = OBC_CMD_QUEUE_LEN \<Longrightarrow> obc_cmd_queue_put op w a c q = (OBC_ERR_INVALID, q)"
  by (simp add: obc_cmd_queue_put_def free_slot_None [THEN iffD2])

section \<open>The interface the ingest path uses\<close>

text \<open>A buffer of bounded capacity that refuses rather than evicts.\<close>

locale bounded_buffer =
  fixes put :: "'e \<Rightarrow> 's \<Rightarrow> obc_status \<times> 's"
    and good :: "'s \<Rightarrow> bool"
    and content :: "'s \<Rightarrow> 'e multiset"
    and capacity :: nat
  assumes within: "good s \<Longrightarrow> size (content s) \<le> capacity"
    and accepts: "good s \<Longrightarrow> size (content s) < capacity \<Longrightarrow>
      \<exists>s'. put e s = (OBC_OK, s') \<and> good s' \<and> content s' = add_mset e (content s)"
    and refuses: "good s \<Longrightarrow> size (content s) = capacity \<Longrightarrow> put e s = (OBC_ERR_INVALID, s)"
begin

fun put_all :: "'e list \<Rightarrow> 's \<Rightarrow> obc_status list \<times> 's" where
  "put_all [] s = ([], s)"
| "put_all (e # es) s =
     (case put e s of (st, s') \<Rightarrow> (case put_all es s' of (sts, s'') \<Rightarrow> (st # sts, s'')))"

text \<open>From any good state, exactly the first entries that fit are taken, nothing already held
  is lost, and every later one is told so.\<close>

lemma put_all_takes_first:
  assumes "good s"
  shows "\<exists>s'. put_all es s =
      (map (\<lambda>i. if i < capacity - size (content s) then OBC_OK else OBC_ERR_INVALID) [0..<length es], s') \<and>
    good s' \<and> content s' = content s + mset (take (capacity - size (content s)) es)"
  using assms
proof (induction es arbitrary: s)
  case Nil
  then show ?case by simp
next
  case (Cons e es)
  show ?case
  proof (cases "size (content s) < capacity")
    case True
    then obtain s1 where s1: "put e s = (OBC_OK, s1)" "good s1" "content s1 = add_mset e (content s)"
      using accepts [OF Cons.prems] by blast
    have k: "capacity - size (content s) = Suc (capacity - size (content s1))" using True s1(3) by simp
    obtain s' where "put_all es s1 = (map (\<lambda>i. if i < capacity - size (content s1) then OBC_OK
        else OBC_ERR_INVALID) [0..<length es], s')" "good s'"
      "content s' = content s1 + mset (take (capacity - size (content s1)) es)"
      using Cons.IH [OF s1(2)] by blast
    then show ?thesis
      unfolding k using s1 by (simp add: upt_conv_Cons map_Suc_upt [symmetric] del: upt_Suc)
  next
    case False
    then have full: "size (content s) = capacity" using within [OF Cons.prems] by simp
    obtain s' where "put_all es s = (map (\<lambda>i. if i < capacity - size (content s) then OBC_OK
        else OBC_ERR_INVALID) [0..<length es], s')" "good s'"
      "content s' = content s + mset (take (capacity - size (content s)) es)"
      using Cons.IH [OF Cons.prems] by blast
    then show ?thesis
      using refuses [OF Cons.prems full, of e] full
      by (simp add: upt_conv_Cons map_Suc_upt [symmetric] del: upt_Suc)
  qed
qed

end

definition put_entry :: "entry \<Rightarrow> queue_st \<Rightarrow> obc_status \<times> queue_st" where
  "put_entry e q = (case e of (op, w, a, c) \<Rightarrow> obc_cmd_queue_put op w a c q)"

interpretation cmdq: bounded_buffer put_entry wf_queue pending OBC_CMD_QUEUE_LEN
  by unfold_locales (auto simp: put_entry_def held_le put_full dest: put_ok split: prod.splits)

section \<open>What a run executes\<close>

definition due :: "u32 \<Rightarrow> queue_st \<Rightarrow> nat set" where
  "due now q = {i \<in> set (held q). sl_when (obc_cmd_queue q ! i) \<le> now}"

lemma oldest_upto:
  fixes now :: u32 and q :: queue_st
  assumes "n \<le> OBC_CMD_QUEUE_LEN"
  defines "r \<equiv> fold (search_step now q) [0..<n] OBC_CMD_QUEUE_LEN"
  shows "r = OBC_CMD_QUEUE_LEN \<and> (\<forall>i < n. i \<notin> due now q) \<or>
    r < n \<and> r \<in> due now q \<and>
    (\<forall>i < n. i \<in> due now q \<longrightarrow> sl_when (obc_cmd_queue q ! r) \<le> sl_when (obc_cmd_queue q ! i))"
  using assms(1) unfolding r_def
proof (induction n)
  case 0
  then show ?case by simp
next
  case (Suc n)
  let ?r = "fold (search_step now q) [0..<n] OBC_CMD_QUEUE_LEN"
  have f: "fold (search_step now q) [0..<Suc n] OBC_CMD_QUEUE_LEN = search_step now q n ?r" by simp
  have d: "n \<in> due now q \<longleftrightarrow> sl_occupied (obc_cmd_queue q ! n) \<noteq> 0 \<and> \<not> sl_when (obc_cmd_queue q ! n) > now"
    using Suc.prems by (auto simp: due_def set_held)
  show ?case
  proof (cases "n \<in> due now q")
    case False
    then have "search_step now q n ?r = ?r" using d by (auto simp: search_step_def)
    then show ?thesis using Suc False unfolding f by (auto simp: less_Suc_eq)
  next
    case True
    then have s: "search_step now q n ?r = (if ?r = OBC_CMD_QUEUE_LEN \<or>
        sl_when (obc_cmd_queue q ! n) < sl_when (obc_cmd_queue q ! ?r) then n else ?r)"
      using d by (simp add: search_step_def)
    show ?thesis
      using Suc.IH Suc.prems True unfolding f s by (auto simp: less_Suc_eq)
  qed
qed

lemma oldest_due_cases:
  "oldest_due now q = OBC_CMD_QUEUE_LEN \<and> due now q = {} \<or>
   oldest_due now q \<in> due now q \<and>
   (\<forall>i \<in> due now q. sl_when (obc_cmd_queue q ! oldest_due now q) \<le> sl_when (obc_cmd_queue q ! i))"
  using oldest_upto [of OBC_CMD_QUEUE_LEN now q]
  by (auto simp: oldest_due_def due_def set_held)

text \<open>Handlers do not reach into the queue: running a command commutes with any change of the
  slots and the count.\<close>

definition with_slots :: "cmd_slot list \<Rightarrow> u32 \<Rightarrow> queue_st \<Rightarrow> queue_st" where
  "with_slots sls n q = q\<lparr>obc_cmd_queue := sls, obc_cmd_queued := n\<rparr>"

definition leaves_queue :: "obc_cmd list \<Rightarrow> bool" where
  "leaves_queue table \<longleftrightarrow>
     (\<forall>row \<in> set table. \<forall>a sls n q. the (cd_fn row) a (with_slots sls n q) =
        with_slots sls n (the (cd_fn row) a q))"

lemma lookup_Some: "lookup table op = Some cmd \<Longrightarrow> cmd \<in> set table \<and> cd_opcode cmd = op"
  by (auto simp: lookup_def find_Some_iff)

lemma flight_table_leaves_queue: "leaves_queue obc_cmd_table"
  by (simp add: leaves_queue_def obc_cmd_table_def cmd_ping_def cmd_set_def cmd_arm_def cmd_safe_def
      with_slots_def)

lemma with_slots_sel [simp]:
  "obc_cmd_queue (with_slots sls n q) = sls" "obc_cmd_queued (with_slots sls n q) = n"
  "obc_cmd_late (with_slots sls n q) = obc_cmd_late q"
  "obc_cmd_executed (with_slots sls n q) = obc_cmd_executed q"
  "obc_cmd_arm_target (with_slots sls n q) = obc_cmd_arm_target q"
  "with_slots (obc_cmd_queue q) (obc_cmd_queued q) q = q"
  by (simp_all add: with_slots_def)

lemma with_slots_upd:
  "(with_slots sls n q)\<lparr>obc_cmd_late := x\<rparr> = with_slots sls n (q\<lparr>obc_cmd_late := x\<rparr>)"
  "(with_slots sls n q)\<lparr>obc_cmd_executed := x\<rparr> = with_slots sls n (q\<lparr>obc_cmd_executed := x\<rparr>)"
  "(with_slots sls n q)\<lparr>obc_cmd_armed_opcode := x, obc_cmd_armed_until := y, obc_cmd_arm_target := z\<rparr> =
   with_slots sls n (q\<lparr>obc_cmd_armed_opcode := x, obc_cmd_armed_until := y, obc_cmd_arm_target := z\<rparr>)"
  by (simp_all add: with_slots_def)

lemma run_slot_with_slots:
  assumes "leaves_queue table"
  shows "run_slot table now frame sl (with_slots sls n q) = with_slots sls n (run_slot table now frame sl q)"
proof (cases "lookup table (sl_opcode sl)")
  case None
  then show ?thesis by (simp add: run_slot_def)
next
  case (Some cmd)
  then have "the (cd_fn cmd) a (with_slots sls n q) = with_slots sls n (the (cd_fn cmd) a q)" for a q
    using assms lookup_Some unfolding leaves_queue_def by blast
  then show ?thesis using Some by (simp add: run_slot_def Let_def with_slots_upd)
qed

lemma run_slot_queue:
  assumes "leaves_queue table"
  shows "obc_cmd_queue (run_slot table now frame sl q) = obc_cmd_queue q"
    "obc_cmd_queued (run_slot table now frame sl q) = obc_cmd_queued q"
proof -
  have "run_slot table now frame sl q =
      with_slots (obc_cmd_queue q) (obc_cmd_queued q) (run_slot table now frame sl q)"
    using run_slot_with_slots [OF assms, of now frame sl "obc_cmd_queue q" "obc_cmd_queued q" q]
    by simp
  from arg_cong [OF this, of obc_cmd_queue] arg_cong [OF this, of obc_cmd_queued]
  show "obc_cmd_queue (run_slot table now frame sl q) = obc_cmd_queue q"
    "obc_cmd_queued (run_slot table now frame sl q) = obc_cmd_queued q"
    by simp_all
qed

lemma take_slot_alt:
  "take_slot i q = with_slots ((obc_cmd_queue q)[i := (obc_cmd_queue q ! i)\<lparr>sl_occupied := 0\<rparr>])
     (if obc_cmd_queued q > 0 then obc_cmd_queued q - 1 else obc_cmd_queued q) q"
  by (simp add: take_slot_def with_slots_def)

lemma take_run_slot:
  "leaves_queue table \<Longrightarrow>
   take_slot i (run_slot table now frame sl q) = run_slot table now frame sl (take_slot i q)"
  by (simp add: take_slot_alt run_slot_queue run_slot_with_slots)

lemma takes_run_slot:
  "leaves_queue table \<Longrightarrow>
   fold take_slot is (run_slot table now frame sl q) = run_slot table now frame sl (fold take_slot is q)"
  by (induction "is" arbitrary: q) (simp_all add: take_run_slot)

lemma due_take_slot:
  assumes "length (obc_cmd_queue q) = OBC_CMD_QUEUE_LEN"
    and "obc_cmd_queue q' = obc_cmd_queue (take_slot i q)"
  shows "due now q' = due now q - {i}"
  using assms
  by (cases "i < OBC_CMD_QUEUE_LEN") (auto simp: due_def set_held take_slot_def nth_list_update)

lemma finite_due [simp]: "finite (due now q)"
  by (simp add: due_def)

lemma run_passes_order:
  assumes "leaves_queue table" and "length (obc_cmd_queue q) = OBC_CMD_QUEUE_LEN"
    and "card (due now q) \<le> n"
  shows "\<exists>is. distinct is \<and> set is = due now q \<and> sorted (map (\<lambda>i. sl_when (obc_cmd_queue q ! i)) is) \<and>
    run_passes n table now frame q =
      fold (run_slot table now frame) (map (\<lambda>i. obc_cmd_queue q ! i) is) (fold take_slot is q)"
  using assms(2,3)
proof (induction n arbitrary: q)
  case 0
  then show ?case by (intro exI [of _ "[]"]) simp
next
  case (Suc n)
  let ?o = "oldest_due now q"
  show ?case
  proof (cases "due now q = {}")
    case True
    then have "run_passes (Suc n) table now frame q = q" using oldest_due_cases [of now q] by simp
    then show ?thesis using True by (intro exI [of _ "[]"]) simp
  next
    case False
    then have o: "?o \<in> due now q" "?o \<noteq> OBC_CMD_QUEUE_LEN"
      and least: "\<forall>i \<in> due now q. sl_when (obc_cmd_queue q ! ?o) \<le> sl_when (obc_cmd_queue q ! i)"
      using oldest_due_cases [of now q] by (auto simp: due_def set_held)
    let ?q = "run_slot table now frame (obc_cmd_queue q ! ?o) (take_slot ?o q)"
    have queue: "obc_cmd_queue ?q = obc_cmd_queue (take_slot ?o q)" by (rule run_slot_queue [OF assms(1)])
    then have other: "obc_cmd_queue ?q ! i = obc_cmd_queue q ! i" if "i \<noteq> ?o" for i
      using that by (simp add: take_slot_def)
    have d: "due now ?q = due now q - {?o}" by (rule due_take_slot [OF Suc.prems(1) queue])
    have "length (obc_cmd_queue ?q) = OBC_CMD_QUEUE_LEN" "card (due now ?q) \<le> n"
      using Suc.prems o(1) queue d by (simp_all add: take_slot_def)
    from Suc.IH [OF this] obtain js where js: "distinct js" "set js = due now q - {?o}"
      "sorted (map (\<lambda>i. sl_when (obc_cmd_queue ?q ! i)) js)"
      "run_passes n table now frame ?q =
        fold (run_slot table now frame) (map (\<lambda>i. obc_cmd_queue ?q ! i) js) (fold take_slot js ?q)"
      unfolding d by blast
    have m: "map (\<lambda>i. obc_cmd_queue ?q ! i) js = map (\<lambda>i. obc_cmd_queue q ! i) js"
      "map (\<lambda>i. sl_when (obc_cmd_queue ?q ! i)) js = map (\<lambda>i. sl_when (obc_cmd_queue q ! i)) js"
      using js(2) other by auto
    have "run_passes (Suc n) table now frame q = run_passes n table now frame ?q"
      using o(2) by (simp add: Let_def)
    also have "\<dots> = fold (run_slot table now frame) (map (\<lambda>i. obc_cmd_queue q ! i) (?o # js))
        (fold take_slot (?o # js) q)"
      unfolding js(4) m by (simp add: takes_run_slot [OF assms(1)])
    finally show ?thesis
      using js(1-3) o(1) least unfolding m by (intro exI [of _ "?o # js"]) auto
  qed
qed

lemma take_slot_held:
  assumes "length (obc_cmd_queue q) = OBC_CMD_QUEUE_LEN" and "i \<in> set (held q)"
  shows "set (held (take_slot i q)) = set (held q) - {i}"
    "j \<noteq> i \<Longrightarrow> obc_cmd_queue (take_slot i q) ! j = obc_cmd_queue q ! j"
proof -
  have i: "i < OBC_CMD_QUEUE_LEN" using assms(2) by (simp add: set_held)
  have e: "held (take_slot i q) =
      held (q\<lparr>obc_cmd_queue := (obc_cmd_queue q)[i := (obc_cmd_queue q ! i)\<lparr>sl_occupied := 0\<rparr>]\<rparr>)"
    by (simp add: held_def take_slot_def)
  show "set (held (take_slot i q)) = set (held q) - {i}"
    unfolding e set_held_update [OF assms(1) i] by simp
  show "j \<noteq> i \<Longrightarrow> obc_cmd_queue (take_slot i q) ! j = obc_cmd_queue q ! j"
    by (simp add: take_slot_def)
qed

lemma take_slot_wf:
  assumes "wf_queue q" and "i \<in> set (held q)"
  shows "wf_queue (take_slot i q)"
proof -
  have len: "length (obc_cmd_queue q) = OBC_CMD_QUEUE_LEN" and n: "obc_cmd_queued q = of_nat (length (held q))"
    using assms(1) by (simp_all add: wf_queue_def)
  have k: "length (held (take_slot i q)) = length (held q) - 1"
    unfolding length_held take_slot_held(1) [OF len assms(2)] using assms(2) by simp
  have pos: "0 < length (held q)" using assms(2) by (cases "held q") auto
  have "unat (obc_cmd_queued q) = length (held q)"
    unfolding n using held_le [of q] by (simp add: OBC_CMD_QUEUE_LEN_def unat_of_nat take_bit_eq_mod)
  then have "obc_cmd_queued q > 0" using pos by (simp add: word_less_nat_alt)
  then have "obc_cmd_queued (take_slot i q) = of_nat (length (held q)) - 1"
    by (simp add: take_slot_def n)
  also have "\<dots> = of_nat (length (held q) - 1)" using pos by (cases "length (held q)") simp_all
  finally show ?thesis using len k by (simp add: wf_queue_def) (simp add: take_slot_def)
qed

lemma takes_wf:
  assumes "wf_queue q" and "distinct is" and "set is \<subseteq> set (held q)"
  shows "wf_queue (fold take_slot is q) \<and> set (held (fold take_slot is q)) = set (held q) - set is \<and>
    (\<forall>j. j \<notin> set is \<longrightarrow> obc_cmd_queue (fold take_slot is q) ! j = obc_cmd_queue q ! j)"
  using assms
proof (induction "is" arbitrary: q)
  case Nil
  then show ?case by simp
next
  case (Cons i "is")
  have len: "length (obc_cmd_queue q) = OBC_CMD_QUEUE_LEN" using Cons.prems by (simp add: wf_queue_def)
  have i: "i \<in> set (held q)" using Cons.prems(3) by simp
  note t = take_slot_held [OF len i]
  have "set is \<subseteq> set (held (take_slot i q))" using Cons.prems t(1) by auto
  from Cons.IH [OF take_slot_wf [OF Cons.prems(1) i] _ this] Cons.prems(2) t show ?case by auto
qed

lemma runs_keep_slots:
  assumes "leaves_queue table"
  shows "obc_cmd_queue (fold (run_slot table now frame) sls q) = obc_cmd_queue q"
    "obc_cmd_queued (fold (run_slot table now frame) sls q) = obc_cmd_queued q"
  by (induction sls arbitrary: q) (simp_all add: run_slot_queue [OF assms])

lemma expire_arm_queue [simp]:
  "obc_cmd_queue (expire_arm f q) = obc_cmd_queue q" "obc_cmd_queued (expire_arm f q) = obc_cmd_queued q"
  "held (expire_arm f q) = held q" "due now (expire_arm f q) = due now q" "wf_queue (expire_arm f q) = wf_queue q"
  by (simp_all add: expire_arm_def held_def due_def wf_queue_def)

lemma held_cong: "obc_cmd_queue q' = obc_cmd_queue q \<Longrightarrow> held q' = held q"
  by (simp add: held_def)

lemma pending_filter:
  assumes "set (held q') = set (held q) - due now q"
    and "\<forall>j. j \<notin> due now q \<longrightarrow> obc_cmd_queue q' ! j = obc_cmd_queue q ! j"
  shows "pending q' = {# e \<in># pending q. now < fst (snd e) #}"
proof -
  have sub: "due now q \<subseteq> set (held q)" by (auto simp: due_def)
  have "{# e \<in># pending q. now < fst (snd e) #} =
      {#entry_of (obc_cmd_queue q ! i). i \<in># {# i \<in># mset_set (set (held q)). now < sl_when (obc_cmd_queue q ! i) #}#}"
    unfolding pending_alt by (simp add: filter_mset_image_mset entry_of_def)
  also have "{# i \<in># mset_set (set (held q)). now < sl_when (obc_cmd_queue q ! i) #} =
      mset_set (set (held q) - due now q)"
  proof -
    have "{i \<in> set (held q). now < sl_when (obc_cmd_queue q ! i)} = set (held q) - due now q"
      by (auto simp: due_def)
    then show ?thesis by (simp add: filter_mset_mset_set)
  qed
  finally show ?thesis
    unfolding pending_alt assms(1) using assms(2) by (auto intro!: image_mset_cong)
qed

section \<open>Properties\<close>

definition empty_queue :: queue_st where
  "empty_queue = \<lparr>obc_cmd_queue = replicate 4 \<lparr>sl_when = 0, sl_arg = 0, sl_counter = 0, sl_opcode = 0,
       sl_occupied = 0\<rparr>, obc_cmd_queued = 0, obc_cmd_executed = 0, obc_cmd_late = 0,
     obc_cmd_armed_opcode = 0xFFFF, obc_cmd_armed_until = 0, obc_cmd_noop_arg = 0,
     obc_cmd_ping_count = 0, obc_cmd_arm_target = 0, obc_cmd_safe_requested = 0\<rparr>"

lemma wf_empty_queue: "wf_queue empty_queue" "held empty_queue = []"
  by (simp_all add: wf_queue_def held_def empty_queue_def OBC_CMD_QUEUE_LEN_def upt_rec)

text \<open>
  A full queue refuses and forgets nothing. From any well-formed queue, of any sequence
  of commands offered to it exactly the first that fit are taken, in order, every later one
  gets \<open>OBC_ERR_INVALID\<close>, and what is held afterwards is what was held before and the
  commands that were taken.
\<close>

lemma queue_refuses_never_evicts:
  assumes "wf_queue q"
  shows "\<exists>q'. cmdq.put_all es q =
      (map (\<lambda>i. if i < OBC_CMD_QUEUE_LEN - size (pending q) then OBC_OK else OBC_ERR_INVALID) [0..<length es], q') \<and>
    wf_queue q' \<and> pending q' = pending q + mset (take (OBC_CMD_QUEUE_LEN - size (pending q)) es)"
  by (rule cmdq.put_all_takes_first [OF assms])

text \<open>A run, as the due slots taken out and their commands run, oldest tag first.\<close>

lemma queue_run_order:
  assumes "wf_queue q"
  obtains "is" where "distinct is" "set is = due now q" "sorted (map (\<lambda>i. sl_when (obc_cmd_queue q ! i)) is)"
    "obc_cmd_queue_run obc_cmd_table now frame q =
       fold (run_slot obc_cmd_table now frame) (map (\<lambda>i. obc_cmd_queue q ! i) is)
         (fold take_slot is (expire_arm frame q))"
proof -
  let ?q = "expire_arm frame q"
  have len: "length (obc_cmd_queue ?q) = OBC_CMD_QUEUE_LEN" using assms by (simp add: wf_queue_def)
  have "due now ?q \<subseteq> {..<OBC_CMD_QUEUE_LEN}" by (auto simp: due_def set_held)
  then have "card (due now ?q) \<le> OBC_CMD_QUEUE_LEN" using card_mono [of "{..<OBC_CMD_QUEUE_LEN}"] by fastforce
  from run_passes_order [OF flight_table_leaves_queue len this, of frame] that show ?thesis
    by (auto simp: obc_cmd_queue_run_def)
qed

lemma queue_run_keeps:
  assumes "wf_queue q"
  shows "wf_queue (obc_cmd_queue_run obc_cmd_table now frame q)"
    "pending (obc_cmd_queue_run obc_cmd_table now frame q) = {# e \<in># pending q. now < fst (snd e) #}"
proof -
  let ?q = "expire_arm frame q" and ?run = "obc_cmd_queue_run obc_cmd_table now frame q"
  have wf: "wf_queue ?q" using assms by simp
  obtain "is" where i: "distinct is" "set is = due now q"
    "?run = fold (run_slot obc_cmd_table now frame) (map (\<lambda>i. obc_cmd_queue q ! i) is) (fold take_slot is ?q)"
    by (rule queue_run_order [OF assms])
  have "set is \<subseteq> set (held ?q)" using i(2) by (auto simp: due_def)
  note t = takes_wf [OF wf i(1) this]
  note k = runs_keep_slots [OF flight_table_leaves_queue, of now frame "map (\<lambda>i. obc_cmd_queue q ! i) is"
      "fold take_slot is ?q", folded i(3)]
  show "wf_queue ?run" using t held_cong [OF k(1)] k by (simp add: wf_queue_def)
  show "pending ?run = {# e \<in># pending q. now < fst (snd e) #}"
    by (rule pending_filter) (use t held_cong [OF k(1)] k(1) i(2) in simp_all)
qed

section \<open>Arming\<close>

text \<open>The arming state: what is armed, until when, and what an arm handler has left to arm.\<close>

definition arming :: "queue_st \<Rightarrow> u32 \<times> u32 \<times> u32" where
  "arming q = (obc_cmd_armed_opcode q, obc_cmd_armed_until q, obc_cmd_arm_target q)"

lemma arming_take_slot: "arming (take_slot i q) = arming q"
  by (simp add: arming_def take_slot_def)

lemma arming_takes: "arming (fold take_slot is q) = arming q"
  by (induction "is" arbitrary: q) (simp_all add: arming_take_slot)

lemma arming_put: "arming (snd (obc_cmd_queue_put op w a c q)) = arming q"
  by (simp add: obc_cmd_queue_put_def arming_def split: option.splits)

text \<open>Only an arm command moves it, and it arms its argument for four frames.\<close>

lemma arming_other_command:
  assumes "sl_opcode sl \<noteq> of_nat OP_ARM" and "arming q = (op, until, 0)"
  shows "arming (run_slot obc_cmd_table now frame sl q) = (op, until, 0)"
  using assms
  by (auto simp: arming_def run_slot_def lookup_def obc_cmd_table_def cmd_ping_def cmd_set_def cmd_safe_def Let_def)

lemma arming_arm_command:
  assumes "sl_opcode sl = of_nat OP_ARM" and "sl_arg sl \<noteq> 0"
  shows "arming (run_slot obc_cmd_table now frame sl q) = (sl_arg sl, frame + OBC_CMD_ARM_FRAMES, 0)"
  using assms
  by (simp add: arming_def run_slot_def lookup_def obc_cmd_table_def cmd_arm_def Let_def
      OP_PING_def OP_SET_def OP_ARM_def)

lemma arming_others:
  assumes "\<forall>sl \<in> set sls. sl_opcode sl \<noteq> of_nat OP_ARM" and "arming q = (op, until, 0)"
  shows "arming (fold (run_slot obc_cmd_table now frame) sls q) = (op, until, 0)"
  using assms by (induction sls arbitrary: q) (simp_all add: arming_other_command)

lemma arming_expire:
  "arming q = (op, until, t) \<Longrightarrow> arming (expire_arm frame q) = (if until \<le> frame then OBC_CMD_ARM_NONE else op, until, t)"
  by (auto simp: arming_def expire_arm_def)

definition unarmed_run :: "u32 \<Rightarrow> queue_st \<Rightarrow> bool" where
  "unarmed_run now q \<longleftrightarrow> (\<forall>i \<in> due now q. sl_opcode (obc_cmd_queue q ! i) \<noteq> of_nat OP_ARM)"

definition arms :: "u32 \<Rightarrow> queue_st \<Rightarrow> u32 \<Rightarrow> bool" where
  "arms now q target \<longleftrightarrow> (\<exists>i \<in> due now q. sl_opcode (obc_cmd_queue q ! i) = of_nat OP_ARM \<and>
     sl_arg (obc_cmd_queue q ! i) = target \<and>
     (\<forall>j \<in> due now q. j \<noteq> i \<longrightarrow> sl_opcode (obc_cmd_queue q ! j) \<noteq> of_nat OP_ARM))"

lemma arming_unarmed_run:
  assumes "wf_queue q" and "unarmed_run now q" and "arming q = (op, until, 0)"
  shows "arming (obc_cmd_queue_run obc_cmd_table now frame q) =
    (if until \<le> frame then OBC_CMD_ARM_NONE else op, until, 0)"
proof -
  obtain "is" where i: "set is = due now q" "obc_cmd_queue_run obc_cmd_table now frame q =
      fold (run_slot obc_cmd_table now frame) (map (\<lambda>i. obc_cmd_queue q ! i) is)
        (fold take_slot is (expire_arm frame q))"
    by (rule queue_run_order [OF assms(1)]) (rule that)
  show ?thesis
    unfolding i(2)
    by (rule arming_others) (use assms(2,3) i(1) in \<open>auto simp: unarmed_run_def arming_takes arming_expire\<close>)
qed

lemma arming_arming_run:
  assumes "wf_queue q" and "arms now q target" and "target \<noteq> 0"
  shows "arming (obc_cmd_queue_run obc_cmd_table now frame q) = (target, frame + OBC_CMD_ARM_FRAMES, 0)"
proof -
  obtain "is" where d: "distinct is" and i: "set is = due now q" "obc_cmd_queue_run obc_cmd_table now frame q =
      fold (run_slot obc_cmd_table now frame) (map (\<lambda>i. obc_cmd_queue q ! i) is)
        (fold take_slot is (expire_arm frame q))"
    by (rule queue_run_order [OF assms(1)]) (rule that)
  obtain n where n: "n \<in> set is" "sl_opcode (obc_cmd_queue q ! n) = of_nat OP_ARM" "sl_arg (obc_cmd_queue q ! n) = target"
    "\<forall>j \<in> set is. j \<noteq> n \<longrightarrow> sl_opcode (obc_cmd_queue q ! j) \<noteq> of_nat OP_ARM"
    using assms(2) unfolding arms_def i(1) by blast
  obtain xs ys where s: "is = xs @ n # ys" using split_list [OF n(1)] by blast
  have "n \<notin> set ys" using d s by simp
  then have others: "\<forall>sl \<in> set (map (\<lambda>i. obc_cmd_queue q ! i) ys). sl_opcode sl \<noteq> of_nat OP_ARM"
    using n(4) s by auto
  show ?thesis
    unfolding i(2) s using arming_others [OF others arming_arm_command [OF n(2)]] n(3) assms(3) by simp
qed

section \<open>Runs\<close>

text \<open>
  C22: a run executes exactly the commands that are due, each once, oldest tag first. The
  result is that of taking the due slots out and running their commands in an order sorted
  by time tag; what stays held is exactly what was tagged for later, untouched, and the
  count of entries stays right.
\<close>

theorem queue_run_executes_due_in_order:
  assumes "wf_queue q"
  shows "\<exists>is. distinct is \<and> set is = due now q \<and> sorted (map (\<lambda>i. sl_when (obc_cmd_queue q ! i)) is) \<and>
      obc_cmd_queue_run obc_cmd_table now frame q =
        fold (run_slot obc_cmd_table now frame) (map (\<lambda>i. obc_cmd_queue q ! i) is)
          (fold take_slot is (expire_arm frame q)) \<and>
      wf_queue (obc_cmd_queue_run obc_cmd_table now frame q) \<and>
      pending (obc_cmd_queue_run obc_cmd_table now frame q) = {# e \<in># pending q. now < fst (snd e) #}"
  using queue_run_order [OF assms, of now frame] queue_run_keeps [OF assms, of now frame] by metis

definition two_queued :: queue_st where
  "two_queued = snd (obc_cmd_queue_put 0x11 9 300 2 (snd (obc_cmd_queue_put 0x12 20 0x13 1 empty_queue)))"

lemma wf_two_queued: "wf_queue two_queued"
proof -
  obtain q1 where q1: "obc_cmd_queue_put 0x12 20 0x13 1 empty_queue = (OBC_OK, q1)" "wf_queue q1"
    "pending q1 = {#(0x12, 20, 0x13, 1)#}"
    using put_ok [OF wf_empty_queue(1), of "0x12" 20 "0x13" 1] wf_empty_queue
    by (auto simp: OBC_CMD_QUEUE_LEN_def pending_def)
  have "length (held q1) < OBC_CMD_QUEUE_LEN"
    using arg_cong [OF q1(3), of size] by (simp add: OBC_CMD_QUEUE_LEN_def)
  from put_ok [OF q1(2) this, of "0x11" 9 300 2] q1(1) show ?thesis by (auto simp: two_queued_def)
qed

theorem queue_run_executes_due_in_order_witness:
  "pending (obc_cmd_queue_run obc_cmd_table 10 3 two_queued) = {# e \<in># pending two_queued. 10 < fst (snd e) #}"
  using queue_run_executes_due_in_order [OF wf_two_queued, where now = 10 and frame = 3] by blast

text \<open>
  The tag 0 stands for "the next frame", and the lateness test compares against it: once the
  machine-timer count of a frame exceeds one frame's ticks, such a command is counted late
  in the very frame it was accepted for.
\<close>

lemma untagged_command_counted_late:
  assumes "lookup obc_cmd_table (sl_opcode sl) \<noteq> None" and "sl_when sl = 0" and "OBC_CMD_LATE_TICKS < now"
  shows "obc_cmd_late (run_slot obc_cmd_table now frame sl q) = sat_inc (obc_cmd_late q)"
  using assms
  by (auto simp: run_slot_def lookup_def obc_cmd_table_def Let_def cmd_ping_def cmd_set_def cmd_arm_def
      cmd_safe_def split: if_splits)

end
