(* ===== verification/Layout.thy ===== *)
theory Layout
  imports Prelude
begin

text \<open>
  The run-time audit both frame formats make of their descriptor tables
  (\<^verbatim>\<open>obc_cmd_init\<close> in \<^verbatim>\<open>flight/cmd/frame.c\<close> and \<^verbatim>\<open>obc_tlm_init\<close> in
  \<^verbatim>\<open>flight/tlm/frame.c\<close>), as an interface: a loop over the rows that
  checks each one against the running offset. What it buys is stated once: an accepted
  table tiles the frame.
\<close>

locale layout_audit =
  fixes row_ok :: "'f \<Rightarrow> bool"
    and off :: "'f \<Rightarrow> u32"
    and size_of :: "'f \<Rightarrow> u32"
    and audit :: "'f list \<Rightarrow> u32 \<Rightarrow> u32 option"
  assumes audit_Nil: "audit [] e = Some e"
    and audit_Cons: "audit (f # fs) e =
      (if row_ok f \<and> off f = e then audit fs (e + size_of f) else None)"
    and off_bound: "unat (off f) < 65536"
    and size_bound: "row_ok f \<Longrightarrow> unat (size_of f) < 65536"
begin

text \<open>Byte \<open>b\<close> of the frame belongs to row \<open>i\<close>.\<close>

definition covers :: "'f list \<Rightarrow> nat \<Rightarrow> nat \<Rightarrow> bool" where
  "covers fs i b \<longleftrightarrow> i < length fs \<and> unat (off (fs ! i)) \<le> b \<and> b < unat (off (fs ! i)) + unat (size_of (fs ! i))"

lemma audit_from:
  assumes "audit fs e = Some n"
  shows "unat e \<le> unat n \<and> (\<forall>b. unat e \<le> b \<and> b < unat n \<longrightarrow> (\<exists>!i. covers fs i b)) \<and>
    (\<forall>i b. covers fs i b \<longrightarrow> unat e \<le> b \<and> b < unat n) \<and> (\<forall>f \<in> set fs. row_ok f)"
  using assms
proof (induction fs arbitrary: e)
  case Nil
  then show ?case by (auto simp: audit_Nil covers_def)
next
  case (Cons f fs)
  have f: "row_ok f" "off f = e" "audit fs (e + size_of f) = Some n"
    using Cons.prems by (auto simp: audit_Cons split: if_splits)
  have sum: "unat (e + size_of f) = unat e + unat (size_of f)"
    using off_bound [of f] size_bound [OF f(1)] f(2) by (simp add: unat_word_ariths)
  note ih = Cons.IH [OF f(3), unfolded sum]
  have zero: "covers (f # fs) 0 b \<longleftrightarrow> unat e \<le> b \<and> b < unat e + unat (size_of f)" for b
    using f(2) by (simp add: covers_def)
  have suc: "covers (f # fs) (Suc i) b \<longleftrightarrow> covers fs i b" for i b by (simp add: covers_def)
  have "\<exists>!i. covers (f # fs) i b" if b: "unat e \<le> b" "b < unat n" for b
  proof (cases "b < unat e + unat (size_of f)")
    case True
    have "j = 0" if "covers (f # fs) j b" for j
    proof (cases j)
      case (Suc k)
      then have "covers fs k b" using that suc by simp
      then have "unat e + unat (size_of f) \<le> b" using ih by blast
      then show ?thesis using True by simp
    qed
    then show ?thesis using True b(1) zero by blast
  next
    case False
    then have le: "unat e + unat (size_of f) \<le> b" by simp
    from ih have "\<forall>b. unat e + unat (size_of f) \<le> b \<and> b < unat n \<longrightarrow> (\<exists>!i. covers fs i b)" by (elim conjE)
    with le b(2) have "\<exists>!i. covers fs i b" by iprover
    then obtain i where i: "covers fs i b" and u: "\<And>j. covers fs j b \<Longrightarrow> j = i"
      unfolding Ex1_def by blast
    have "j = Suc i" if "covers (f # fs) j b" for j
    proof (cases j)
      case 0
      then show ?thesis using that zero False by simp
    next
      case (Suc k)
      then show ?thesis using that suc u by simp
    qed
    then show ?thesis using i suc by blast
  qed
  moreover have "unat e \<le> b \<and> b < unat n" if "covers (f # fs) i b" for i b
    using that zero suc ih by (cases i) fastforce+
  ultimately show ?case using ih f(1) by auto
qed

text \<open>Every byte of the frame is in exactly one row, and no row reaches outside it.\<close>

lemma tiles:
  assumes "audit fs 0 = Some n"
  shows "\<forall>b < unat n. \<exists>!i. covers fs i b" "covers fs i b \<Longrightarrow> b < unat n"
  using audit_from [OF assms] by auto

end

end
