(* ===== verification/CmdFrame.thy ===== *)
theory CmdFrame
  imports Recover Queue Layout
begin

text \<open>
  Command ingest, \<^verbatim>\<open>flight/cmd/frame.c\<close>: the uplink frame's layout and its audit, the
  integrity word, the byte collector, and the validation that accepts a frame into the
  queue or refuses it with one of eight reasons.
\<close>

section \<open>Layout and constants\<close>

definition OBC_CMD_SYNC :: u32 where [obc_consts]: "OBC_CMD_SYNC = 0x5A3CA5C3"
definition OBC_CMD_REJECT_SYNC :: nat where [obc_consts]: "OBC_CMD_REJECT_SYNC = 0"
definition OBC_CMD_REJECT_LENGTH :: nat where [obc_consts]: "OBC_CMD_REJECT_LENGTH = 1"
definition OBC_CMD_REJECT_SUM :: nat where [obc_consts]: "OBC_CMD_REJECT_SUM = 2"
definition OBC_CMD_REJECT_OPCODE :: nat where [obc_consts]: "OBC_CMD_REJECT_OPCODE = 3"
definition OBC_CMD_REJECT_ARG :: nat where [obc_consts]: "OBC_CMD_REJECT_ARG = 4"
definition OBC_CMD_REJECT_REPLAY :: nat where [obc_consts]: "OBC_CMD_REJECT_REPLAY = 5"
definition OBC_CMD_REJECT_QUEUE :: nat where [obc_consts]: "OBC_CMD_REJECT_QUEUE = 6"
definition OBC_CMD_REJECT_NOT_ARMED :: nat where [obc_consts]: "OBC_CMD_REJECT_NOT_ARMED = 7"
definition OBC_CMD_REJECT_COUNT :: nat where [obc_consts]: "OBC_CMD_REJECT_COUNT = 8"

definition OBC_CMD_W_SYNC :: nat where [obc_consts]: "OBC_CMD_W_SYNC = 4"
definition OBC_CMD_O_SYNC :: nat where [obc_consts]: "OBC_CMD_O_SYNC = 0"
definition OBC_CMD_W_COUNTER :: nat where [obc_consts]: "OBC_CMD_W_COUNTER = 4"
definition OBC_CMD_O_COUNTER :: nat where [obc_consts]: "OBC_CMD_O_COUNTER = OBC_CMD_O_SYNC + OBC_CMD_W_SYNC"
definition OBC_CMD_W_LENGTH :: nat where [obc_consts]: "OBC_CMD_W_LENGTH = 1"
definition OBC_CMD_O_LENGTH :: nat where [obc_consts]: "OBC_CMD_O_LENGTH = OBC_CMD_O_COUNTER + OBC_CMD_W_COUNTER"
definition OBC_CMD_W_OPCODE :: nat where [obc_consts]: "OBC_CMD_W_OPCODE = 1"
definition OBC_CMD_O_OPCODE :: nat where [obc_consts]: "OBC_CMD_O_OPCODE = OBC_CMD_O_LENGTH + OBC_CMD_W_LENGTH"
definition OBC_CMD_W_WHEN :: nat where [obc_consts]: "OBC_CMD_W_WHEN = 4"
definition OBC_CMD_O_WHEN :: nat where [obc_consts]: "OBC_CMD_O_WHEN = OBC_CMD_O_OPCODE + OBC_CMD_W_OPCODE"
definition OBC_CMD_W_ARG :: nat where [obc_consts]: "OBC_CMD_W_ARG = 4"
definition OBC_CMD_O_ARG :: nat where [obc_consts]: "OBC_CMD_O_ARG = OBC_CMD_O_WHEN + OBC_CMD_W_WHEN"
definition OBC_CMD_W_SUM :: nat where [obc_consts]: "OBC_CMD_W_SUM = 2"
definition OBC_CMD_O_SUM :: nat where [obc_consts]: "OBC_CMD_O_SUM = OBC_CMD_O_ARG + OBC_CMD_W_ARG"
definition OBC_CMD_FRAME_LEN :: nat where [obc_consts]: "OBC_CMD_FRAME_LEN = OBC_CMD_O_SUM + OBC_CMD_W_SUM"
definition OBC_CMD_RX_BYTES :: nat where [obc_consts]: "OBC_CMD_RX_BYTES = 8 * OBC_CMD_FRAME_LEN"

lemmas cmd_layout =
  OBC_CMD_W_SYNC_def OBC_CMD_O_SYNC_def OBC_CMD_W_COUNTER_def OBC_CMD_O_COUNTER_def
  OBC_CMD_W_LENGTH_def OBC_CMD_O_LENGTH_def OBC_CMD_W_OPCODE_def OBC_CMD_O_OPCODE_def
  OBC_CMD_W_WHEN_def OBC_CMD_O_WHEN_def OBC_CMD_W_ARG_def OBC_CMD_O_ARG_def OBC_CMD_W_SUM_def
  OBC_CMD_O_SUM_def OBC_CMD_FRAME_LEN_def OBC_CMD_RX_BYTES_def

record cmd_field =
  cf_name :: string
  cf_offset :: u16
  cf_width :: u8

definition cmd_row :: "string \<Rightarrow> nat \<Rightarrow> nat \<Rightarrow> cmd_field" where
  "cmd_row n ofs w = \<lparr>cf_name = n, cf_offset = of_nat ofs, cf_width = of_nat w\<rparr>"

definition obc_cmd_fields :: "cmd_field list" where
  "obc_cmd_fields =
     [cmd_row ''sync'' OBC_CMD_O_SYNC OBC_CMD_W_SYNC,
      cmd_row ''counter'' OBC_CMD_O_COUNTER OBC_CMD_W_COUNTER,
      cmd_row ''length'' OBC_CMD_O_LENGTH OBC_CMD_W_LENGTH,
      cmd_row ''opcode'' OBC_CMD_O_OPCODE OBC_CMD_W_OPCODE,
      cmd_row ''when'' OBC_CMD_O_WHEN OBC_CMD_W_WHEN,
      cmd_row ''arg'' OBC_CMD_O_ARG OBC_CMD_W_ARG,
      cmd_row ''sum'' OBC_CMD_O_SUM OBC_CMD_W_SUM]"

section \<open>State\<close>

record cmd_state = recover_state +
  cmd_q :: queue_st
  obc_cmd_examined :: u32
  obc_cmd_accepted :: u32
  obc_cmd_rejected :: "u32 list"
  obc_cmd_announced :: u32
  s_last_counter :: u32
  s_table_ok :: u32
  s_rx :: "u8 list"
  s_fill :: nat

definition s_reason_name :: "string list" where
  "s_reason_name = [''sync'', ''length'', ''sum'', ''opcode'', ''arg'', ''replay'', ''queue'', ''not-armed'']"

section \<open>Bytes\<close>

definition get_u8 :: "u8 list \<Rightarrow> nat \<Rightarrow> u32" where
  "get_u8 frame offset = ucast (frame ! offset)"

definition get_u16 :: "u8 list \<Rightarrow> nat \<Rightarrow> u32" where
  "get_u16 frame offset = ucast (frame ! offset) OR push_bit 8 (ucast (frame ! (offset + 1)))"

definition get_u32 :: "u8 list \<Rightarrow> nat \<Rightarrow> u32" where
  "get_u32 frame offset =
     ((ucast (frame ! offset) OR push_bit 8 (ucast (frame ! (offset + 1)))) OR
      push_bit 16 (ucast (frame ! (offset + 2)))) OR push_bit 24 (ucast (frame ! (offset + 3)))"

definition sum_step :: "u8 \<Rightarrow> u32 \<Rightarrow> u32" where
  "sum_step b acc = (let acc = acc + ucast b in (acc + drop_bit 16 acc) AND 0xFFFF)"

definition obc_cmd_sum :: "u8 list \<Rightarrow> nat \<Rightarrow> u32" where
  "obc_cmd_sum frame bound = fold sum_step (take bound frame) 0 XOR 0xFFFF"

section \<open>Refusing\<close>

definition announce_once :: "nat \<Rightarrow> 'a cmd_state_scheme \<Rightarrow> 'a cmd_state_scheme" where
  "announce_once reason s =
     (if obc_cmd_announced s AND push_bit reason 1 \<noteq> 0 then s
      else say crlf (say (s_reason_name ! reason) (say ''cmd    : rejected, first ''
             (s\<lparr>obc_cmd_announced := obc_cmd_announced s OR push_bit reason 1\<rparr>))))"

definition refuse ::
  "nat \<Rightarrow> u32 ptr \<Rightarrow> 'a cmd_state_scheme \<Rightarrow> obc_status \<times> u32 ptr \<times> 'a cmd_state_scheme" where
  "refuse reason out s =
     (let s1 = s\<lparr>obc_cmd_rejected := (obc_cmd_rejected s)[reason := sat_inc (obc_cmd_rejected s ! reason)]\<rparr>
      in (OBC_ERR_INVALID, map_option (\<lambda>_. of_nat reason) out, announce_once reason s1))"

section \<open>Ingest\<close>

definition obc_cmd_ingest ::
  "obc_cmd list \<Rightarrow> u8 list ptr \<Rightarrow> nat \<Rightarrow> u32 ptr \<Rightarrow> 'a cmd_state_scheme \<Rightarrow>
     obc_status \<times> u32 ptr \<times> 'a cmd_state_scheme" where
  "obc_cmd_ingest table fp len reason s =
     (case fp of
        None \<Rightarrow> (OBC_ERR_INVALID, reason, s)
      | Some frame \<Rightarrow>
      if s_table_ok s = 0 then (OBC_ERR_INVALID, reason, s)
      else (let s = s\<lparr>obc_cmd_examined := sat_inc (obc_cmd_examined s)\<rparr>
      in if len \<noteq> OBC_CMD_FRAME_LEN then refuse OBC_CMD_REJECT_LENGTH reason s
      else if get_u32 frame OBC_CMD_O_SYNC \<noteq> OBC_CMD_SYNC then refuse OBC_CMD_REJECT_SYNC reason s
      else if get_u8 frame OBC_CMD_O_LENGTH \<noteq> of_nat OBC_CMD_FRAME_LEN then refuse OBC_CMD_REJECT_LENGTH reason s
      else if get_u16 frame OBC_CMD_O_SUM \<noteq> obc_cmd_sum frame OBC_CMD_O_SUM then refuse OBC_CMD_REJECT_SUM reason s
      else (let opcode = ucast (get_u8 frame OBC_CMD_O_OPCODE)
      in case lookup table opcode of
        None \<Rightarrow> refuse OBC_CMD_REJECT_OPCODE reason s
      | Some cmd \<Rightarrow>
      (let arg = get_u32 frame OBC_CMD_O_ARG
      in if arg < cd_arg_min cmd \<or> arg > cd_arg_max cmd then refuse OBC_CMD_REJECT_ARG reason s
      else (let counter = get_u32 frame OBC_CMD_O_COUNTER
      in if counter \<le> s_last_counter s then refuse OBC_CMD_REJECT_REPLAY reason s
      else if cd_critical cmd \<noteq> 0 \<and> obc_cmd_armed_opcode (cmd_q s) \<noteq> ucast opcode
        then refuse OBC_CMD_REJECT_NOT_ARMED reason s
      else (let when = get_u32 frame OBC_CMD_O_WHEN
      in case obc_cmd_queue_put opcode when arg counter (cmd_q s) of
        (st, q) \<Rightarrow>
      if st \<noteq> OBC_OK then refuse OBC_CMD_REJECT_QUEUE reason (s\<lparr>cmd_q := q\<rparr>)
      else (OBC_OK, map_option (\<lambda>_. of_nat OBC_CMD_REJECT_COUNT) reason,
            s\<lparr>cmd_q := q, s_last_counter := counter,
              obc_cmd_accepted := sat_inc (obc_cmd_accepted s)\<rparr>)))))))"

section \<open>Polling the uplink\<close>

text \<open>The loop, with the byte budget left as its first argument; it returns how many bytes it
  took.\<close>

fun poll_loop :: "nat \<Rightarrow> obc_cmd list \<Rightarrow> nat \<Rightarrow> 'a cmd_state_scheme \<Rightarrow> nat \<times> 'a cmd_state_scheme" where
  "poll_loop 0 table taken s = (taken, s)"
| "poll_loop (Suc budget) table taken s =
     (case obc_uart_uplink_getc (Some 0) (hw s) of
        (st, byte, h) \<Rightarrow>
          if st \<noteq> OBC_OK then (taken, s\<lparr>hw := h\<rparr>)
          else (let s1 = s\<lparr>hw := h, s_rx := (s_rx s)[s_fill s := the byte], s_fill := s_fill s + 1\<rparr>
                in if s_fill s1 = OBC_CMD_FRAME_LEN
                   then (case obc_cmd_ingest table (Some (s_rx s1)) OBC_CMD_FRAME_LEN None s1 of
                           (_, _, s2) \<Rightarrow> poll_loop budget table (taken + 1) (s2\<lparr>s_fill := 0\<rparr>))
                   else poll_loop budget table (taken + 1) s1))"

definition obc_cmd_poll :: "obc_cmd list \<Rightarrow> 'a cmd_state_scheme \<Rightarrow> 'a cmd_state_scheme" where
  "obc_cmd_poll table s =
     (if s_table_ok s = 0 then s
      else (case poll_loop OBC_CMD_RX_BYTES table 0 s of
              (taken, s1) \<Rightarrow>
                if taken = 0 \<and> s_fill s1 \<noteq> 0
                then snd (snd (refuse OBC_CMD_REJECT_LENGTH None
                       (s1\<lparr>s_fill := 0, obc_cmd_examined := sat_inc (obc_cmd_examined s1)\<rparr>)))
                else s1))"

section \<open>Initialisation and audit\<close>

fun cmd_layout_audit :: "cmd_field list \<Rightarrow> u32 \<Rightarrow> u32 option" where
  "cmd_layout_audit [] expected = Some expected"
| "cmd_layout_audit (f # fs) expected =
     (if ucast (cf_offset f) \<noteq> expected then None
      else cmd_layout_audit fs (expected + ucast (cf_width f)))"

text \<open>The row loop: a handler, a range that admits something, and no earlier row with the
  same opcode. The rows already seen are the first argument.\<close>

fun cmd_rows_audit :: "obc_cmd list \<Rightarrow> obc_cmd list \<Rightarrow> bool" where
  "cmd_rows_audit seen [] \<longleftrightarrow> True"
| "cmd_rows_audit seen (row # rows) \<longleftrightarrow>
     cd_fn row \<noteq> None \<and> \<not> cd_arg_min row > cd_arg_max row \<and>
     \<not> list_ex (\<lambda>r. cd_opcode r = cd_opcode row) seen \<and> cmd_rows_audit (seen @ [row]) rows"

definition obc_cmd_init ::
  "cmd_field list \<Rightarrow> obc_cmd list \<Rightarrow> 'a cmd_state_scheme \<Rightarrow> obc_status \<times> 'a cmd_state_scheme" where
  "obc_cmd_init layout table s =
     (if table = [] then (OBC_ERR_INVALID, s)
      else if cmd_layout_audit layout 0 \<noteq> Some (of_nat OBC_CMD_FRAME_LEN) then (OBC_ERR_INVALID, s)
      else if \<not> cmd_rows_audit [] table then (OBC_ERR_INVALID, s)
      else (OBC_OK, s\<lparr>cmd_q := obc_cmd_queue_init (cmd_q s), obc_cmd_examined := 0, obc_cmd_accepted := 0,
              s_fill := 0, obc_cmd_announced := 0, s_last_counter := 0,
              obc_cmd_rejected := replicate OBC_CMD_REJECT_COUNT 0, s_table_ok := 1\<rparr>))"

section \<open>The audits\<close>

interpretation cmd_layout: layout_audit "\<lambda>f. True" "\<lambda>f. ucast (cf_offset f)" "\<lambda>f. ucast (cf_width f)"
  cmd_layout_audit
proof unfold_locales
  fix f :: cmd_field
  show "unat (ucast (cf_offset f) :: u32) < 65536"
    using unat_u16_less [of "cf_offset f"] by simp
  show "unat (ucast (cf_width f) :: u32) < 65536"
    using unat_u8_less [of "cf_width f"] by simp
qed simp_all

lemma cmd_rows_audit_iff:
  "cmd_rows_audit seen rows \<longleftrightarrow>
     (\<forall>row \<in> set rows. cd_fn row \<noteq> None \<and> cd_arg_min row \<le> cd_arg_max row) \<and>
     distinct (map cd_opcode rows) \<and> cd_opcode ` set seen \<inter> cd_opcode ` set rows = {}"
  by (induction seen rows rule: cmd_rows_audit.induct)
     (auto simp: list_ex_iff not_less, metis image_eqI)

lemma lookup_distinct:
  "distinct (map cd_opcode table) \<Longrightarrow> row \<in> set table \<Longrightarrow> lookup table (cd_opcode row) = Some row"
  unfolding lookup_def by (induction table) (auto simp: image_iff)

section \<open>What an ingest does\<close>

text \<open>The first check that fails, or \<open>OBC_CMD_REJECT_COUNT\<close>.\<close>

definition verdict :: "obc_cmd list \<Rightarrow> u8 list \<Rightarrow> nat \<Rightarrow> 'a cmd_state_scheme \<Rightarrow> nat" where
  "verdict table frame len s =
     (if len \<noteq> OBC_CMD_FRAME_LEN then OBC_CMD_REJECT_LENGTH
      else if get_u32 frame OBC_CMD_O_SYNC \<noteq> OBC_CMD_SYNC then OBC_CMD_REJECT_SYNC
      else if get_u8 frame OBC_CMD_O_LENGTH \<noteq> of_nat OBC_CMD_FRAME_LEN then OBC_CMD_REJECT_LENGTH
      else if get_u16 frame OBC_CMD_O_SUM \<noteq> obc_cmd_sum frame OBC_CMD_O_SUM then OBC_CMD_REJECT_SUM
      else case lookup table (ucast (get_u8 frame OBC_CMD_O_OPCODE)) of
        None \<Rightarrow> OBC_CMD_REJECT_OPCODE
      | Some cmd \<Rightarrow>
          if get_u32 frame OBC_CMD_O_ARG < cd_arg_min cmd \<or> get_u32 frame OBC_CMD_O_ARG > cd_arg_max cmd
          then OBC_CMD_REJECT_ARG
          else if get_u32 frame OBC_CMD_O_COUNTER \<le> s_last_counter s then OBC_CMD_REJECT_REPLAY
          else if cd_critical cmd \<noteq> 0 \<and>
                  obc_cmd_armed_opcode (cmd_q s) \<noteq> ucast (ucast (get_u8 frame OBC_CMD_O_OPCODE) :: u8)
          then OBC_CMD_REJECT_NOT_ARMED
          else if free_slot (cmd_q s) = None then OBC_CMD_REJECT_QUEUE else OBC_CMD_REJECT_COUNT)"

definition count_examined :: "'a cmd_state_scheme \<Rightarrow> 'a cmd_state_scheme" where
  "count_examined s = s\<lparr>obc_cmd_examined := sat_inc (obc_cmd_examined s)\<rparr>"

definition accept_frame :: "u8 list \<Rightarrow> 'a cmd_state_scheme \<Rightarrow> 'a cmd_state_scheme" where
  "accept_frame frame s =
     s\<lparr>cmd_q := snd (obc_cmd_queue_put (ucast (get_u8 frame OBC_CMD_O_OPCODE)) (get_u32 frame OBC_CMD_O_WHEN)
           (get_u32 frame OBC_CMD_O_ARG) (get_u32 frame OBC_CMD_O_COUNTER) (cmd_q s)),
       s_last_counter := get_u32 frame OBC_CMD_O_COUNTER,
       obc_cmd_accepted := sat_inc (obc_cmd_accepted s)\<rparr>"

lemmas cmd_rejects =
  OBC_CMD_REJECT_SYNC_def OBC_CMD_REJECT_LENGTH_def OBC_CMD_REJECT_SUM_def OBC_CMD_REJECT_OPCODE_def
  OBC_CMD_REJECT_ARG_def OBC_CMD_REJECT_REPLAY_def OBC_CMD_REJECT_QUEUE_def
  OBC_CMD_REJECT_NOT_ARMED_def OBC_CMD_REJECT_COUNT_def

lemma count_examined_sel [simp]:
  "s_last_counter (count_examined s) = s_last_counter s" "cmd_q (count_examined s) = cmd_q s"
  "obc_cmd_rejected (count_examined s) = obc_cmd_rejected s"
  "obc_cmd_accepted (count_examined s) = obc_cmd_accepted s"
  "obc_cmd_examined (count_examined s) = sat_inc (obc_cmd_examined s)"
  "obc_cmd_announced (count_examined s) = obc_cmd_announced s" "s_table_ok (count_examined s) = s_table_ok s"
  "s_rx (count_examined s) = s_rx s" "s_fill (count_examined s) = s_fill s" "hw (count_examined s) = hw s"
  by (simp_all add: count_examined_def)

lemma ingest_eq:
  assumes "s_table_ok s \<noteq> 0"
  shows "obc_cmd_ingest table (Some frame) len reason s =
    (let v = verdict table frame len s
     in if v = OBC_CMD_REJECT_COUNT
        then (OBC_OK, map_option (\<lambda>_. of_nat v) reason, accept_frame frame (count_examined s))
        else refuse v reason (count_examined s))"
  using assms
  by (auto simp: obc_cmd_ingest_def verdict_def Let_def count_examined_def [symmetric] accept_frame_def
      obc_cmd_queue_put_def cmd_rejects split: option.splits prod.splits)
     (simp_all add: count_examined_def)

lemma ingest_off:
  "s_table_ok s = 0 \<or> fp = None \<Longrightarrow> obc_cmd_ingest table fp len reason s = (OBC_ERR_INVALID, reason, s)"
  by (auto simp: obc_cmd_ingest_def split: option.splits)

lemma verdict_le: "verdict table frame len s \<le> OBC_CMD_REJECT_COUNT"
  by (simp add: verdict_def cmd_rejects split: option.splits)

text \<open>A refusal touches its own counter, the announcement mask and the console.\<close>

definition same_but_counters :: "'a cmd_state_scheme \<Rightarrow> 'a cmd_state_scheme \<Rightarrow> bool" where
  "same_but_counters s s' \<longleftrightarrow>
     s' = s\<lparr>hw := hw s', obc_cmd_examined := obc_cmd_examined s', obc_cmd_rejected := obc_cmd_rejected s',
             obc_cmd_announced := obc_cmd_announced s'\<rparr>"

lemma same_but_counters_sel:
  assumes "same_but_counters s s'"
  shows "cmd_q s' = cmd_q s" "s_last_counter s' = s_last_counter s" "s_table_ok s' = s_table_ok s"
    "obc_cmd_accepted s' = obc_cmd_accepted s" "s_rx s' = s_rx s" "s_fill s' = s_fill s"
proof -
  note e = assms [unfolded same_but_counters_def]
  show "cmd_q s' = cmd_q s" using arg_cong [OF e, of cmd_q] by simp
  show "s_last_counter s' = s_last_counter s" using arg_cong [OF e, of s_last_counter] by simp
  show "s_table_ok s' = s_table_ok s" using arg_cong [OF e, of s_table_ok] by simp
  show "obc_cmd_accepted s' = obc_cmd_accepted s" using arg_cong [OF e, of obc_cmd_accepted] by simp
  show "s_rx s' = s_rx s" using arg_cong [OF e, of s_rx] by simp
  show "s_fill s' = s_fill s" using arg_cong [OF e, of s_fill] by simp
qed

lemma same_but_counters_examined:
  assumes "same_but_counters (count_examined s) s'"
  shows "same_but_counters s s'"
  using assms by (simp add: same_but_counters_def count_examined_def)

lemma announce_once_frame:
  "same_but_counters s (announce_once r s)" "obc_cmd_examined (announce_once r s) = obc_cmd_examined s"
  "obc_cmd_rejected (announce_once r s) = obc_cmd_rejected s"
  "obc_cmd_announced s AND push_bit r 1 \<noteq> 0 \<Longrightarrow> announce_once r s = s"
  by (simp_all add: announce_once_def same_but_counters_def on_hw_def)

lemma refuse_effect:
  assumes "refuse r out s = (st, out', s')"
  shows "st = OBC_ERR_INVALID" "out' = map_option (\<lambda>_. of_nat r) out" "same_but_counters s s'"
    "obc_cmd_rejected s' = (obc_cmd_rejected s)[r := sat_inc (obc_cmd_rejected s ! r)]"
    "obc_cmd_examined s' = obc_cmd_examined s"
    "obc_cmd_announced s AND push_bit r 1 \<noteq> 0 \<Longrightarrow> hw s' = hw s"
  using assms unfolding refuse_def Let_def
  by (auto simp: announce_once_def same_but_counters_def on_hw_def split: if_splits)

text \<open>The two outcomes of an ingest, on everything a later lemma asks about.\<close>

lemma ingest_accepted:
  assumes "obc_cmd_ingest table (Some frame) len reason s = (OBC_OK, reason', s')"
  shows "s_table_ok s \<noteq> 0" "verdict table frame len s = OBC_CMD_REJECT_COUNT"
    "s' = accept_frame frame (count_examined s)"
proof -
  show ok: "s_table_ok s \<noteq> 0" using assms by (auto simp: ingest_off)
  show v: "verdict table frame len s = OBC_CMD_REJECT_COUNT"
    using assms unfolding ingest_eq [OF ok] Let_def
    by (auto simp: refuse_def split: if_splits)
  show "s' = accept_frame frame (count_examined s)"
    using assms unfolding ingest_eq [OF ok] Let_def v by simp
qed

lemma ingest_refused:
  assumes "obc_cmd_ingest table (Some frame) len reason s = (st, reason', s')"
    and "st \<noteq> OBC_OK" and "s_table_ok s \<noteq> 0"
  shows "verdict table frame len s < OBC_CMD_REJECT_COUNT"
    "refuse (verdict table frame len s) reason (count_examined s) = (st, reason', s')"
proof -
  have v: "verdict table frame len s \<noteq> OBC_CMD_REJECT_COUNT"
    using assms unfolding ingest_eq [OF assms(3)] Let_def by auto
  then show "verdict table frame len s < OBC_CMD_REJECT_COUNT"
    using verdict_le [of table frame len s] by simp
  show "refuse (verdict table frame len s) reason (count_examined s) = (st, reason', s')"
    using assms(1) v unfolding ingest_eq [OF assms(3)] Let_def by simp
qed

section \<open>Everything the outside can do to the command path\<close>

inductive cmd_step :: "obc_cmd list \<Rightarrow> 'a cmd_state_scheme \<Rightarrow> 'a cmd_state_scheme \<Rightarrow> bool"
  for table where
  ingest: "obc_cmd_ingest table fp len reason s = (st, reason', s') \<Longrightarrow> cmd_step table s s'"
| poll: "cmd_step table s (obc_cmd_poll table s)"
| execute: "cmd_step table s (s\<lparr>cmd_q := obc_cmd_queue_run table now frame (cmd_q s)\<rparr>)"
| forget: "cmd_step table s (s\<lparr>cmd_q := obc_cmd_queue_init (cmd_q s)\<rparr>)"

text \<open>One turn of the poll loop: the link is empty, a byte joins the buffer, or it completes a frame.\<close>

definition collected :: "u8 ptr \<Rightarrow> hw \<Rightarrow> 'a cmd_state_scheme \<Rightarrow> 'a cmd_state_scheme" where
  "collected byte h s = s\<lparr>hw := h, s_rx := (s_rx s)[s_fill s := the byte], s_fill := s_fill s + 1\<rparr>"

lemma collected_sel [simp]:
  "hw (collected b h s) = h" "s_rx (collected b h s) = (s_rx s)[s_fill s := the b]"
  "s_fill (collected b h s) = s_fill s + 1" "s_table_ok (collected b h s) = s_table_ok s"
  "obc_cmd_examined (collected b h s) = obc_cmd_examined s" "cmd_q (collected b h s) = cmd_q s"
  "s_last_counter (collected b h s) = s_last_counter s"
  by (simp_all add: collected_def)

lemma poll_loop_turn:
  obtains (empty) st byte h where "obc_uart_uplink_getc (Some 0) (hw s) = (st, byte, h)" "st \<noteq> OBC_OK"
      "poll_loop (Suc budget) table taken s = (taken, s\<lparr>hw := h\<rparr>)"
  | (byte) byte h where "obc_uart_uplink_getc (Some 0) (hw s) = (OBC_OK, byte, h)"
      "s_fill s + 1 \<noteq> OBC_CMD_FRAME_LEN"
      "poll_loop (Suc budget) table taken s = poll_loop budget table (taken + 1) (collected byte h s)"
  | (frame) byte h st reason s2 where "obc_uart_uplink_getc (Some 0) (hw s) = (OBC_OK, byte, h)"
      "s_fill s + 1 = OBC_CMD_FRAME_LEN"
      "obc_cmd_ingest table (Some (s_rx (collected byte h s))) OBC_CMD_FRAME_LEN None (collected byte h s) = (st, reason, s2)"
      "poll_loop (Suc budget) table taken s = poll_loop budget table (taken + 1) (s2\<lparr>s_fill := 0\<rparr>)"
proof -
  obtain st byte h where g: "obc_uart_uplink_getc (Some 0) (hw s) = (st, byte, h)" by (metis prod_cases3)
  obtain st' r s2 where i: "obc_cmd_ingest table (Some (s_rx (collected byte h s))) OBC_CMD_FRAME_LEN None
      (collected byte h s) = (st', r, s2)" by (metis prod_cases3)
  note loop = poll_loop.simps(2) [of budget table taken s, unfolded g prod.case Let_def collected_def [symmetric]]
  show thesis
  proof (cases "st = OBC_OK")
    case False
    then show thesis using loop g by (intro empty) simp_all
  next
    case ok: True
    show thesis
    proof (cases "s_fill s + 1 = OBC_CMD_FRAME_LEN")
      case True
      show thesis by (rule frame [OF _ True i]) (use loop g ok True i in simp_all)
    next
      case False
      show thesis by (rule byte [OF _ False]) (use loop g ok False in simp_all)
    qed
  qed
qed

text \<open>An invariant every ingest and every refusal keeps is kept by a poll.\<close>

lemma poll_loop_keeps:
  assumes "P s"
    and ingest: "\<And>fp len reason s st reason' s'. obc_cmd_ingest table fp len reason s = (st, reason', s') \<Longrightarrow>
      P s \<Longrightarrow> P s'"
    and rx: "\<And>s h b n. P s \<Longrightarrow> P (s\<lparr>hw := h, s_rx := b, s_fill := n\<rparr>)"
      "\<And>s n. P s \<Longrightarrow> P (s\<lparr>s_fill := n\<rparr>)" "\<And>s h. P s \<Longrightarrow> P (s\<lparr>hw := h\<rparr>)"
  shows "P (snd (poll_loop budget table taken s))"
  using assms(1)
proof (induction budget arbitrary: taken s)
  case 0
  then show ?case by simp
next
  case (Suc budget)
  have p: "P (collected b h s)" for b h unfolding collected_def by (rule rx(1) [OF Suc.prems])
  show ?case
  proof (cases rule: poll_loop_turn [of s budget table taken])
    case (empty st byte h)
    then show ?thesis using rx(3) [OF Suc.prems] by simp
  next
    case (byte byte h)
    then show ?thesis using Suc.IH [OF p] by simp
  next
    case (frame byte h st reason s2)
    then show ?thesis using Suc.IH [OF rx(2) [OF ingest [OF frame(3) p]]] by simp
  qed
qed

text \<open>The counters: nothing is examined without being counted in one of the columns.\<close>

definition balanced :: "'a cmd_state_scheme \<Rightarrow> bool" where
  "balanced s \<longleftrightarrow> length (obc_cmd_rejected s) = OBC_CMD_REJECT_COUNT \<and>
     (obc_cmd_examined s = 0xFFFFFFFF \<or>
      unat (obc_cmd_examined s) = unat (obc_cmd_accepted s) + (\<Sum>c\<leftarrow>obc_cmd_rejected s. unat c))"

lemma sat_inc_max [simp]: "sat_inc 0xFFFFFFFF = 0xFFFFFFFF"
  by (simp add: sat_inc_def)

lemma sum_bump:
  assumes "r < length cs" and "unat (cs ! r) < 4294967295"
  shows "(\<Sum>c\<leftarrow>cs[r := sat_inc (cs ! r)]. unat c) = (\<Sum>c\<leftarrow>cs. unat c) + 1"
  using assms
proof (induction cs arbitrary: r)
  case Nil
  then show ?case by simp
next
  case (Cons c cs)
  then show ?case by (cases r) (simp_all add: unat_sat_inc)
qed

lemma nth_le_sum: "r < length cs \<Longrightarrow> unat (cs ! r :: u32) \<le> (\<Sum>c\<leftarrow>cs. unat c)"
  by (induction cs arbitrary: r) (auto simp: nth_Cons split: nat.splits intro: trans_le_add2)

lemma balanced_refuse:
  assumes "balanced s" and "r < OBC_CMD_REJECT_COUNT"
    and "refuse r out (count_examined s) = (st, out', s')"
  shows "balanced s'"
proof -
  note e = refuse_effect(3-5) [OF assms(3)]
  have len: "r < length (obc_cmd_rejected s)" using assms(1,2) by (simp add: balanced_def)
  have acc: "obc_cmd_accepted s' = obc_cmd_accepted s" using same_but_counters_sel(4) [OF e(1)] by simp
  show ?thesis
  proof (cases "obc_cmd_examined s = 0xFFFFFFFF")
    case True
    then show ?thesis using assms(1) e by (simp add: balanced_def)
  next
    case False
    then have u: "unat (obc_cmd_examined s) < 4294967295" by (rule unat_less_max)
    have eq: "unat (obc_cmd_examined s) = unat (obc_cmd_accepted s) + (\<Sum>c\<leftarrow>obc_cmd_rejected s. unat c)"
      using assms(1) False by (simp add: balanced_def)
    have "unat (obc_cmd_rejected s ! r) < 4294967295" using nth_le_sum [OF len] u eq by linarith
    note b = sum_bump [OF len this]
    have "unat (sat_inc (obc_cmd_examined s)) = unat (obc_cmd_examined s) + 1"
      using u by (simp add: unat_sat_inc)
    then show ?thesis using assms(1) e acc b eq by (simp add: balanced_def)
  qed
qed

lemma balanced_ingest:
  assumes "obc_cmd_ingest table fp len reason s = (st, reason', s')" and "balanced s"
  shows "balanced s'"
proof (cases "s_table_ok s = 0 \<or> fp = None")
  case True
  then show ?thesis using assms by (simp add: ingest_off)
next
  case False
  then obtain frame where f: "fp = Some frame" and ok: "s_table_ok s \<noteq> 0" by auto
  show ?thesis
  proof (cases "st = OBC_OK")
    case False
    note r = ingest_refused [OF assms(1) [unfolded f] False ok]
    show ?thesis by (rule balanced_refuse [OF assms(2) r])
  next
    case True
    have s': "s' = accept_frame frame (count_examined s)"
      using ingest_accepted(3) assms(1) f True by blast
    show ?thesis
    proof (cases "obc_cmd_examined s = 0xFFFFFFFF")
      case True
      then show ?thesis using assms(2) s' by (simp add: balanced_def accept_frame_def)
    next
      case False
      then have "unat (obc_cmd_examined s) < 4294967295" by (rule unat_less_max)
      then show ?thesis
        using assms(2) s' False by (simp add: balanced_def accept_frame_def unat_sat_inc)
    qed
  qed
qed

lemma balanced_poll:
  assumes "balanced s"
  shows "balanced (obc_cmd_poll table s)"
proof -
  obtain taken s1 where p: "poll_loop OBC_CMD_RX_BYTES table 0 s = (taken, s1)" by fastforce
  have "balanced (snd (poll_loop OBC_CMD_RX_BYTES table 0 s))"
    by (rule poll_loop_keeps [where P = balanced, OF assms balanced_ingest]) (simp_all add: balanced_def)
  then have b: "balanced s1" using p by simp
  obtain st out s2 where r: "refuse OBC_CMD_REJECT_LENGTH None (count_examined (s1\<lparr>s_fill := 0\<rparr>)) = (st, out, s2)"
    by (metis prod_cases3)
  have "balanced s2"
    by (rule balanced_refuse [OF _ _ r]) (use b in \<open>simp_all add: balanced_def cmd_rejects\<close>)
  then show ?thesis using b assms p r by (simp add: obc_cmd_poll_def count_examined_def)
qed

lemma balanced_step: "cmd_step table s s' \<Longrightarrow> balanced s \<Longrightarrow> balanced s'"
proof (induction rule: cmd_step.induct)
  case (execute s now frame)
  then show ?case by (simp add: balanced_def)
next
  case (forget s)
  then show ?case by (simp add: balanced_def)
qed (simp_all add: balanced_poll balanced_ingest)

text \<open>The replay guard: the last accepted counter never goes back.\<close>

lemma refuse_last_counter:
  "s_last_counter (snd (snd (refuse r out s))) = s_last_counter s"
  using same_but_counters_sel(2) refuse_effect(3) by (metis prod.collapse)

lemma ingest_last_counter:
  assumes "obc_cmd_ingest table fp len reason s = (st, reason', s')"
  shows "s_last_counter s \<le> s_last_counter s'"
proof (cases "s_table_ok s = 0 \<or> fp = None")
  case True
  then show ?thesis using assms by (simp add: ingest_off)
next
  case False
  then obtain frame where f: "fp = Some frame" and ok: "s_table_ok s \<noteq> 0" by auto
  show ?thesis
  proof (cases "st = OBC_OK")
    case True
    then have a: "obc_cmd_ingest table (Some frame) len reason s = (OBC_OK, reason', s')"
      using assms f by simp
    have "s_last_counter s \<le> get_u32 frame OBC_CMD_O_COUNTER"
      using ingest_accepted(2) [OF a]
      by (auto simp: verdict_def cmd_rejects split: if_splits option.splits)
    then show ?thesis using ingest_accepted(3) [OF a] by (simp add: accept_frame_def)
  next
    case False
    from refuse_last_counter ingest_refused(2) [OF assms [unfolded f] False ok] show ?thesis
      by (metis count_examined_sel(1) order_refl snd_conv)
  qed
qed

lemma step_last_counter: "cmd_step table s s' \<Longrightarrow> s_last_counter s \<le> s_last_counter s'"
proof (induction rule: cmd_step.induct)
  case (ingest fp len reason s st reason' s')
  then show ?case by (rule ingest_last_counter)
next
  case (poll s)
  obtain taken s1 where p: "poll_loop OBC_CMD_RX_BYTES table 0 s = (taken, s1)" by fastforce
  have "s_last_counter s \<le> s_last_counter (snd (poll_loop OBC_CMD_RX_BYTES table 0 s))"
    by (rule poll_loop_keeps [where P = "\<lambda>t. s_last_counter s \<le> s_last_counter t"])
       (auto dest: ingest_last_counter)
  then show ?case using p by (simp add: obc_cmd_poll_def refuse_last_counter)
qed simp_all

lemma steps_last_counter: "(cmd_step table)\<^sup>*\<^sup>* s s' \<Longrightarrow> s_last_counter s \<le> s_last_counter s'"
  by (induction rule: rtranclp_induct) (auto dest: step_last_counter)

section \<open>The integrity word\<close>

text \<open>One step of the sum, and the whole of it, as arithmetic: ones' complement addition.\<close>

lemma sum_step_value:
  assumes "unat acc \<le> 65535"
  shows "unat (sum_step b acc) =
    (if unat acc + unat b \<le> 65535 then unat acc + unat b else unat acc + unat b - 65535)"
proof -
  have b: "unat b < 256" by (rule unat_u8_less)
  have t: "unat (acc + ucast b) = unat acc + unat b" using assms b by (simp add: unat_word_ariths)
  have d: "unat (drop_bit 16 (acc + ucast b)) = (unat acc + unat b) div 65536"
    using t by (simp add: drop_bit_eq_div unat_div_distrib)
  have d1: "(unat acc + unat b) div 65536 \<le> 1" using assms b by linarith
  have s: "unat (acc + ucast b + drop_bit 16 (acc + ucast b)) =
      unat acc + unat b + (unat acc + unat b) div 65536"
    using t d d1 assms b by (simp add: unat_word_ariths)
  have m: "unat (x AND 0xFFFF) = unat x mod 65536" for x :: u32
  proof -
    have "x AND 0xFFFF = take_bit 16 x"
      using take_bit_eq_mask [of 16 x] by (simp add: mask_eq_exp_minus_1)
    then have "unat (x AND 0xFFFF) = take_bit 16 (unat x)" by (simp only: unsigned_take_bit_eq)
    then show ?thesis by (simp add: take_bit_eq_mod)
  qed
  have "unat (sum_step b acc) = (unat acc + unat b + (unat acc + unat b) div 65536) mod 65536"
    unfolding sum_step_def Let_def m s ..
  then show ?thesis using assms b by (auto simp: div_if mod_if not_le)
qed

lemma sum_value:
  assumes "unat acc \<le> 65535"
  shows "unat (fold sum_step bs acc) \<le> 65535 \<and>
    (let t = unat acc + (\<Sum>b\<leftarrow>bs. unat b)
     in unat (fold sum_step bs acc) = (if t = 0 then 0 else (t - 1) mod 65535 + 1))"
  using assms
proof (induction bs arbitrary: acc)
  case Nil
  then show ?case by (auto simp: Let_def)
next
  case (Cons b bs)
  have b: "unat b < 256" by (rule unat_u8_less)
  note v = sum_step_value [OF Cons.prems, of b]
  have le: "unat (sum_step b acc) \<le> 65535" using v Cons.prems b by auto
  let ?r = "\<Sum>b\<leftarrow>bs. unat b"
  have "(unat (sum_step b acc) + ?r = 0) = (unat acc + (unat b + ?r) = 0)"
    using v by auto
  moreover have "(unat (sum_step b acc) + ?r - 1) mod 65535 = (unat acc + (unat b + ?r) - 1) mod 65535"
  proof (cases "unat acc + unat b \<le> 65535")
    case False
    then have "unat acc + (unat b + ?r) - 1 = unat (sum_step b acc) + ?r - 1 + 65535"
      using v by simp
    then show ?thesis by (metis mod_add_self2)
  qed (simp add: v add.assoc)
  ultimately show ?case using Cons.IH [OF le] by (simp add: Let_def)
qed

lemma ones_complement_differs:
  fixes S T a b :: nat
  assumes "T + a = S + b" and "a \<noteq> b" and "a < 256" and "b < 256"
  shows "(if T = 0 then 0 else (T - 1) mod 65535 + 1) \<noteq> (if S = 0 then 0 else (S - 1) mod 65535 + 1)"
proof -
  have up: "(if s + d = 0 then 0 else (s + d - 1) mod 65535 + 1) \<noteq> (if s = 0 then 0 else (s - 1) mod 65535 + 1)"
    if "0 < d" "d < 256" for s d :: nat
  proof (cases s)
    case (Suc k)
    have "(k + d) mod 65535 \<noteq> k mod 65535"
      using that mod_eq_dvd_iff_nat [of k "k + d" 65535] by (auto dest: dvd_imp_le)
    then show ?thesis using Suc by simp
  qed (use that in simp)
  consider "a < b" | "b < a" using assms(2) by linarith
  then show ?thesis
  proof cases
    case 1
    then have "T = S + (b - a)" using assms(1) by simp
    then show ?thesis using up [of "b - a" S] 1 assms(4) by simp
  next
    case 2
    then have S: "S = T + (a - b)" using assms(1) by simp
    have "0 < a - b" "a - b < 256" using 2 assms(3) by simp_all
    from up [OF this, of T] show ?thesis unfolding S by (rule not_sym)
  qed
qed

text \<open>Two byte strings of the same length that differ in one byte have different sums.\<close>

lemma sum_one_byte:
  assumes "i < length bs" and "b \<noteq> bs ! i"
  shows "fold sum_step (bs[i := b]) 0 \<noteq> fold sum_step bs 0"
proof
  assume eq: "fold sum_step (bs[i := b]) 0 = fold sum_step bs 0"
  let ?S = "\<Sum>b\<leftarrow>bs. unat b" and ?T = "\<Sum>b\<leftarrow>bs[i := b]. unat b"
  have t: "?T + unat (bs ! i) = ?S + unat b"
    using assms(1) elem_le_sum_list [of i "map unat bs"] by (simp add: map_update sum_list_update)
  have ne: "unat b \<noteq> unat (bs ! i)" using assms(2) by (simp add: unsigned_word_eqI word_unat_eq_iff)
  have "(if ?T = 0 then 0 else (?T - 1) mod 65535 + 1) = (if ?S = 0 then 0 else (?S - 1) mod 65535 + 1)"
    using sum_value [of 0 bs] sum_value [of 0 "bs[i := b]"] eq by (simp add: Let_def)
  then show False
    using ones_complement_differs [OF t] ne unat_u8_less [of b] unat_u8_less [of "bs ! i"] by metis
qed

section \<open>Polling\<close>

text \<open>The collector: as many whole frames as bytes, and never outside its buffer.\<close>

definition wf_rx :: "'a cmd_state_scheme \<Rightarrow> bool" where
  "wf_rx s \<longleftrightarrow> s_fill s < OBC_CMD_FRAME_LEN \<and> length (s_rx s) = OBC_CMD_FRAME_LEN"

lemma ingest_rx:
  assumes "obc_cmd_ingest table fp len reason s = (st, reason', s')"
  shows "s_rx s' = s_rx s" "s_fill s' = s_fill s" "s_table_ok s' = s_table_ok s"
    "obc_cmd_examined s' = (if s_table_ok s = 0 \<or> fp = None then obc_cmd_examined s else sat_inc (obc_cmd_examined s))"
proof -
  have "s_rx s' = s_rx s \<and> s_fill s' = s_fill s \<and> s_table_ok s' = s_table_ok s \<and>
    obc_cmd_examined s' = (if s_table_ok s = 0 \<or> fp = None then obc_cmd_examined s else sat_inc (obc_cmd_examined s))"
  proof (cases "s_table_ok s = 0 \<or> fp = None")
    case True
    then show ?thesis using assms by (auto simp: ingest_off)
  next
    case False
    then obtain frame where f: "fp = Some frame" and ok: "s_table_ok s \<noteq> 0" by auto
    show ?thesis
    proof (cases "st = OBC_OK")
      case True
      then have "s' = accept_frame frame (count_examined s)" using ingest_accepted(3) assms f by blast
      then show ?thesis using f ok by (simp add: accept_frame_def)
    next
      case False
      note r = ingest_refused(2) [OF assms [unfolded f] False ok]
      show ?thesis using same_but_counters_sel [OF refuse_effect(3) [OF r]] refuse_effect(5) [OF r] f ok by simp
    qed
  qed
  then show "s_rx s' = s_rx s" "s_fill s' = s_fill s" "s_table_ok s' = s_table_ok s"
    "obc_cmd_examined s' = (if s_table_ok s = 0 \<or> fp = None then obc_cmd_examined s else sat_inc (obc_cmd_examined s))"
    by simp_all
qed

text \<open>Adding \<open>k\<close> to a saturating counter.\<close>

definition sat_add :: "nat \<Rightarrow> u32 \<Rightarrow> u32" where
  "sat_add k c = (sat_inc ^^ k) c"

lemma unat_sat_add: "unat (sat_add k c) = min 4294967295 (unat c + k)"
proof (induction k)
  case 0
  have "unat c < 4294967296" using unsigned_less [of c, where 'a = nat] by simp
  then show ?case by (simp add: sat_add_def)
next
  case (Suc k)
  then show ?case by (simp add: sat_add_def unat_sat_inc)
qed

lemma sat_add_Suc: "sat_add (Suc k) c = sat_add k (sat_inc c)"
  by (simp add: sat_add_def funpow_swap1)

lemma poll_loop_collects:
  assumes "wf_rx s" and "s_table_ok s \<noteq> 0" and "poll_loop budget table taken s = (taken', s')"
  shows "\<exists>k \<le> budget. taken' = taken + k \<and> wf_rx s' \<and> s_table_ok s' \<noteq> 0 \<and>
    s_fill s' = (s_fill s + k) mod OBC_CMD_FRAME_LEN \<and>
    obc_cmd_examined s' = sat_add ((s_fill s + k) div OBC_CMD_FRAME_LEN) (obc_cmd_examined s)"
  using assms
proof (induction budget arbitrary: taken s)
  case 0
  then show ?case by (auto simp: wf_rx_def sat_add_def)
next
  case (Suc budget)
  have fill: "s_fill s < 20" "OBC_CMD_FRAME_LEN = 20" "length (s_rx s) = 20"
    using Suc.prems(1) by (simp_all add: wf_rx_def cmd_layout)
  show ?case
  proof (cases rule: poll_loop_turn [of s budget table taken])
    case (empty st byte h)
    then have "taken' = taken" "s' = s\<lparr>hw := h\<rparr>" using Suc.prems(3) by simp_all
    then show ?thesis using Suc.prems(1,2) fill by (intro exI [of _ 0]) (simp add: wf_rx_def sat_add_def)
  next
    case (byte byte h)
    have "wf_rx (collected byte h s)" "s_table_ok (collected byte h s) \<noteq> 0"
      "poll_loop budget table (taken + 1) (collected byte h s) = (taken', s')"
      using byte(2,3) fill Suc.prems(2,3) by (simp_all add: wf_rx_def del: poll_loop.simps)
    from Suc.IH [OF this] obtain k where "k \<le> budget" "taken' = taken + 1 + k" "wf_rx s'"
      "s_table_ok s' \<noteq> 0" "s_fill s' = (s_fill s + 1 + k) mod OBC_CMD_FRAME_LEN"
      "obc_cmd_examined s' = sat_add ((s_fill s + 1 + k) div OBC_CMD_FRAME_LEN) (obc_cmd_examined s)"
      by auto
    then show ?thesis by (intro exI [of _ "Suc k"]) simp
  next
    case (frame byte h st reason s2)
    let ?s2 = "s2\<lparr>s_fill := 0\<rparr>"
    have w: "wf_rx ?s2" "s_table_ok ?s2 \<noteq> 0" "obc_cmd_examined ?s2 = sat_inc (obc_cmd_examined s)"
      using ingest_rx [OF frame(3)] fill Suc.prems(2) by (simp_all add: wf_rx_def)
    have "poll_loop budget table (taken + 1) ?s2 = (taken', s')" using frame(4) Suc.prems(3) by simp
    from Suc.IH [OF w(1,2) this] obtain k where k: "k \<le> budget" "taken' = taken + 1 + k" "wf_rx s'"
      "s_table_ok s' \<noteq> 0" "s_fill s' = k mod 20" "obc_cmd_examined s' = sat_add (k div 20) (sat_inc (obc_cmd_examined s))"
      unfolding w(3) fill(2) by auto
    have e: "s_fill s + Suc k = k + 20" using frame(2) fill by simp
    have "(s_fill s + Suc k) mod 20 = k mod 20" "(s_fill s + Suc k) div 20 = Suc (k div 20)"
      unfolding e by simp_all
    then show ?thesis using k unfolding fill(2) by (intro exI [of _ "Suc k"]) (simp add: sat_add_Suc)
  qed
qed

section \<open>Properties\<close>

definition cold_cmd :: cmd_state where
  "cold_cmd = recover_state.extend cold_recover
     (cmd_state.fields empty_queue 0 0 (replicate 8 0) 0 0 0 (replicate 20 0) 0)"

definition ready_cmd :: cmd_state where
  "ready_cmd = snd (obc_cmd_init obc_cmd_fields obc_cmd_table cold_cmd)"

lemma cold_cmd_sel:
  "cmd_q cold_cmd = empty_queue" "s_fill cold_cmd = 0" "s_rx cold_cmd = replicate 20 0"
  "s_table_ok cold_cmd = 0" "s_last_counter cold_cmd = 0" "hw cold_cmd = ready_hw"
  by (simp_all add: cold_cmd_def recover_state.defs cmd_state.defs cold_recover_good(4)
      del: cold_recover_def)

text \<open>A well-formed \<open>set 500\<close> frame with a given counter, and its integrity word.\<close>

definition frame_bytes :: "u8 \<Rightarrow> u8 \<Rightarrow> u8 \<Rightarrow> u8 list" where
  "frame_bytes counter lo hi =
     [0xC3, 0xA5, 0x3C, 0x5A, counter, 0, 0, 0, 20, 0x11, 0, 0, 0, 0, 0xF4, 1, 0, 0, lo, hi]"

definition set_frame :: "u8 \<Rightarrow> u8 list" where
  "set_frame counter =
     (let w = obc_cmd_sum (frame_bytes counter 0 0) OBC_CMD_O_SUM
      in frame_bytes counter (ucast w) (ucast (drop_bit 8 w)))"

lemma flight_tables_pass: "fst (obc_cmd_init obc_cmd_fields obc_cmd_table s) = OBC_OK"
  by (simp add: obc_cmd_init_def obc_cmd_fields_def cmd_row_def cmd_layout cmd_rows_audit_iff
      obc_cmd_table_def OP_PING_def OP_SET_def OP_ARM_def OP_SAFE_def)

text \<open>
  A table that passes the audit is one the parser can trust, and no other is ever
  used. When \<open>obc_cmd_init\<close> succeeds every byte of the frame belongs to exactly one field,
  every row has a handler and a range that admits something, and looking a row's opcode up
  finds that row; when it fails nothing changes. The flight tables pass.
\<close>

lemma cmd_init_audits_tables:
  assumes "obc_cmd_init layout table s = (st, s')"
  shows "(st = OBC_OK \<longrightarrow>
      (\<forall>b < OBC_CMD_FRAME_LEN. \<exists>!i. i < length layout \<and> unat (cf_offset (layout ! i)) \<le> b \<and>
         b < unat (cf_offset (layout ! i)) + unat (cf_width (layout ! i))) \<and>
      (\<forall>row \<in> set table. cd_fn row \<noteq> None \<and> cd_arg_min row \<le> cd_arg_max row \<and>
         lookup table (cd_opcode row) = Some row) \<and> s_table_ok s' = 1 \<and> balanced s') \<and>
    (st \<noteq> OBC_OK \<longrightarrow> s' = s) \<and>
    fst (obc_cmd_init obc_cmd_fields obc_cmd_table s) = OBC_OK"
proof -
  note flight = flight_tables_pass [of s]
  have len: "unat (of_nat OBC_CMD_FRAME_LEN :: u32) = OBC_CMD_FRAME_LEN" by (simp add: cmd_layout)
  show ?thesis
  proof (cases "st = OBC_OK")
    case True
    then have a: "cmd_layout_audit layout 0 = Some (of_nat OBC_CMD_FRAME_LEN)" "cmd_rows_audit [] table"
      and s': "s_table_ok s' = 1" "balanced s'"
      using assms by (auto simp: obc_cmd_init_def balanced_def cmd_rejects split: if_splits)
    from cmd_layout.tiles(1) [OF a(1)] have
      "\<forall>b < OBC_CMD_FRAME_LEN. \<exists>!i. i < length layout \<and> unat (cf_offset (layout ! i)) \<le> b \<and>
         b < unat (cf_offset (layout ! i)) + unat (cf_width (layout ! i))"
      unfolding len cmd_layout.covers_def by simp
    moreover have "\<forall>row \<in> set table. cd_fn row \<noteq> None \<and> cd_arg_min row \<le> cd_arg_max row \<and>
         lookup table (cd_opcode row) = Some row"
      using a(2) lookup_distinct unfolding cmd_rows_audit_iff by blast
    ultimately show ?thesis using True flight s' by blast
  next
    case False
    then show ?thesis using assms flight by (auto simp: obc_cmd_init_def split: if_splits)
  qed
qed

lemma ready_cmd_init: "obc_cmd_init obc_cmd_fields obc_cmd_table cold_cmd = (OBC_OK, ready_cmd)"
  using flight_tables_pass [of cold_cmd] by (simp add: ready_cmd_def prod_eq_iff)

text \<open>
  C21: no frame disappears. From an initialised command path, through any sequence of
  ingested frames of any content and length, polls of any uplink and queue runs, the
  frames examined are exactly those accepted plus those counted under one of the eight
  reasons, until the examined counter stands at its ceiling, where it stays.
\<close>

theorem every_frame_is_accounted:
  assumes "obc_cmd_init layout table s0 = (OBC_OK, s1)" and "(cmd_step table)\<^sup>*\<^sup>* s1 s"
  shows "length (obc_cmd_rejected s) = OBC_CMD_REJECT_COUNT \<and>
    (obc_cmd_examined s = 0xFFFFFFFF \<or>
     unat (obc_cmd_examined s) = unat (obc_cmd_accepted s) + (\<Sum>c\<leftarrow>obc_cmd_rejected s. unat c))"
proof -
  have "balanced s1"
    using assms(1) by (auto simp: obc_cmd_init_def balanced_def cmd_rejects split: if_splits)
  with assms(2) have "balanced s" by (induction rule: rtranclp_induct) (auto dest: balanced_step)
  then show ?thesis by (simp add: balanced_def)
qed

theorem every_frame_is_accounted_witness:
  "length (obc_cmd_rejected (obc_cmd_poll obc_cmd_table ready_cmd)) = OBC_CMD_REJECT_COUNT"
  using every_frame_is_accounted [OF ready_cmd_init r_into_rtranclp, OF cmd_step.poll] by blast

text \<open>The verdict is the conjunction of the checks, in any order.\<close>

lemma verdict_accepts:
  defines "op \<equiv> \<lambda>frame. ucast (get_u8 frame OBC_CMD_O_OPCODE) :: u8"
  shows "verdict table frame len s = OBC_CMD_REJECT_COUNT \<longleftrightarrow>
      len = OBC_CMD_FRAME_LEN \<and> get_u32 frame OBC_CMD_O_SYNC = OBC_CMD_SYNC \<and>
      get_u8 frame OBC_CMD_O_LENGTH = of_nat OBC_CMD_FRAME_LEN \<and>
      get_u16 frame OBC_CMD_O_SUM = obc_cmd_sum frame OBC_CMD_O_SUM \<and>
      (\<exists>cmd. lookup table (op frame) = Some cmd \<and>
         cd_arg_min cmd \<le> get_u32 frame OBC_CMD_O_ARG \<and> get_u32 frame OBC_CMD_O_ARG \<le> cd_arg_max cmd \<and>
         (cd_critical cmd \<noteq> 0 \<longrightarrow> obc_cmd_armed_opcode (cmd_q s) = ucast (op frame))) \<and>
      s_last_counter s < get_u32 frame OBC_CMD_O_COUNTER \<and> size (pending (cmd_q s)) < OBC_CMD_QUEUE_LEN"
proof -
  have room: "free_slot (cmd_q s) \<noteq> None \<longleftrightarrow> size (pending (cmd_q s)) < OBC_CMD_QUEUE_LEN"
    using free_slot_None [of "cmd_q s"] held_le [of "cmd_q s"] by auto
  show ?thesis
    unfolding op_def room [symmetric]
    by (simp add: verdict_def cmd_rejects not_less not_le split: option.split)
qed

text \<open>
  C18: what it takes to be accepted. A frame is accepted exactly when its length, sync word,
  declared length and integrity word check, its opcode has a row, its argument lies in that
  row's range, its counter exceeds the last accepted one, the opcode is armed if the row is
  critical, and the queue has room; then exactly this command is added to the queue and the
  counter advances. A refused frame leaves everything but its counters, the announcement
  mask and the console as it was, and the console too once the reason has been announced.
\<close>

theorem ingest_accepts_exactly:
  assumes "s_table_ok s \<noteq> 0" and "wf_queue (cmd_q s)"
    and "obc_cmd_ingest table (Some frame) len reason s = (st, reason', s')"
  defines "op \<equiv> ucast (get_u8 frame OBC_CMD_O_OPCODE) :: u8"
  shows "(st = OBC_OK \<longleftrightarrow>
      len = OBC_CMD_FRAME_LEN \<and> get_u32 frame OBC_CMD_O_SYNC = OBC_CMD_SYNC \<and>
      get_u8 frame OBC_CMD_O_LENGTH = of_nat OBC_CMD_FRAME_LEN \<and>
      get_u16 frame OBC_CMD_O_SUM = obc_cmd_sum frame OBC_CMD_O_SUM \<and>
      (\<exists>cmd. lookup table op = Some cmd \<and>
         cd_arg_min cmd \<le> get_u32 frame OBC_CMD_O_ARG \<and> get_u32 frame OBC_CMD_O_ARG \<le> cd_arg_max cmd \<and>
         (cd_critical cmd \<noteq> 0 \<longrightarrow> obc_cmd_armed_opcode (cmd_q s) = ucast op)) \<and>
      s_last_counter s < get_u32 frame OBC_CMD_O_COUNTER \<and> size (pending (cmd_q s)) < OBC_CMD_QUEUE_LEN) \<and>
    (st = OBC_OK \<longrightarrow>
      pending (cmd_q s') = add_mset (op, get_u32 frame OBC_CMD_O_WHEN, get_u32 frame OBC_CMD_O_ARG,
        get_u32 frame OBC_CMD_O_COUNTER) (pending (cmd_q s)) \<and>
      s_last_counter s' = get_u32 frame OBC_CMD_O_COUNTER \<and> wf_queue (cmd_q s')) \<and>
    (st \<noteq> OBC_OK \<longrightarrow> same_but_counters s s' \<and>
      (obc_cmd_announced s AND push_bit (verdict table frame len s) 1 \<noteq> 0 \<longrightarrow> hw s' = hw s))"
proof -
  have st: "st = OBC_OK \<longleftrightarrow> verdict table frame len s = OBC_CMD_REJECT_COUNT"
    using assms(3) unfolding ingest_eq [OF assms(1)] Let_def by (auto simp: refuse_def split: if_splits)
  note v = verdict_accepts [of table frame len s, folded op_def]
  have acc: "pending (cmd_q s') = add_mset (op, get_u32 frame OBC_CMD_O_WHEN, get_u32 frame OBC_CMD_O_ARG,
        get_u32 frame OBC_CMD_O_COUNTER) (pending (cmd_q s)) \<and>
      s_last_counter s' = get_u32 frame OBC_CMD_O_COUNTER \<and> wf_queue (cmd_q s')" if "st = OBC_OK"
  proof -
    have "s' = accept_frame frame (count_examined s)" using ingest_accepted(3) assms(3) that by blast
    moreover have "length (held (cmd_q s)) < OBC_CMD_QUEUE_LEN" using that st v by simp
    ultimately show ?thesis
      using put_ok [OF assms(2), of op "get_u32 frame OBC_CMD_O_WHEN" "get_u32 frame OBC_CMD_O_ARG"
        "get_u32 frame OBC_CMD_O_COUNTER"]
      unfolding op_def by (auto simp: accept_frame_def)
  qed
  have ref: "same_but_counters s s' \<and>
      (obc_cmd_announced s AND push_bit (verdict table frame len s) 1 \<noteq> 0 \<longrightarrow> hw s' = hw s)" if "st \<noteq> OBC_OK"
  proof -
    note r = refuse_effect [OF ingest_refused(2) [OF assms(3) that assms(1)]]
    from same_but_counters_examined [OF r(3)] show ?thesis using r(6) by simp
  qed
  show ?thesis using st v acc ref by blast
qed

lemma ready_cmd_eq:
  "ready_cmd = cold_cmd\<lparr>cmd_q := obc_cmd_queue_init empty_queue, obc_cmd_examined := 0,
     obc_cmd_accepted := 0, s_fill := 0, obc_cmd_announced := 0, s_last_counter := 0,
     obc_cmd_rejected := replicate OBC_CMD_REJECT_COUNT 0, s_table_ok := 1\<rparr>"
  using ready_cmd_init unfolding obc_cmd_init_def cold_cmd_sel(1)
  by (simp split: if_splits) (erule conjE, drule sym, assumption)?

lemma ready_cmd_ok: "s_table_ok ready_cmd = 1" "wf_queue (cmd_q ready_cmd)" "wf_rx ready_cmd"
  by (simp_all add: ready_cmd_eq cold_cmd_sel obc_cmd_queue_init_def empty_queue_def empty_slot_def
      wf_queue_def held_def OBC_CMD_QUEUE_LEN_def upt_rec wf_rx_def cmd_layout)

theorem ingest_accepts_exactly_witness:
  "pending (cmd_q (snd (snd (obc_cmd_ingest obc_cmd_table (Some (set_frame 1)) 20 None ready_cmd)))) =
     add_mset (0x11, 0, 500, 1) (pending (cmd_q ready_cmd))"
proof -
  obtain st r s' where i: "obc_cmd_ingest obc_cmd_table (Some (set_frame 1)) 20 None ready_cmd = (st, r, s')"
    by (metis prod_cases3)
  have ok: "s_table_ok ready_cmd \<noteq> 0" using ready_cmd_ok by simp
  have "fst (obc_cmd_ingest obc_cmd_table (Some (set_frame 1)) 20 None ready_cmd) = OBC_OK"
    "ucast (get_u8 (set_frame 1) OBC_CMD_O_OPCODE) = (0x11 :: u8)" "get_u32 (set_frame 1) OBC_CMD_O_WHEN = 0"
    "get_u32 (set_frame 1) OBC_CMD_O_ARG = 500" "get_u32 (set_frame 1) OBC_CMD_O_COUNTER = 1"
    by code_simp+
  then show ?thesis
    using ingest_accepts_exactly [OF ok ready_cmd_ok(2) i] i by simp
qed

text \<open>A frame whose counter is not above the last one taken is refused, whatever else it holds.\<close>

lemma stale_counter_refused:
  assumes "get_u32 frame OBC_CMD_O_COUNTER \<le> s_last_counter s"
  shows "fst (obc_cmd_ingest table (Some frame) len reason s) \<noteq> OBC_OK"
proof
  assume "fst (obc_cmd_ingest table (Some frame) len reason s) = OBC_OK"
  then obtain r s' where "obc_cmd_ingest table (Some frame) len reason s = (OBC_OK, r, s')"
    by (metis prod.collapse)
  from ingest_accepted(2) [OF this] assms show False
    by (auto simp: verdict_def cmd_rejects split: if_splits option.splits)
qed

lemma verdict_cong:
  assumes "cmd_q t = cmd_q s" and "s_last_counter t = s_last_counter s"
  shows "verdict table frame len t = verdict table frame len s"
  unfolding verdict_def assms by (rule refl)

lemma xor_cancel_right: "x XOR m = y XOR m \<longleftrightarrow> x = (y :: 'a::len word)"
proof
  assume "x XOR m = y XOR m"
  then have "(x XOR m) XOR m = (y XOR m) XOR m" by (rule arg_cong)
  then show "x = y" by (simp add: xor.assoc)
qed simp

lemma get_u16_bytes:
  "(ucast (get_u16 g n) :: u8) = g ! n" "(ucast (drop_bit 8 (get_u16 g n)) :: u8) = g ! (n + 1)"
  by (rule bit_word_eqI; auto simp: get_u16_def bit_simps dest: bit_imp_le_length)+

text \<open>
  C29: damage to any one byte is caught. If the integrity word of a frame checks, then with
  any single byte of it replaced by any other value the frame is refused, whatever the
  state of the command path.
\<close>

theorem single_byte_damage_refused:
  assumes "length frame = OBC_CMD_FRAME_LEN"
    and "get_u16 frame OBC_CMD_O_SUM = obc_cmd_sum frame OBC_CMD_O_SUM"
    and "i < OBC_CMD_FRAME_LEN" and "b \<noteq> frame ! i"
  shows "fst (obc_cmd_ingest table (Some (frame[i := b])) len reason s) \<noteq> OBC_OK"
proof
  assume ok: "fst (obc_cmd_ingest table (Some (frame[i := b])) len reason s) = OBC_OK"
  then obtain r s' where "obc_cmd_ingest table (Some (frame[i := b])) len reason s = (OBC_OK, r, s')"
    by (metis prod.collapse)
  from ingest_accepted(2) [OF this]
  have sum: "get_u16 (frame[i := b]) OBC_CMD_O_SUM = obc_cmd_sum (frame[i := b]) OBC_CMD_O_SUM"
    by (auto simp: verdict_def cmd_rejects split: if_splits)
  have len: "length frame = 20" "OBC_CMD_O_SUM = 18" using assms(1) by (simp_all add: cmd_layout)
  show False
  proof (cases "i < 18")
    case True
    have "get_u16 (frame[i := b]) 18 = get_u16 frame 18" using True by (simp add: get_u16_def)
    then have "fold sum_step (take 18 (frame[i := b])) 0 = fold sum_step (take 18 frame) 0"
      using sum assms(2) unfolding len obc_cmd_sum_def by (simp add: xor_cancel_right)
    moreover have "take 18 (frame[i := b]) = (take 18 frame)[i := b]" by (simp add: take_update_swap)
    moreover have "i < length (take 18 frame)" "b \<noteq> take 18 frame ! i" using True len assms(4) by simp_all
    ultimately show False using sum_one_byte by metis
  next
    case False
    have "obc_cmd_sum (frame[i := b]) 18 = obc_cmd_sum frame 18"
      using False by (simp add: obc_cmd_sum_def take_update_cancel)
    then have eq: "get_u16 (frame[i := b]) 18 = get_u16 frame 18" using sum assms(2) unfolding len by simp
    have "i = 18 \<or> i = 18 + 1" using False assms(3) by (auto simp: cmd_layout)
    then have "frame[i := b] ! i = frame ! i" using eq by (metis get_u16_bytes)
    then show False using assms(1,3,4) by simp
  qed
qed

theorem single_byte_damage_refused_witness:
  "fst (obc_cmd_ingest obc_cmd_table (Some ((set_frame 1)[14 := 0xF5])) 20 None ready_cmd) \<noteq> OBC_OK"
  by (rule single_byte_damage_refused) (code_simp+)

text \<open>
  A poll stays inside its buffer and its budget, and one frame sent is one frame
  examined. A poll takes at most eight frames' worth of bytes; the buffer index never
  leaves the frame; and the frames examined are the whole frames the collected bytes
  complete, plus one when a poll that found no byte discards a partial frame.
\<close>

lemma poll_examines_whole_frames:
  assumes "wf_rx s" and "s_table_ok s \<noteq> 0"
  shows "\<exists>k \<le> OBC_CMD_RX_BYTES. wf_rx (obc_cmd_poll table s) \<and>
    (if k = 0 \<and> s_fill s \<noteq> 0
     then s_fill (obc_cmd_poll table s) = 0 \<and> obc_cmd_examined (obc_cmd_poll table s) = sat_inc (obc_cmd_examined s)
     else s_fill (obc_cmd_poll table s) = (s_fill s + k) mod OBC_CMD_FRAME_LEN \<and>
       obc_cmd_examined (obc_cmd_poll table s) = sat_add ((s_fill s + k) div OBC_CMD_FRAME_LEN) (obc_cmd_examined s))"
proof -
  obtain taken s1 where p: "poll_loop OBC_CMD_RX_BYTES table 0 s = (taken, s1)" by fastforce
  from poll_loop_collects [OF assms p] have k: "taken \<le> OBC_CMD_RX_BYTES" "wf_rx s1"
    "s_fill s1 = (s_fill s + taken) mod OBC_CMD_FRAME_LEN"
    "obc_cmd_examined s1 = sat_add ((s_fill s + taken) div OBC_CMD_FRAME_LEN) (obc_cmd_examined s)"
    by auto
  have fill: "s_fill s < OBC_CMD_FRAME_LEN" using assms(1) by (simp add: wf_rx_def)
  obtain st out s2 where r: "refuse OBC_CMD_REJECT_LENGTH None (count_examined (s1\<lparr>s_fill := 0\<rparr>)) = (st, out, s2)"
    by (metis prod_cases3)
  note e = same_but_counters_sel(5,6) [OF refuse_effect(3) [OF r]] refuse_effect(5) [OF r]
  show ?thesis
  proof (cases "taken = 0 \<and> s_fill s \<noteq> 0")
    case True
    then have "obc_cmd_poll table s = s2"
      using assms(2) p r k(3) fill by (simp add: obc_cmd_poll_def count_examined_def)
    then show ?thesis
      using True e k fill by (intro exI [of _ 0]) (simp add: wf_rx_def sat_add_def)
  next
    case False
    then have "obc_cmd_poll table s = s1"
      using assms(2) p k(3) by (auto simp: obc_cmd_poll_def)
    then show ?thesis using False k by (intro exI [of _ taken]) auto
  qed
qed

end
