(* ===== verification/Sched.thy ===== *)
theory Sched
  imports CmdFrame
begin

text \<open>
  The cyclic executive, \<^verbatim>\<open>flight/core/sched.c\<close>. The state gains the executive's globals;
  the task table is a parameter whose functions act on the whole state. A machine reset
  inside a dispatch ends the run with \<open>Reset\<close>.
\<close>

section \<open>State\<close>

definition OBC_FRAME_TICKS :: u32 where [obc_consts]: "OBC_FRAME_TICKS = 1024"
definition OBC_MAX_TASKS :: u32 where [obc_consts]: "OBC_MAX_TASKS = 8"
definition OBC_SCHED_WINDOW_FRAMES :: u32 where [obc_consts]: "OBC_SCHED_WINDOW_FRAMES = 16"
definition OBC_TRACE_CAPACITY :: u32 where [obc_consts]: "OBC_TRACE_CAPACITY = 256"
definition OBC_SAFE_ENTRY_NONE :: u32 where [obc_consts]: "OBC_SAFE_ENTRY_NONE = 0xFFFFFFFF"
definition OBC_MILLI_INSTR_PER_TICK :: u32 where [obc_consts]: "OBC_MILLI_INSTR_PER_TICK = 476837"
definition OBC_FRAME_INSTR_CAPACITY :: u32 where [obc_consts]:
  "OBC_FRAME_INSTR_CAPACITY = (OBC_MILLI_INSTR_PER_TICK div 1000) * OBC_FRAME_TICKS"

record task_state =
  ts_runs :: u32
  ts_overruns :: u32
  ts_max_instr :: u32

record sched_state = cmd_state +
  obc_trace :: "u8 list"
  obc_trace_len :: u32
  obc_trace_overflow :: u32
  obc_task_state :: "task_state list"
  obc_frames_run :: u32
  obc_frame_overruns :: u32
  obc_slack_ticks_min :: u32
  obc_window_start_ticks :: u32
  obc_window_end_ticks :: u32
  obc_cmd_now_ticks :: u32
  obc_safe_entry_frame :: u32

section \<open>Dispatch\<close>

definition minstret :: "'a machine_scheme \<Rightarrow> u32 \<times> 'a machine_scheme" where
  "minstret s = (case read_minstret (hw s) of (v, h) \<Rightarrow> (v, s\<lparr>hw := h\<rparr>))"

definition task_due :: "('s obc_task) list \<Rightarrow> u32 \<Rightarrow> nat \<Rightarrow> bool" where
  "task_due table frame i \<longleftrightarrow>
     period_frames (table ! i) \<noteq> 0 \<and> \<not> frame mod period_frames (table ! i) \<noteq> 0"

definition obc_suspended_this_frame ::
  "('a sched_state_scheme) obc_task list \<Rightarrow> u32 \<Rightarrow> 'a sched_state_scheme \<Rightarrow> nat" where
  "obc_suspended_this_frame table frame s =
     length (filter (\<lambda>i. task_due table frame i \<and> obc_recover_is_suspended (of_nat i) frame s)
       [0..<length table])"

definition trace_push :: "nat \<Rightarrow> 'a sched_state_scheme \<Rightarrow> 'a sched_state_scheme" where
  "trace_push i s =
     (if obc_trace_len s \<ge> OBC_TRACE_CAPACITY
      then s\<lparr>obc_trace_overflow := obc_trace_overflow s + 1\<rparr>
      else s\<lparr>obc_trace := (obc_trace s)[unat (obc_trace_len s) := of_nat i],
             obc_trace_len := obc_trace_len s + 1\<rparr>)"

text \<open>The rung an overrun climbs to.\<close>

definition overrun_rung :: "'s obc_task \<Rightarrow> u32 \<Rightarrow> u32" where
  "overrun_rung task overruns =
     (if overruns = 1 then OBC_RUNG_SUSPEND_TASK
      else if overruns = 2 \<and> reset_fn task \<noteq> None then OBC_RUNG_RESET_SUBSYSTEM
      else OBC_RUNG_RESET_MACHINE)"

definition account :: "nat \<Rightarrow> u32 \<Rightarrow> u32 \<Rightarrow> 'a sched_state_scheme \<Rightarrow> 'a sched_state_scheme" where
  "account i used budget s =
     (let ts = obc_task_state s ! i;
          ts1 = ts\<lparr>ts_runs := ts_runs ts + 1\<rparr>;
          ts2 = (if used > ts_max_instr ts1 then ts1\<lparr>ts_max_instr := used\<rparr> else ts1);
          ts3 = (if used > budget then ts2\<lparr>ts_overruns := ts_overruns ts2 + 1\<rparr> else ts2)
      in s\<lparr>obc_task_state := (obc_task_state s)[i := ts3]\<rparr>)"

definition dispatch ::
  "('a sched_state_scheme) obc_task list \<Rightarrow> nat \<Rightarrow> u32 \<Rightarrow> 'a sched_state_scheme \<Rightarrow>
     unit flow \<times> 'a sched_state_scheme" where
  "dispatch table i frame s =
     (let task = table ! i
      in case task_fn task of
           None \<Rightarrow> (Ret (), s)
         | Some f \<Rightarrow>
             (let (before, s1) = minstret (trace_push i s);
                  (after, s2) = minstret (f s1);
                  used = after - before;
                  s3 = account i used (budget_instr task) s2
              in if used > budget_instr task
                 then obc_recover_escalate table (overrun_rung task (ts_overruns (obc_task_state s3 ! i)))
                        (of_nat i) frame s3
                 else (Ret (), s3)))"

section \<open>The clock, degrading\<close>

definition sched_now ::
  "u64 \<Rightarrow> u32 \<Rightarrow> 'a sched_state_scheme \<Rightarrow> obc_status \<times> u64 \<times> 'a sched_state_scheme" where
  "sched_now out frame s =
     (case obc_mtime_read (Some out) s of
        (st, out', s1) \<Rightarrow>
          if st = OBC_ERR_UNSTABLE
          then (case obc_mode_is_safe s1 of
                  (safe, s2) \<Rightarrow>
                    (st, the out', if safe then s2
                       else obc_mode_enter_safe OBC_SAFE_CLOCK (s2\<lparr>obc_safe_entry_frame := frame\<rparr>)))
          else (st, the out', s1))"

section \<open>One frame\<close>

text \<open>
  The dispatch loop over the table, with the counters \<open>due\<close> and \<open>ran\<close>. The mode is voted on
  before every task that has a period.
\<close>

fun dispatch_loop ::
  "('a sched_state_scheme) obc_task list \<Rightarrow> u32 \<Rightarrow> nat list \<Rightarrow> nat \<Rightarrow> nat \<Rightarrow> 'a sched_state_scheme \<Rightarrow>
     (nat \<times> nat) flow \<times> 'a sched_state_scheme" where
  "dispatch_loop table frame [] n_due n_ran s = (Ret (n_due, n_ran), s)"
| "dispatch_loop table frame (i # is) n_due n_ran s =
     (if period_frames (table ! i) = 0 then dispatch_loop table frame is n_due n_ran s
      else (case obc_mode_is_safe s of
        (safe, s1) \<Rightarrow>
          if safe \<and> essential (table ! i) = 0 then dispatch_loop table frame is n_due n_ran s1
          else if frame mod period_frames (table ! i) \<noteq> 0 then dispatch_loop table frame is n_due n_ran s1
          else if obc_recover_is_suspended (of_nat i) frame s1
          then dispatch_loop table frame is (n_due + 1) n_ran s1
          else (case dispatch table i frame s1 of
            (Reset, s2) \<Rightarrow> (Reset, s2)
          | (Ret _, s2) \<Rightarrow> dispatch_loop table frame is (n_due + 1) (n_ran + 1) s2)))"

definition feed_if_earned ::
  "('a sched_state_scheme) obc_task list \<Rightarrow> u32 \<Rightarrow> nat \<Rightarrow> nat \<Rightarrow> 'a sched_state_scheme \<Rightarrow>
     'a sched_state_scheme" where
  "feed_if_earned table frame n_due n_ran s =
     (if n_ran + obc_suspended_this_frame table frame s = n_due then obc_recover_feed_hardware s else s)"

definition note_slack :: "u32 \<Rightarrow> u64 \<Rightarrow> u64 \<Rightarrow> 'a sched_state_scheme \<Rightarrow> 'a sched_state_scheme" where
  "note_slack frame now deadline s =
     (if now \<ge> deadline
      then (let s1 = s\<lparr>obc_frame_overruns := obc_frame_overruns s + 1, obc_slack_ticks_min := 0\<rparr>
            in case obc_mode_is_safe s1 of
                 (safe, s2) \<Rightarrow>
                   if safe then s2
                   else obc_mode_enter_safe OBC_SAFE_FRAME_OVERRUN (s2\<lparr>obc_safe_entry_frame := frame\<rparr>))
      else (let slack = ucast (deadline - now)
            in if slack < obc_slack_ticks_min s then s\<lparr>obc_slack_ticks_min := slack\<rparr> else s))"

text \<open>Idle to the boundary, bounded by the guard.\<close>

definition IDLE_GUARD :: u32 where "IDLE_GUARD = OBC_FRAME_TICKS * 8192"

function idle_loop ::
  "u32 \<Rightarrow> u64 \<Rightarrow> u32 \<Rightarrow> u64 \<Rightarrow> 'a sched_state_scheme \<Rightarrow> obc_status \<times> u64 \<times> 'a sched_state_scheme" where
  "idle_loop frame deadline guard now s =
     (if guard < IDLE_GUARD
      then (case sched_now now frame s of
              (st, now', s1) \<Rightarrow>
                if st \<noteq> OBC_OK then (st, now', s1)
                else if now' \<ge> deadline then (OBC_OK, now', s1)
                else idle_loop frame deadline (guard + 1) now' s1)
      else (OBC_OK, now, s))"
  by pat_completeness auto
termination
proof (relation "measure (\<lambda>(_, _, guard, _, _). unat IDLE_GUARD - unat guard)")
  fix guard :: u32
  assume "guard < IDLE_GUARD"
  moreover from this have "unat (guard + 1) = unat guard + 1"
    using unsigned_less [of IDLE_GUARD, where 'a = nat]
    by (simp add: word_less_nat_alt unat_word_ariths)
  ultimately show "((x1, x2, guard + 1, x3, x4), (x5, x6, guard, x7, x8))
      \<in> measure (\<lambda>(_, _, guard, _, _). unat IDLE_GUARD - unat guard)" for x1 x2 x3 x4 x5 x6 x7 x8
    by (simp add: word_less_nat_alt)
qed simp

declare idle_loop.simps [simp del]

definition frame_step ::
  "('a sched_state_scheme) obc_task list \<Rightarrow> u32 \<Rightarrow> u64 \<Rightarrow> 'a sched_state_scheme \<Rightarrow>
     obc_status flow \<times> 'a sched_state_scheme" where
  "frame_step table frame frame_start s =
     (let deadline = frame_start + ucast OBC_FRAME_TICKS;
          s0 = s\<lparr>obc_cmd_now_ticks := ucast frame_start\<rparr>
      in case dispatch_loop table frame [0..<length table] 0 0 s0 of
           (Reset, s1) \<Rightarrow> (Reset, s1)
         | (Ret (n_due, n_ran), s1) \<Rightarrow>
             (case sched_now 0 frame (feed_if_earned table frame n_due n_ran s1) of
                (st, now, s2) \<Rightarrow>
                  if st \<noteq> OBC_OK then (Ret st, s2)
                  else (case idle_loop frame deadline 0 now (note_slack frame now deadline s2) of
                          (st', now', s3) \<Rightarrow>
                            if st' \<noteq> OBC_OK then (Ret st', s3)
                            else if now' < deadline then (Ret OBC_ERR_TIMEOUT, s3)
                            else (Ret OBC_OK, s3\<lparr>obc_frames_run := obc_frames_run s3 + 1\<rparr>))))"

text \<open>\<open>frame_loop k frame \<dots>\<close>: \<open>k\<close> frames left, of which \<open>frame\<close> is the next.\<close>

fun frame_loop ::
  "('a sched_state_scheme) obc_task list \<Rightarrow> nat \<Rightarrow> u32 \<Rightarrow> u64 \<Rightarrow> 'a sched_state_scheme \<Rightarrow>
     obc_status flow \<times> 'a sched_state_scheme" where
  "frame_loop table 0 frame frame_start s =
     (Ret OBC_OK, s\<lparr>obc_window_end_ticks := ucast frame_start\<rparr>)"
| "frame_loop table (Suc k) frame frame_start s =
     (case frame_step table frame frame_start s of
        (Ret st, s1) \<Rightarrow>
          if st \<noteq> OBC_OK then (Ret st, s1)
          else frame_loop table k (frame + 1) (frame_start + ucast OBC_FRAME_TICKS) s1
      | (Reset, s1) \<Rightarrow> (Reset, s1))"

definition run_window ::
  "('a sched_state_scheme) obc_task list \<Rightarrow> u32 \<Rightarrow> 'a sched_state_scheme \<Rightarrow>
     obc_status flow \<times> 'a sched_state_scheme" where
  "run_window table frames s =
     (if table = [] \<or> length table > unat OBC_MAX_TASKS then (Ret OBC_ERR_INVALID, s)
      else (case sched_now 0 0 s of
        (st, frame_start, s1) \<Rightarrow>
          if st \<noteq> OBC_OK then (Ret st, s1)
          else (let s2 = s1\<lparr>obc_slack_ticks_min := OBC_FRAME_TICKS, obc_window_start_ticks := ucast frame_start\<rparr>
                in case obc_mode_is_safe s2 of
                     (safe, s3) \<Rightarrow>
                       frame_loop table (unat frames) 0 frame_start
                         (if safe \<and> obc_safe_entry_frame s3 = OBC_SAFE_ENTRY_NONE
                          then s3\<lparr>obc_safe_entry_frame := 0\<rparr> else s3))))"

definition obc_sched_run ::
  "('a sched_state_scheme) obc_task list \<Rightarrow> u32 \<Rightarrow> 'a sched_state_scheme \<Rightarrow>
     obc_status flow \<times> 'a sched_state_scheme" where
  "obc_sched_run table frames s =
     (case run_window table frames (obc_recover_arm_hardware s) of
        (Ret st, s1) \<Rightarrow> (Ret st, obc_recover_disarm_hardware s1)
      | (Reset, s1) \<Rightarrow> (Reset, s1))"

section \<open>What the executive leaves alone\<close>

text \<open>The trace and the frame accounting, and what decides suspensions.\<close>

definition kept :: "'a sched_state_scheme \<Rightarrow> u8 list \<times> u32 \<times> u32 \<times> u32" where
  "kept s = (obc_trace s, obc_trace_len s, obc_frames_run s, obc_window_start_ticks s)"

definition quiet :: "'a sched_state_scheme \<Rightarrow> u32 \<times> u32 \<times> u32" where
  "quiet s = (s_suspended_task s, s_suspended_frame s, obc_suspension_count s)"

named_theorems sched_keeps \<open>operations that keep the trace, the accounting or the suspensions\<close>

lemma kept_hw [simp, sched_keeps]: "kept (s\<lparr>hw := h\<rparr>) = kept s" "quiet (s\<lparr>hw := h\<rparr>) = quiet s"
  "kept (on_hw f s) = kept s" "quiet (on_hw f s) = quiet s"
  by (simp_all add: kept_def quiet_def on_hw_def)

lemma kept_minstret [simp, sched_keeps]:
  "kept (snd (minstret s)) = kept s" "quiet (snd (minstret s)) = quiet s"
  "crit (snd (minstret s)) = crit s" "s_announced (snd (minstret s)) = s_announced s"
  "length (obc_task_state (snd (minstret s))) = length (obc_task_state s)"
  by (simp_all add: minstret_def kept_def quiet_def split: prod.splits)

lemma kept_account [simp, sched_keeps]:
  "kept (account i u b s) = kept s" "quiet (account i u b s) = quiet s"
  "crit (account i u b s) = crit s" "s_announced (account i u b s) = s_announced s"
  by (simp_all add: account_def kept_def quiet_def Let_def)

lemma kept_is_safe [simp, sched_keeps]:
  "kept (snd (obc_mode_is_safe s)) = kept s" "quiet (snd (obc_mode_is_safe s)) = quiet s"
  by (simp_all add: obc_mode_is_safe_def kept_def quiet_def split: prod.splits)

lemma kept_enter_safe [simp, sched_keeps]:
  "kept (obc_mode_enter_safe r s) = kept s" "quiet (obc_mode_enter_safe r s) = quiet s"
  by (simp_all add: obc_mode_enter_safe_def kept_def quiet_def Let_def on_hw_def)

lemma kept_log [simp, sched_keeps]: "kept (log_suspension i f r s) = kept s"
  by (simp add: log_suspension_def kept_def)

lemma kept_mtime [simp, sched_keeps]:
  "kept (snd (snd (obc_mtime_read x s))) = kept s" "quiet (snd (snd (obc_mtime_read x s))) = quiet s"
  "crit (snd (snd (obc_mtime_read x s))) = crit s" "s_announced (snd (snd (obc_mtime_read x s))) = s_announced s"
  by (auto simp: obc_mtime_read_def kept_def quiet_def split: option.splits prod.splits)

lemma kept_feed [simp, sched_keeps]:
  "kept (feed_if_earned t f d r s) = kept s" "quiet (feed_if_earned t f d r s) = quiet s"
  "crit (feed_if_earned t f d r s) = crit s" "s_announced (feed_if_earned t f d r s) = s_announced s"
  by (simp_all add: feed_if_earned_def obc_recover_feed_hardware_def aon_write_def)

section \<open>The mode, as the executive sees it\<close>

definition nominal :: "'a mode_state_scheme \<Rightarrow> bool" where
  "nominal s \<longleftrightarrow> critical_good (crit s) \<and> critical_says (crit s) OBC_MODE_NOMINAL \<and> s_announced s = 0"

definition degraded :: "'a mode_state_scheme \<Rightarrow> bool" where
  "degraded s \<longleftrightarrow> critical_good (crit s) \<and> only_safe (crit s) \<and> s_announced s \<noteq> 0"

lemma mode_cong:
  "crit s' = crit s \<Longrightarrow> s_announced s' = s_announced s \<Longrightarrow> nominal s' = nominal s"
  "crit s' = crit s \<Longrightarrow> s_announced s' = s_announced s \<Longrightarrow> degraded s' = degraded s"
  by (simp_all add: nominal_def degraded_def)

lemma nominal_is_safe: "nominal s \<Longrightarrow> \<not> fst (obc_mode_is_safe s) \<and> nominal (snd (obc_mode_is_safe s))"
  using is_safe_says [of s OBC_MODE_NOMINAL] is_safe_good [of s]
  by (simp add: nominal_def is_safe_frame)

lemma degraded_is_safe: "degraded s \<Longrightarrow> fst (obc_mode_is_safe s) \<and> degraded (snd (obc_mode_is_safe s))"
proof -
  assume d: "degraded s"
  then have "fst (obc_mode_is_safe s)"
    using not_safe_iff [of s] only_safe_says [of "crit s"] by (auto simp: degraded_def)
  moreover have "only_safe (crit (snd (obc_mode_is_safe s)))"
    using d get_only_safe [of "crit s" OBC_MODE_SAFE]
    by (auto simp: degraded_def obc_mode_is_safe_def split: prod.splits if_splits)
  ultimately show ?thesis using d is_safe_good [of s] by (simp add: degraded_def is_safe_frame)
qed

lemma nominal_enter_safe: "nominal s \<Longrightarrow> degraded (obc_mode_enter_safe r s)"
  by (simp add: nominal_def degraded_def enter_safe_first mode_word.put_good only_safe_set)

lemma degraded_enter_safe: "degraded s \<Longrightarrow> obc_mode_enter_safe r s = s"
  by (simp add: degraded_def enter_safe_again)

text \<open>A run that is \<open>spoiled\<close> has degraded or has suspended something, and stays so.\<close>

definition spoiled :: "'a sched_state_scheme \<Rightarrow> bool" where
  "spoiled s \<longleftrightarrow> degraded s \<or> (nominal s \<and> obc_suspension_count s \<noteq> 0)"

section \<open>The trace\<close>

definition recorded :: "'a sched_state_scheme \<Rightarrow> u8 list" where
  "recorded s = take (unat (obc_trace_len s)) (obc_trace s)"

definition wf_trace :: "'a sched_state_scheme \<Rightarrow> bool" where
  "wf_trace s \<longleftrightarrow> length (obc_trace s) = 256 \<and> unat (obc_trace_len s) \<le> 256"

lemma trace_cong:
  "kept s' = kept s \<Longrightarrow> recorded s' = recorded s \<and> wf_trace s' = wf_trace s"
  by (simp add: kept_def recorded_def wf_trace_def)

lemma trace_push_recorded:
  assumes "wf_trace s"
  shows "wf_trace (trace_push i s)" "recorded (trace_push i s) = take 256 (recorded s @ [of_nat i])"
proof -
  have c: "obc_trace_len s \<ge> OBC_TRACE_CAPACITY \<longleftrightarrow> \<not> unat (obc_trace_len s) < 256"
    by (simp add: OBC_TRACE_CAPACITY_def word_le_nat_alt not_less)
  have u: "unat (obc_trace_len s + 1) = unat (obc_trace_len s) + 1" if "unat (obc_trace_len s) < 256"
    using that by (simp add: unat_word_ariths)
  show "wf_trace (trace_push i s)" "recorded (trace_push i s) = take 256 (recorded s @ [of_nat i])"
    using assms c u
    by (auto simp: wf_trace_def recorded_def trace_push_def take_Suc_conv_app_nth not_less)
qed

lemma trace_push_frame [simp]:
  "crit (trace_push i s) = crit s" "s_announced (trace_push i s) = s_announced s"
  "quiet (trace_push i s) = quiet s" "obc_frames_run (trace_push i s) = obc_frames_run s"
  "obc_window_start_ticks (trace_push i s) = obc_window_start_ticks s"
  by (simp_all add: trace_push_def quiet_def)

lemma take_take_append: "take n (take n xs @ ys) = take n (xs @ ys)"
  by (cases "length xs \<le> n") simp_all

section \<open>The contract between the executive and its tasks\<close>

text \<open>
  What a task, or its subsystem reset, may not touch: the executive's trace, frame accounting
  and suspensions; and it never changes the mode.
\<close>

definition well_behaved :: "('a sched_state_scheme \<Rightarrow> 'a sched_state_scheme) \<Rightarrow> bool" where
  "well_behaved f \<longleftrightarrow>
     (\<forall>s. kept (f s) = kept s \<and> quiet (f s) = quiet s \<and> (nominal s \<longrightarrow> nominal (f s)) \<and>
        (degraded s \<longrightarrow> degraded (f s)))"

locale task_set =
  fixes table :: "('a sched_state_scheme) obc_task list"
  assumes has_function: "i < length table \<Longrightarrow> task_fn (table ! i) \<noteq> None"
    and task_behaves: "i < length table \<Longrightarrow> task_fn (table ! i) = Some f \<Longrightarrow> well_behaved f"
    and reset_behaves: "i < length table \<Longrightarrow> reset_fn (table ! i) = Some f \<Longrightarrow> well_behaved f"
    and small: "length table \<le> 8"
begin

lemma index_nat: "i < length table \<Longrightarrow> unat (of_nat i :: u32) = i"
  using small by (simp add: unat_of_nat take_bit_eq_mod)

text \<open>One escalation, branch by branch.\<close>

lemma escalate_branches:
  assumes "i < length table" and "obc_recover_escalate table rung (of_nat i) frame s = (fl, s')"
  obtains (suspend) f d r where "rung = OBC_RUNG_SUSPEND_TASK" "fl = Ret ()"
      "s' = log_suspension (of_nat i) d r (s\<lparr>s_suspended_task := of_nat i, s_suspended_frame := f\<rparr>)"
    | (subsystem) g h d r where "rung = OBC_RUNG_RESET_SUBSYSTEM" "fl = Ret ()" "reset_fn (table ! i) = Some g"
      "s' = g ((log_suspension (of_nat i) d r s)\<lparr>hw := h\<rparr>)"
    | (nothing) "fl = Ret ()" "s' = s" "rung \<noteq> OBC_RUNG_SUSPEND_TASK" "rung \<noteq> OBC_RUNG_RESET_MACHINE"
      "rung = OBC_RUNG_RESET_SUBSYSTEM \<longrightarrow> reset_fn (table ! i) = None"
    | (safe) r where "rung = OBC_RUNG_RESET_MACHINE" "fl = Ret ()" "s' = obc_mode_enter_safe r s"
    | (reset) h where "rung = OBC_RUNG_RESET_MACHINE" "fl = Reset" "s' = s\<lparr>hw := h\<rparr>"
proof -
  note e = assms(2) [unfolded obc_recover_escalate_def index_nat [OF assms(1)]]
  consider "rung = OBC_RUNG_SUSPEND_TASK" | "rung = OBC_RUNG_RESET_SUBSYSTEM" | "rung = OBC_RUNG_RESET_MACHINE"
    | "rung \<noteq> OBC_RUNG_SUSPEND_TASK" "rung \<noteq> OBC_RUNG_RESET_SUBSYSTEM" "rung \<noteq> OBC_RUNG_RESET_MACHINE"
    by blast
  then show thesis
  proof cases
    case 1
    then show thesis using e suspend by (auto simp: Let_def)
  next
    case 2
    show thesis
    proof (cases "reset_fn (table ! i)")
      case None
      with e 2 have "fl = Ret ()" "s' = s" by simp_all
      then show thesis by (rule nothing) (simp_all add: 2 None)
    next
      case (Some g)
      with e 2 have fl: "fl = Ret ()" and s': "s' = g (say (''recover: rung 2, subsystem reset'' @ crlf)
          (log_suspension (of_nat i) frame rung s))" by simp_all
      show thesis by (rule subsystem [OF 2 fl Some s' [unfolded on_hw_def]])
    qed
  next
    case 3
    then show thesis
      using e safe reset by (auto simp: Let_def on_hw_def obc_reset_now_def split: if_splits)
  next
    case 4
    with e have "fl = Ret ()" "s' = s" by simp_all
    then show thesis by (rule nothing) (simp_all add: 4)
  qed
qed

lemma view_cong:
  "kept (t\<lparr>s_suspended_task := a, s_suspended_frame := b\<rparr>) = kept t"
  "nominal (log_suspension x y z t) = nominal t" "degraded (log_suspension x y z t) = degraded t"
  "nominal (t\<lparr>s_suspended_task := a, s_suspended_frame := b\<rparr>) = nominal t"
  "degraded (t\<lparr>s_suspended_task := a, s_suspended_frame := b\<rparr>) = degraded t"
  "nominal (t\<lparr>hw := h\<rparr>) = nominal t" "degraded (t\<lparr>hw := h\<rparr>) = degraded t"
  for t :: "'a sched_state_scheme"
  by (simp_all add: nominal_def degraded_def kept_def)

lemma escalate_keeps:
  assumes "i < length table" and "obc_recover_escalate table rung (of_nat i) frame s = (fl, s')"
  shows "kept s' = kept s" "degraded s \<Longrightarrow> degraded s'" "nominal s \<Longrightarrow> nominal s' \<or> degraded s'"
proof -
  have f: "kept (g t) = kept t" "nominal t \<Longrightarrow> nominal (g t)" "degraded t \<Longrightarrow> degraded (g t)"
    if "reset_fn (table ! i) = Some g" for g t
    using reset_behaves [OF assms(1) that] by (simp_all add: well_behaved_def)
  have "kept s' = kept s \<and> (degraded s \<longrightarrow> degraded s') \<and> (nominal s \<longrightarrow> nominal s' \<or> degraded s')"
    using assms by (cases rule: escalate_branches)
      (simp_all add: view_cong f nominal_enter_safe degraded_enter_safe)
  then show "kept s' = kept s" "degraded s \<Longrightarrow> degraded s'" "nominal s \<Longrightarrow> nominal s' \<or> degraded s'"
    by blast+
qed

lemma log_counts: "obc_suspension_count (log_suspension a b c t) \<noteq> 0" for t :: "'a sched_state_scheme"
proof (cases "obc_suspension_count t \<ge> OBC_SUSPEND_LOG_LEN")
  case True
  then show ?thesis by (auto simp: log_suspension_def OBC_SUSPEND_LOG_LEN_def)
next
  case False
  then have "unat (obc_suspension_count t) < 16"
    by (simp add: OBC_SUSPEND_LOG_LEN_def word_le_nat_alt not_le)
  then have "unat (obc_suspension_count t + 1) = unat (obc_suspension_count t) + 1"
    by (simp add: unat_word_ariths)
  then show ?thesis using False by (auto simp: log_suspension_def)
qed

text \<open>An overrun that does not reset the machine leaves a mark.\<close>

lemma escalate_spoils:
  assumes "i < length table" and "nominal s" and "s' = snd (obc_recover_escalate table rung (of_nat i) frame s)"
    and "fst (obc_recover_escalate table rung (of_nat i) frame s) = Ret u"
    and "rung = OBC_RUNG_RESET_SUBSYSTEM \<longrightarrow> reset_fn (table ! i) \<noteq> None"
    and "rung \<in> {OBC_RUNG_SUSPEND_TASK, OBC_RUNG_RESET_SUBSYSTEM, OBC_RUNG_RESET_MACHINE}"
  shows "spoiled s'"
proof -
  have e: "obc_recover_escalate table rung (of_nat i) frame s = (Ret u, s')" using assms(3,4) by (metis prod.collapse)
  have f: "obc_suspension_count (g t) = obc_suspension_count t" "nominal t \<Longrightarrow> nominal (g t)"
    if "reset_fn (table ! i) = Some g" for g t
    using reset_behaves [OF assms(1) that] by (simp_all add: well_behaved_def quiet_def)
  show ?thesis
    using assms(1) e
  proof (cases rule: escalate_branches)
    case (suspend f d r)
    then show ?thesis using assms(2) log_counts by (simp add: spoiled_def view_cong)
  next
    case (subsystem g h d r)
    then show ?thesis using assms(2) log_counts f by (simp add: spoiled_def view_cong)
  next
    case nothing
    then show ?thesis using assms(5,6) by auto
  next
    case (safe r)
    then show ?thesis using nominal_enter_safe [OF assms(2)] by (simp add: spoiled_def)
  qed simp
qed

lemma spoiled_escalate:
  assumes "i < length table" and "spoiled s"
    and "obc_recover_escalate table rung (of_nat i) frame s = (fl, s')"
  shows "spoiled s'"
proof (cases "degraded s")
  case True
  then show ?thesis using escalate_keeps(2) [OF assms(1,3)] by (simp add: spoiled_def)
next
  case False
  then have n: "nominal s" "obc_suspension_count s \<noteq> 0" using assms(2) by (simp_all add: spoiled_def)
  have f: "obc_suspension_count (g t) = obc_suspension_count t" "nominal t \<Longrightarrow> nominal (g t)"
    if "reset_fn (table ! i) = Some g" for g t
    using reset_behaves [OF assms(1) that] by (simp_all add: well_behaved_def quiet_def)
  show ?thesis
    using assms(1,3)
    by (cases rule: escalate_branches)
       (use n log_counts f in \<open>simp_all add: spoiled_def view_cong nominal_enter_safe\<close>)
qed

text \<open>One dispatch: the trace gains the task, whatever happens; if the machine is not reset, a
  nominal run either stays so with its suspensions untouched, or is spoiled.\<close>

lemma dispatch_parts:
  assumes "i < length table"
  obtains f s3 over rung where "task_fn (table ! i) = Some f" "well_behaved f"
    "kept s3 = kept (trace_push i s)" "quiet s3 = quiet s"
    "nominal s \<Longrightarrow> nominal s3" "degraded s \<Longrightarrow> degraded s3"
    "dispatch table i frame s = (if over then obc_recover_escalate table rung (of_nat i) frame s3 else (Ret (), s3))"
    "rung = OBC_RUNG_RESET_SUBSYSTEM \<longrightarrow> reset_fn (table ! i) \<noteq> None"
    "rung \<in> {OBC_RUNG_SUSPEND_TASK, OBC_RUNG_RESET_SUBSYSTEM, OBC_RUNG_RESET_MACHINE}"
proof -
  obtain f where f: "task_fn (table ! i) = Some f" using has_function [OF assms] by auto
  have wb: "well_behaved f" by (rule task_behaves [OF assms f])
  obtain before s1 where s1: "minstret (trace_push i s) = (before, s1)" by fastforce
  obtain after s2 where s2: "minstret (f s1) = (after, s2)" by fastforce
  let ?used = "after - before"
  let ?s3 = "account i ?used (budget_instr (table ! i)) s2"
  have d: "dispatch table i frame s = (if ?used > budget_instr (table ! i)
      then obc_recover_escalate table (overrun_rung (table ! i) (ts_overruns (obc_task_state ?s3 ! i)))
             (of_nat i) frame ?s3 else (Ret (), ?s3))"
    by (simp add: dispatch_def f s1 s2 Let_def)
  have k1: "kept s1 = kept (trace_push i s)" "quiet s1 = quiet s" "crit s1 = crit s" "s_announced s1 = s_announced s"
    using kept_minstret [of "trace_push i s"] s1 by simp_all
  have k2: "kept s2 = kept (f s1)" "quiet s2 = quiet (f s1)" "crit s2 = crit (f s1)" "s_announced s2 = s_announced (f s1)"
    using kept_minstret [of "f s1"] s2 by simp_all
  have w: "kept (f s1) = kept s1" "quiet (f s1) = quiet s1" "nominal s1 \<Longrightarrow> nominal (f s1)"
    "degraded s1 \<Longrightarrow> degraded (f s1)"
    using wb by (simp_all add: well_behaved_def)
  have m: "nominal s1 = nominal s" "degraded s1 = degraded s" by (rule mode_cong; simp add: k1)+
  have m3: "nominal ?s3 = nominal (f s1)" "degraded ?s3 = degraded (f s1)" by (rule mode_cong; simp add: k2)+
  show thesis
    by (rule that [OF f wb _ _ _ _ d])
       (use k1 k2 w m m3 in \<open>auto simp: overrun_rung_def\<close>)
qed

lemma dispatch_effect:
  assumes "i < length table" and "dispatch table i frame s = (fl, s')"
  shows "kept s' = kept (trace_push i s)" "degraded s \<Longrightarrow> degraded s'" "spoiled s \<Longrightarrow> spoiled s'"
    "nominal s \<Longrightarrow> nominal s' \<or> degraded s'"
    "nominal s \<Longrightarrow> fl = Ret u \<Longrightarrow> spoiled s' \<or> nominal s' \<and> quiet s' = quiet s"
proof -
  obtain f s3 over rung where p: "kept s3 = kept (trace_push i s)" "quiet s3 = quiet s"
    "nominal s \<Longrightarrow> nominal s3" "degraded s \<Longrightarrow> degraded s3"
    "dispatch table i frame s = (if over then obc_recover_escalate table rung (of_nat i) frame s3 else (Ret (), s3))"
    "rung = OBC_RUNG_RESET_SUBSYSTEM \<longrightarrow> reset_fn (table ! i) \<noteq> None"
    "rung \<in> {OBC_RUNG_SUSPEND_TASK, OBC_RUNG_RESET_SUBSYSTEM, OBC_RUNG_RESET_MACHINE}"
    by (rule dispatch_parts [OF assms(1), of s frame]) blast
  have sp: "spoiled s \<Longrightarrow> spoiled s3" using p(2-4) by (auto simp: spoiled_def quiet_def)
  have "kept s' = kept (trace_push i s) \<and> (degraded s \<longrightarrow> degraded s') \<and> (spoiled s \<longrightarrow> spoiled s') \<and>
      (nominal s \<longrightarrow> nominal s' \<or> degraded s') \<and>
      (nominal s \<longrightarrow> fl = Ret u \<longrightarrow> spoiled s' \<or> nominal s' \<and> quiet s' = quiet s)"
  proof (cases over)
    case False
    then show ?thesis using assms(2) p sp by simp
  next
    case True
    then have e: "obc_recover_escalate table rung (of_nat i) frame s3 = (fl, s')" using assms(2) p(5) by simp
    show ?thesis
      using escalate_keeps [OF assms(1) e] p(1-4) sp spoiled_escalate [OF assms(1) _ e]
        escalate_spoils [OF assms(1) p(3) _ _ p(6,7), of s' frame u] e by simp
  qed
  then show "kept s' = kept (trace_push i s)" "degraded s \<Longrightarrow> degraded s'" "spoiled s \<Longrightarrow> spoiled s'"
    "nominal s \<Longrightarrow> nominal s' \<or> degraded s'"
    "nominal s \<Longrightarrow> fl = Ret u \<Longrightarrow> spoiled s' \<or> nominal s' \<and> quiet s' = quiet s"
    by blast+
qed

text \<open>The whole loop. \<open>expected\<close> is what the table dictates for these indices.\<close>

definition expected :: "u32 \<Rightarrow> nat list \<Rightarrow> u8 list" where
  "expected frame is = map of_nat (filter (task_due table frame) is)"

definition unsuspended :: "'a sched_state_scheme \<Rightarrow> bool" where
  "unsuspended s \<longleftrightarrow> (\<forall>i < length table. s_suspended_task s \<noteq> of_nat i)"

lemma unsuspended_cong: "quiet s' = quiet s \<Longrightarrow> unsuspended s' = unsuspended s"
  by (simp add: unsuspended_def quiet_def)

lemma loop_spoiled:
  assumes "\<forall>i \<in> set is. i < length table" and "dispatch_loop table frame is d r s = (fl, s')"
  shows "spoiled s \<Longrightarrow> spoiled s'" "degraded s \<Longrightarrow> degraded s'"
proof -
  have safe: "spoiled (snd (obc_mode_is_safe t))" if "spoiled t" for t :: "'a sched_state_scheme"
    using that nominal_is_safe [of t] degraded_is_safe [of t] kept_is_safe(2) [of t]
    by (auto simp: spoiled_def quiet_def)
  have "(spoiled s \<longrightarrow> spoiled s') \<and> (degraded s \<longrightarrow> degraded s')"
    using assms
  proof (induction "is" arbitrary: d r s)
    case Nil
    then show ?case by simp
  next
    case (Cons i "is")
    have i: "i < length table" and rest: "\<forall>i \<in> set is. i < length table" using Cons.prems(1) by simp_all
    obtain sf s1 where s1: "obc_mode_is_safe s = (sf, s1)" by fastforce
    have k: "spoiled s \<Longrightarrow> spoiled s1" "degraded s \<Longrightarrow> degraded s1"
      using safe [of s] degraded_is_safe [of s] s1 by simp_all
    obtain f2 s2 where s2: "dispatch table i frame s1 = (f2, s2)" by fastforce
    note e = dispatch_effect(2,3) [OF i s2]
    show ?case
      using Cons.prems(2) s1 s2 k e Cons.IH [OF rest]
      by (auto split: if_splits flow.splits)
  qed
  then show "spoiled s \<Longrightarrow> spoiled s'" "degraded s \<Longrightarrow> degraded s'" by blast+
qed

text \<open>One turn of the dispatch loop in nominal mode with nothing suspended: the vote says so, and
  the entry is dispatched if it is due.\<close>

lemma loop_turn:
  assumes "i < length table" and "nominal s" and "unsuspended s"
  obtains t where "nominal t" "quiet t = quiet s" "kept t = kept s" "t = s \<or> t = snd (obc_mode_is_safe s)"
    "dispatch_loop table frame (i # is) d r s =
      (if task_due table frame i
       then (case dispatch table i frame t of
               (Reset, s2) \<Rightarrow> (Reset, s2) | (Ret _, s2) \<Rightarrow> dispatch_loop table frame is (d + 1) (r + 1) s2)
       else dispatch_loop table frame is d r t)"
proof -
  obtain sf s1 where s1: "obc_mode_is_safe s = (sf, s1)" by fastforce
  have n1: "\<not> sf" "nominal s1" "quiet s1 = quiet s" "kept s1 = kept s"
    using nominal_is_safe [OF assms(2)] kept_is_safe [of s] s1 by simp_all
  have "unsuspended s1" using unsuspended_cong [OF n1(3)] assms(3) by simp
  then have ns: "\<not> obc_recover_is_suspended (of_nat i) frame s1"
    using assms(1) by (simp add: unsuspended_def obc_recover_is_suspended_def)
  show thesis
  proof (cases "period_frames (table ! i) = 0")
    case True
    then show thesis using assms(2) by (intro that [of s]) (simp_all add: task_due_def)
  next
    case False
    then show thesis using n1 s1 ns by (intro that [of s1]) (simp_all add: task_due_def)
  qed
qed

lemma loop_conforms:
  assumes "\<forall>i \<in> set is. i < length table" and "dispatch_loop table frame is d r s = (Ret dr, s')"
    and "nominal s" and "unsuspended s" and "wf_trace s"
  shows "spoiled s' \<or> nominal s' \<and> quiet s' = quiet s \<and> wf_trace s' \<and>
    recorded s' = take 256 (recorded s @ expected frame is) \<and>
    dr = (d + length (expected frame is), r + length (expected frame is))"
  using assms
proof (induction "is" arbitrary: d r s)
  case Nil
  then show ?case by (auto simp: expected_def wf_trace_def recorded_def)
next
  case (Cons i "is")
  have i: "i < length table" and rest: "\<forall>i \<in> set is. i < length table" using Cons.prems(1) by simp_all
  obtain t where t: "nominal t" "quiet t = quiet s" "kept t = kept s"
    and turn: "dispatch_loop table frame (i # is) d r s =
      (if task_due table frame i
       then (case dispatch table i frame t of
               (Reset, s2) \<Rightarrow> (Reset, s2) | (Ret _, s2) \<Rightarrow> dispatch_loop table frame is (d + 1) (r + 1) s2)
       else dispatch_loop table frame is d r t)"
    by (rule loop_turn [OF i Cons.prems(3,4)]) blast
  have u: "unsuspended t" using unsuspended_cong [OF t(2)] Cons.prems(4) by simp
  have tr: "recorded t = recorded s" "wf_trace t" using trace_cong [OF t(3)] Cons.prems(5) by simp_all
  show ?case
  proof (cases "task_due table frame i")
    case False
    then have "dispatch_loop table frame is d r t = (Ret dr, s')" using turn Cons.prems(2) by simp
    from Cons.IH [OF rest this t(1) u tr(2)] show ?thesis using tr(1) t(2) False by (simp add: expected_def)
  next
    case True
    obtain f2 s2 where s2: "dispatch table i frame t = (f2, s2)" by fastforce
    have l: "f2 = Ret ()" "dispatch_loop table frame is (d + 1) (r + 1) s2 = (Ret dr, s')"
      using Cons.prems(2) turn True s2 by (auto split: flow.splits)
    note e = dispatch_effect [OF i s2]
    have exp: "expected frame (i # is) = of_nat i # expected frame is" using True by (simp add: expected_def)
    have t2: "recorded s2 = take 256 (recorded s @ [of_nat i])" "wf_trace s2"
      using trace_cong [OF e(1)] trace_push_recorded [OF tr(2), of i] tr(1) by simp_all
    consider "spoiled s2" | "nominal s2" "quiet s2 = quiet t" using e(5) [OF t(1) l(1)] by blast
    then show ?thesis
    proof cases
      case 1
      then show ?thesis using loop_spoiled(1) [OF rest l(2)] by blast
    next
      case 2
      have "unsuspended s2" using unsuspended_cong [OF 2(2)] u by simp
      from Cons.IH [OF rest l(2) 2(1) this t2(2)] show ?thesis
        unfolding exp t2(1) take_take_append using 2(2) t(2) by auto
    qed
  qed
qed

text \<open>The rest of a frame: the clock, the slack and the idle loop.\<close>

definition holds_on :: "'a sched_state_scheme \<Rightarrow> 'a sched_state_scheme \<Rightarrow> bool" where
  "holds_on s s' \<longleftrightarrow> kept s' = kept s \<and> (degraded s \<longrightarrow> degraded s') \<and> (spoiled s \<longrightarrow> spoiled s') \<and>
     (nominal s \<longrightarrow> spoiled s' \<or> nominal s' \<and> quiet s' = quiet s)"

lemma holds_on_refl: "holds_on s s"
  by (simp add: holds_on_def)

lemma holds_on_trans: "holds_on s t \<Longrightarrow> holds_on t u \<Longrightarrow> holds_on s u"
  unfolding holds_on_def by (elim conjE) (intro conjI impI; (simp; fail)?; metis)

lemma holds_on_same:
  "kept s' = kept s \<Longrightarrow> quiet s' = quiet s \<Longrightarrow> crit s' = crit s \<Longrightarrow> s_announced s' = s_announced s \<Longrightarrow>
   holds_on s s'"
  using mode_cong [of s' s] by (auto simp: holds_on_def spoiled_def quiet_def)

lemma holds_on_is_safe: "holds_on s (snd (obc_mode_is_safe s))"
  using nominal_is_safe [of s] degraded_is_safe [of s] kept_is_safe [of s]
  by (auto simp: holds_on_def spoiled_def quiet_def)

lemma holds_on_enter_safe: "holds_on s (obc_mode_enter_safe r s)"
  using nominal_enter_safe [of s r] degraded_enter_safe [of s r] kept_enter_safe [of r s]
  by (auto simp: holds_on_def spoiled_def quiet_def)

lemma sched_now_holds: "holds_on s (snd (snd (sched_now x frame s)))"
proof -
  obtain st v s1 where m: "obc_mtime_read (Some x) s = (st, v, s1)" by (metis prod_cases3)
  have h1: "holds_on s s1" using kept_mtime [of "Some x" s] m by (intro holds_on_same) simp_all
  obtain sf s2 where i: "obc_mode_is_safe s1 = (sf, s2)" by fastforce
  have h2: "holds_on s s2" using holds_on_trans [OF h1] holds_on_is_safe [of s1] i by simp
  have "holds_on s2 (s2\<lparr>obc_safe_entry_frame := frame\<rparr>)"
    by (rule holds_on_same) (simp_all add: kept_def quiet_def)
  then have "holds_on s (obc_mode_enter_safe OBC_SAFE_CLOCK (s2\<lparr>obc_safe_entry_frame := frame\<rparr>))"
    using holds_on_trans [OF h2] holds_on_trans holds_on_enter_safe by blast
  then show ?thesis using m i h1 h2 by (simp add: sched_now_def)
qed

lemma note_slack_holds: "holds_on s (note_slack frame now deadline s)"
proof (cases "now \<ge> deadline")
  case True
  let ?s1 = "s\<lparr>obc_frame_overruns := obc_frame_overruns s + 1, obc_slack_ticks_min := 0\<rparr>"
  have h1: "holds_on s ?s1" by (rule holds_on_same) (simp_all add: kept_def quiet_def)
  obtain sf s2 where i: "obc_mode_is_safe ?s1 = (sf, s2)" by fastforce
  have h2: "holds_on s s2" using holds_on_trans [OF h1] holds_on_is_safe [of ?s1] i by simp
  have "holds_on s2 (s2\<lparr>obc_safe_entry_frame := frame\<rparr>)"
    by (rule holds_on_same) (simp_all add: kept_def quiet_def)
  then have "holds_on s (obc_mode_enter_safe OBC_SAFE_FRAME_OVERRUN (s2\<lparr>obc_safe_entry_frame := frame\<rparr>))"
    using holds_on_trans [OF h2] holds_on_trans holds_on_enter_safe by blast
  then show ?thesis using True i h2 by (simp add: note_slack_def Let_def)
next
  case False
  then show ?thesis
    by (auto simp: note_slack_def Let_def holds_on_refl kept_def quiet_def intro!: holds_on_same)
qed

lemma idle_loop_holds: "holds_on s (snd (snd (idle_loop frame deadline guard now s)))"
proof (induction frame deadline guard now s rule: idle_loop.induct)
  case (1 frame deadline guard now s)
  obtain st v s1 where m: "sched_now now frame s = (st, v, s1)" by (metis prod_cases3)
  have h: "holds_on s s1" using sched_now_holds [of s now frame] m by simp
  show ?case
  proof (cases "guard < IDLE_GUARD \<and> st = OBC_OK \<and> \<not> deadline \<le> v")
    case True
    have "holds_on s1 (snd (snd (idle_loop frame deadline (guard + 1) v s1)))"
      using "1.IH" [OF _ m [symmetric] refl] True by simp
    then show ?thesis using True m holds_on_trans [OF h] by (subst idle_loop.simps) simp
  next
    case False
    then show ?thesis using m h holds_on_refl by (subst idle_loop.simps) auto
  qed
qed

text \<open>The same without the frame counter.\<close>

definition follows :: "'a sched_state_scheme \<Rightarrow> 'a sched_state_scheme \<Rightarrow> bool" where
  "follows s s' \<longleftrightarrow> obc_trace s' = obc_trace s \<and> obc_trace_len s' = obc_trace_len s \<and>
     (degraded s \<longrightarrow> degraded s') \<and> (spoiled s \<longrightarrow> spoiled s') \<and>
     (nominal s \<longrightarrow> spoiled s' \<or> nominal s' \<and> quiet s' = quiet s)"

lemma holds_on_follows: "holds_on s s' \<Longrightarrow> follows s s'"
  by (auto simp: holds_on_def follows_def kept_def)

lemma follows_trace: "follows s s' \<Longrightarrow> recorded s' = recorded s \<and> wf_trace s' = wf_trace s"
  by (simp add: follows_def recorded_def wf_trace_def)

lemma follows_count: "holds_on s s' \<Longrightarrow> follows s (s'\<lparr>obc_frames_run := n\<rparr>)"
  using mode_cong [of "s'\<lparr>obc_frames_run := n\<rparr>" s']
  by (auto simp: holds_on_def follows_def kept_def spoiled_def quiet_def)

text \<open>A frame is its dispatch loop, then what keeps the run as it is.\<close>

lemma frame_step_parts:
  assumes "frame_step table frame start s = (fl, s')"
  obtains f1 s1 where
    "dispatch_loop table frame [0..<length table] 0 0 (s\<lparr>obc_cmd_now_ticks := ucast start\<rparr>) = (f1, s1)"
    "follows s1 s'" "fl = Ret OBC_OK \<Longrightarrow> \<exists>dr. f1 = Ret dr"
proof -
  let ?deadline = "start + ucast OBC_FRAME_TICKS"
  obtain f1 s1 where d: "dispatch_loop table frame [0..<length table] 0 0
      (s\<lparr>obc_cmd_now_ticks := ucast start\<rparr>) = (f1, s1)" by fastforce
  show thesis
  proof (cases f1)
    case Reset
    then show thesis using that [OF d] assms d holds_on_follows [OF holds_on_refl]
      by (auto simp: frame_step_def Let_def)
  next
    case (Ret dr)
    obtain nd nr where dr: "dr = (nd, nr)" by fastforce
    let ?sa = "feed_if_earned table frame nd nr s1"
    have ha: "holds_on s1 ?sa" by (rule holds_on_same) simp_all
    obtain st now s2 where n: "sched_now 0 frame ?sa = (st, now, s2)" by (metis prod_cases3)
    have h2: "holds_on s1 s2" using holds_on_trans [OF ha] sched_now_holds [of ?sa 0 frame] n by simp
    let ?sb = "note_slack frame now ?deadline s2"
    have hb: "holds_on s1 ?sb" using holds_on_trans [OF h2] note_slack_holds by blast
    obtain st' now' s3 where m: "idle_loop frame ?deadline 0 now ?sb = (st', now', s3)" by (metis prod_cases3)
    have h3: "holds_on s1 s3" using holds_on_trans [OF hb] idle_loop_holds [of ?sb frame ?deadline 0 now] m by simp
    have "follows s1 s'"
      using assms d Ret dr n m holds_on_follows [OF h2] holds_on_follows [OF h3] follows_count [OF h3]
      by (auto simp: frame_step_def Let_def split: if_splits)
    then show thesis using that [OF d] Ret by simp
  qed
qed

lemma start_of_frame:
  "nominal (s\<lparr>obc_cmd_now_ticks := t\<rparr>) = nominal s" "degraded (s\<lparr>obc_cmd_now_ticks := t\<rparr>) = degraded s"
  "spoiled (s\<lparr>obc_cmd_now_ticks := t\<rparr>) = spoiled s" "unsuspended (s\<lparr>obc_cmd_now_ticks := t\<rparr>) = unsuspended s"
  "wf_trace (s\<lparr>obc_cmd_now_ticks := t\<rparr>) = wf_trace s" "recorded (s\<lparr>obc_cmd_now_ticks := t\<rparr>) = recorded s"
  "quiet (s\<lparr>obc_cmd_now_ticks := t\<rparr>) = quiet s"
  for s :: "'a sched_state_scheme"
  by (simp_all add: nominal_def degraded_def spoiled_def unsuspended_def wf_trace_def recorded_def quiet_def)

lemma frame_step_spoiled:
  assumes "frame_step table frame start s = (fl, s')"
  shows "degraded s \<Longrightarrow> degraded s'" "spoiled s \<Longrightarrow> spoiled s'"
proof -
  obtain f1 s1 where d: "dispatch_loop table frame [0..<length table] 0 0
      (s\<lparr>obc_cmd_now_ticks := ucast start\<rparr>) = (f1, s1)" and f: "follows s1 s'"
    by (rule frame_step_parts [OF assms])
  have ids: "\<forall>i \<in> set [0..<length table]. i < length table" by simp
  show "degraded s \<Longrightarrow> degraded s'" "spoiled s \<Longrightarrow> spoiled s'"
    using loop_spoiled [OF ids d] f by (simp_all add: start_of_frame follows_def)
qed

lemma frame_step_conforms:
  assumes "frame_step table frame start s = (Ret OBC_OK, s')"
    and "nominal s" and "unsuspended s" and "wf_trace s"
  shows "spoiled s' \<or> nominal s' \<and> quiet s' = quiet s \<and> wf_trace s' \<and>
    recorded s' = take 256 (recorded s @ expected frame [0..<length table])"
proof -
  obtain f1 s1 where d: "dispatch_loop table frame [0..<length table] 0 0
      (s\<lparr>obc_cmd_now_ticks := ucast start\<rparr>) = (f1, s1)" and f: "follows s1 s'" and "\<exists>dr. f1 = Ret dr"
    by (rule frame_step_parts [OF assms(1)]) blast
  then obtain dr where d: "dispatch_loop table frame [0..<length table] 0 0
      (s\<lparr>obc_cmd_now_ticks := ucast start\<rparr>) = (Ret dr, s1)" by auto
  have ids: "\<forall>i \<in> set [0..<length table]. i < length table" by simp
  from loop_conforms [OF ids d] assms(2-4)
  consider "spoiled s1" | "nominal s1" "quiet s1 = quiet s" "wf_trace s1"
    "recorded s1 = take 256 (recorded s @ expected frame [0..<length table])"
    by (auto simp: start_of_frame)
  then show ?thesis
  proof cases
    case 1
    then show ?thesis using f by (simp add: follows_def)
  next
    case 2
    then show ?thesis using f follows_trace [OF f] by (auto simp: follows_def)
  qed
qed

text \<open>The window. \<open>schedule k frame\<close> is what the table dictates for \<open>k\<close> frames.\<close>

definition schedule :: "nat \<Rightarrow> u32 \<Rightarrow> u8 list" where
  "schedule k frame = concat (map (\<lambda>j. expected (frame + of_nat j) [0..<length table]) [0..<k])"

lemma schedule_Suc: "schedule (Suc k) frame = expected frame [0..<length table] @ schedule k (frame + 1)"
  by (simp add: schedule_def upt_conv_Cons map_Suc_upt [symmetric] comp_def add.assoc del: upt_Suc)

lemma end_of_window:
  "nominal (s\<lparr>obc_window_end_ticks := t\<rparr>) = nominal s" "degraded (s\<lparr>obc_window_end_ticks := t\<rparr>) = degraded s"
  "spoiled (s\<lparr>obc_window_end_ticks := t\<rparr>) = spoiled s" "recorded (s\<lparr>obc_window_end_ticks := t\<rparr>) = recorded s"
  for s :: "'a sched_state_scheme"
  by (simp_all add: nominal_def degraded_def spoiled_def recorded_def)

lemma frame_loop_spoiled:
  assumes "frame_loop table k frame start s = (fl, s')"
  shows "degraded s \<Longrightarrow> degraded s'" "spoiled s \<Longrightarrow> spoiled s'"
proof -
  have "(degraded s \<longrightarrow> degraded s') \<and> (spoiled s \<longrightarrow> spoiled s')"
    using assms
  proof (induction k arbitrary: frame start s)
    case 0
    then show ?case by (auto simp: end_of_window)
  next
    case (Suc k)
    obtain f1 s1 where f: "frame_step table frame start s = (f1, s1)" by fastforce
    show ?case
      using Suc.prems f frame_step_spoiled [OF f] Suc.IH [of "frame + 1" "start + ucast OBC_FRAME_TICKS" s1]
      by (auto split: flow.splits if_splits)
  qed
  then show "degraded s \<Longrightarrow> degraded s'" "spoiled s \<Longrightarrow> spoiled s'" by blast+
qed

lemma frame_loop_conforms:
  assumes "frame_loop table k frame start s = (Ret OBC_OK, s')"
    and "nominal s" and "unsuspended s" and "wf_trace s"
  shows "spoiled s' \<or> nominal s' \<and> recorded s' = take 256 (recorded s @ schedule k frame)"
  using assms
proof (induction k arbitrary: frame start s)
  case 0
  then have "recorded s = take 256 (recorded s)" by (simp add: wf_trace_def recorded_def)
  with 0 show ?case by (auto simp: end_of_window schedule_def)
next
  case (Suc k)
  obtain f1 s1 where f: "frame_step table frame start s = (f1, s1)" by fastforce
  have ok: "f1 = Ret OBC_OK" and rest: "frame_loop table k (frame + 1) (start + ucast OBC_FRAME_TICKS) s1 = (Ret OBC_OK, s')"
    using Suc.prems(1) f by (auto split: flow.splits if_splits)
  from frame_step_conforms [OF f [unfolded ok] Suc.prems(2-4)]
  consider "spoiled s1" | "nominal s1" "quiet s1 = quiet s" "wf_trace s1"
    "recorded s1 = take 256 (recorded s @ expected frame [0..<length table])"
    by blast
  then show ?case
  proof cases
    case 1
    then show ?thesis using frame_loop_spoiled(2) [OF rest] by blast
  next
    case 2
    have "unsuspended s1" using unsuspended_cong [OF 2(2)] Suc.prems(3) by simp
    from Suc.IH [OF rest 2(1) this 2(3)] show ?thesis
      unfolding 2(4) take_take_append schedule_Suc by simp
  qed
qed

text \<open>Degraded, only the essential subset is dispatched, whatever becomes of the run.\<close>

definition essentials_after :: "u8 list \<Rightarrow> u8 list \<Rightarrow> bool" where
  "essentials_after before after \<longleftrightarrow>
     (\<exists>ds. after = take 256 (before @ map of_nat ds) \<and> (\<forall>i \<in> set ds. i < length table \<and> essential (table ! i) \<noteq> 0))"

lemma essentials_refl: "length xs \<le> 256 \<Longrightarrow> essentials_after xs xs"
  unfolding essentials_after_def by (intro exI [of _ "[]"]) simp

lemma essentials_trans: "essentials_after xs ys \<Longrightarrow> essentials_after ys zs \<Longrightarrow> essentials_after xs zs"
proof -
  assume "essentials_after xs ys" "essentials_after ys zs"
  then obtain d e where de: "ys = take 256 (xs @ map of_nat d)" "zs = take 256 (ys @ map of_nat e)"
    "\<forall>i \<in> set d. i < length table \<and> essential (table ! i) \<noteq> 0"
    "\<forall>i \<in> set e. i < length table \<and> essential (table ! i) \<noteq> 0"
    unfolding essentials_after_def by (elim exE conjE) (rule that)
  show ?thesis
    unfolding essentials_after_def
  proof (intro exI [of _ "d @ e"] conjI)
    show "zs = take 256 (xs @ map of_nat (d @ e))"
      unfolding de(2) de(1) take_take_append by simp
    show "\<forall>i \<in> set (d @ e). i < length table \<and> essential (table ! i) \<noteq> 0" using de(3,4) by auto
  qed
qed

lemma recorded_length: "wf_trace s \<Longrightarrow> length (recorded s) \<le> 256"
  by (simp add: wf_trace_def recorded_def)

lemma loop_essential:
  assumes "\<forall>i \<in> set is. i < length table" and "dispatch_loop table frame is d r s = (fl, s')"
    and "degraded s" and "wf_trace s"
  shows "wf_trace s' \<and> essentials_after (recorded s) (recorded s')"
  using assms
proof (induction "is" arbitrary: d r s)
  case Nil
  then show ?case by (auto simp: essentials_refl recorded_length)
next
  case (Cons i "is")
  have i: "i < length table" and rest: "\<forall>i \<in> set is. i < length table" using Cons.prems(1) by simp_all
  obtain sf s1 where s1: "obc_mode_is_safe s = (sf, s1)" by fastforce
  have n1: "sf" "degraded s1" "kept s1 = kept s"
    using degraded_is_safe [OF Cons.prems(3)] kept_is_safe [of s] s1 by simp_all
  have t1: "recorded s1 = recorded s" "wf_trace s1" using trace_cong [OF n1(3)] Cons.prems(4) by simp_all
  obtain f2 s2 where s2: "dispatch table i frame s1 = (f2, s2)" by fastforce
  note e = dispatch_effect(1,2) [OF i s2]
  have d2: "degraded s2" using e(2) n1(2) by simp
  have t2: "recorded s2 = take 256 (recorded s @ [of_nat i])" "wf_trace s2"
    using trace_cong [OF e(1)] trace_push_recorded [OF t1(2), of i] t1(1) by simp_all
  consider d' r' t where "dispatch_loop table frame is d' r' t = (fl, s')" "t \<in> {s, s1}"
    | "essential (table ! i) \<noteq> 0" "f2 = Reset" "s' = s2"
    | "essential (table ! i) \<noteq> 0" "dispatch_loop table frame is (d + 1) (r + 1) s2 = (fl, s')"
    using Cons.prems(2) s1 s2 n1(1) by (auto split: if_splits flow.splits)
  then show ?case
  proof cases
    case 1
    then show ?thesis using Cons.IH [OF rest 1(1)] Cons.prems(3,4) n1(2) t1 by auto
  next
    case 2
    then show ?thesis using t2 i unfolding essentials_after_def by (intro conjI exI [of _ "[i]"]) simp_all
  next
    case 3
    have "essentials_after (recorded s) (recorded s2)"
      using t2(1) 3(1) i unfolding essentials_after_def by (intro exI [of _ "[i]"]) simp
    then show ?thesis using Cons.IH [OF rest 3(2) d2 t2(2)] essentials_trans by blast
  qed
qed

lemma frame_loop_essential:
  assumes "frame_loop table k frame start s = (fl, s')" and "degraded s" and "wf_trace s"
  shows "essentials_after (recorded s) (recorded s')"
  using assms
proof (induction k arbitrary: frame start s)
  case 0
  then show ?case by (auto simp: end_of_window essentials_refl recorded_length)
next
  case (Suc k)
  obtain f1 s1 where f: "frame_step table frame start s = (f1, s1)" by fastforce
  obtain fd sd where d: "dispatch_loop table frame [0..<length table] 0 0
      (s\<lparr>obc_cmd_now_ticks := ucast start\<rparr>) = (fd, sd)" and fo: "follows sd s1"
    by (rule frame_step_parts [OF f])
  have ids: "\<forall>i \<in> set [0..<length table]. i < length table" by simp
  have t1: "wf_trace s1" "essentials_after (recorded s) (recorded s1)"
    using loop_essential [OF ids d] Suc.prems(2,3) follows_trace [OF fo] by (simp_all add: start_of_frame)
  have d1: "degraded s1" using frame_step_spoiled(1) [OF f Suc.prems(2)] .
  show ?case
  proof (cases "f1 = Ret OBC_OK")
    case True
    then have "frame_loop table k (frame + 1) (start + ucast OBC_FRAME_TICKS) s1 = (fl, s')"
      using Suc.prems(1) f by simp
    then show ?thesis using essentials_trans [OF t1(2)] Suc.IH [OF _ d1 t1(1)] by blast
  next
    case False
    then have "s' = s1" using Suc.prems(1) f by (auto split: flow.splits if_splits)
    then show ?thesis using t1(2) by simp
  qed
qed

text \<open>The cadence: the boundary advances by exactly one frame per frame, whatever ran.\<close>

definition accounting :: "'a sched_state_scheme \<Rightarrow> u32 \<times> u32" where
  "accounting s = (obc_frames_run s, obc_window_start_ticks s)"

lemma kept_accounting: "kept s' = kept s \<Longrightarrow> accounting s' = accounting s"
  by (simp add: kept_def accounting_def)

lemma loop_accounting:
  assumes "\<forall>i \<in> set is. i < length table" and "dispatch_loop table frame is d r s = (fl, s')"
  shows "accounting s' = accounting s"
  using assms
proof (induction "is" arbitrary: d r s)
  case Nil
  then show ?case by simp
next
  case (Cons i "is")
  have i: "i < length table" and rest: "\<forall>i \<in> set is. i < length table" using Cons.prems(1) by simp_all
  obtain sf s1 where s1: "obc_mode_is_safe s = (sf, s1)" by fastforce
  have a1: "accounting s1 = accounting s" using kept_accounting [of s1 s] kept_is_safe(1) [of s] s1 by simp
  obtain f2 s2 where s2: "dispatch table i frame s1 = (f2, s2)" by fastforce
  have "accounting s2 = accounting (trace_push i s1)"
    by (rule kept_accounting) (rule dispatch_effect(1) [OF i s2])
  then have a2: "accounting s2 = accounting s" using a1 by (simp add: accounting_def)
  consider d' r' t where "dispatch_loop table frame is d' r' t = (fl, s')" "t \<in> {s, s1}"
    | "f2 = Reset" "s' = s2" | "dispatch_loop table frame is (d + 1) (r + 1) s2 = (fl, s')"
    using Cons.prems(2) s1 s2 by (auto split: if_splits flow.splits)
  then show ?case
  proof cases
    case 1
    then show ?thesis using Cons.IH [OF rest 1(1)] a1 by auto
  next
    case 2
    then show ?thesis using a2 by simp
  next
    case 3
    then show ?thesis using Cons.IH [OF rest 3] a2 by simp
  qed
qed

lemma frame_step_accounting:
  assumes "frame_step table frame start s = (Ret OBC_OK, s')"
  shows "obc_frames_run s' = obc_frames_run s + 1 \<and> obc_window_start_ticks s' = obc_window_start_ticks s"
proof -
  let ?s0 = "s\<lparr>obc_cmd_now_ticks := ucast start\<rparr>" and ?deadline = "start + ucast OBC_FRAME_TICKS"
  obtain f1 s1 where d: "dispatch_loop table frame [0..<length table] 0 0 ?s0 = (f1, s1)" by fastforce
  then obtain nd nr where f1: "f1 = Ret (nd, nr)" using assms by (auto simp: frame_step_def Let_def split: flow.splits)
  have ids: "\<forall>i \<in> set [0..<length table]. i < length table" by simp
  have a1: "accounting s1 = accounting s" using loop_accounting [OF ids d] by (simp add: accounting_def)
  let ?sa = "feed_if_earned table frame nd nr s1"
  obtain st now s2 where n: "sched_now 0 frame ?sa = (st, now, s2)" by (metis prod_cases3)
  let ?sb = "note_slack frame now ?deadline s2"
  obtain st' now' s3 where m: "idle_loop frame ?deadline 0 now ?sb = (st', now', s3)" by (metis prod_cases3)
  have "holds_on ?sa s2" "holds_on s2 ?sb" "holds_on ?sb s3"
    using sched_now_holds [of ?sa 0 frame] n note_slack_holds idle_loop_holds [of ?sb frame ?deadline 0 now] m by simp_all
  then have "kept s3 = kept ?sa" by (simp add: holds_on_def)
  then have "accounting s3 = accounting s" using kept_accounting a1 by (metis kept_feed(1))
  moreover have "s' = s3\<lparr>obc_frames_run := obc_frames_run s3 + 1\<rparr>"
    using assms d f1 n m by (auto simp: frame_step_def Let_def split: if_splits)
  ultimately show ?thesis by (simp add: accounting_def)
qed

lemma frame_loop_cadence:
  assumes "frame_loop table k frame start s = (Ret OBC_OK, s')"
  shows "obc_window_end_ticks s' = ucast start + of_nat k * OBC_FRAME_TICKS \<and>
    obc_frames_run s' = obc_frames_run s + of_nat k \<and> obc_window_start_ticks s' = obc_window_start_ticks s"
  using assms
proof (induction k arbitrary: frame start s)
  case 0
  then show ?case by auto
next
  case (Suc k)
  obtain f1 s1 where f: "frame_step table frame start s = (f1, s1)" by fastforce
  have ok: "f1 = Ret OBC_OK" and rest: "frame_loop table k (frame + 1) (start + ucast OBC_FRAME_TICKS) s1 = (Ret OBC_OK, s')"
    using Suc.prems f by (auto split: flow.splits if_splits)
  have u: "(ucast (start + ucast OBC_FRAME_TICKS) :: u32) = ucast start + OBC_FRAME_TICKS" for start :: u64
    unfolding OBC_FRAME_TICKS_def
    by (rule word_unat_eq_iff [THEN iffD2])
      (simp add: unsigned_ucast_eq unat_word_ariths take_bit_eq_mod mod_mod_cancel mod_simps)
  show ?case
    using Suc.IH [OF rest] frame_step_accounting [OF f [unfolded ok]] unfolding u
    by (simp add: algebra_simps)
qed

text \<open>The whole run: the watchdog is armed and disarmed around a window.\<close>

lemma follows_refl: "follows s s"
  by (rule holds_on_follows) (rule holds_on_refl)

lemma follows_trans: "follows s t \<Longrightarrow> follows t u \<Longrightarrow> follows s u"
  unfolding follows_def by (elim conjE) (intro conjI impI; (simp; fail)?; metis)

lemma follows_same:
  "obc_trace s' = obc_trace s \<Longrightarrow> obc_trace_len s' = obc_trace_len s \<Longrightarrow> quiet s' = quiet s \<Longrightarrow>
   crit s' = crit s \<Longrightarrow> s_announced s' = s_announced s \<Longrightarrow> follows s s'"
  using mode_cong [of s' s] by (auto simp: follows_def spoiled_def quiet_def)

lemma run_window_parts:
  assumes "run_window table frames s = (fl, s')"
  obtains "follows s s'" "fl \<noteq> Ret OBC_OK"
  | start s3 where "frame_loop table (unat frames) 0 start s3 = (fl, s')" "follows s s3"
      "obc_frames_run s3 = obc_frames_run s" "obc_window_start_ticks s3 = ucast start"
proof (cases "table = [] \<or> length table > unat OBC_MAX_TASKS")
  case True
  then show thesis using assms that(1) follows_refl by (auto simp: run_window_def)
next
  case False
  obtain st start s1 where n: "sched_now 0 0 s = (st, start, s1)" by (metis prod_cases3)
  have h1: "holds_on s s1" using sched_now_holds [of s 0 0] n by simp
  show thesis
  proof (cases "st = OBC_OK")
    case no: False
    then show thesis using assms False n that(1) holds_on_follows [OF h1] by (auto simp: run_window_def)
  next
    case True
    let ?s2 = "s1\<lparr>obc_slack_ticks_min := OBC_FRAME_TICKS, obc_window_start_ticks := ucast start\<rparr>"
    have f2: "follows s ?s2"
      by (rule follows_trans [OF holds_on_follows [OF h1]]) (rule follows_same; simp add: quiet_def)
    obtain sf s3 where m: "obc_mode_is_safe ?s2 = (sf, s3)" by fastforce
    have h3: "holds_on ?s2 s3" using holds_on_is_safe [of ?s2] m by simp
    let ?s4 = "if sf \<and> obc_safe_entry_frame s3 = OBC_SAFE_ENTRY_NONE
                then s3\<lparr>obc_safe_entry_frame := 0\<rparr> else s3"
    have "follows s3 ?s4" by (rule follows_same) (simp_all add: quiet_def)
    then have f4: "follows s ?s4"
      using follows_trans [OF follows_trans [OF f2 holds_on_follows [OF h3]]] by simp
    have k: "kept ?s4 = kept ?s2" using h3 by (simp add: holds_on_def kept_def)
    have k1: "kept s1 = kept s" using h1 by (simp add: holds_on_def)
    show thesis
      by (rule that(2) [of start ?s4])
        (use assms False n True m f4 k k1 in \<open>simp_all add: run_window_def Let_def kept_def\<close>)
  qed
qed

lemma watchdog_frame:
  "follows s (obc_recover_arm_hardware s)" "follows s (obc_recover_disarm_hardware s)"
  "kept (obc_recover_arm_hardware s) = kept s" "kept (obc_recover_disarm_hardware s) = kept s"
  "obc_window_end_ticks (obc_recover_disarm_hardware s) = obc_window_end_ticks s"
  for s :: "'a sched_state_scheme"
  by (auto intro!: follows_same
        simp: obc_recover_arm_hardware_def obc_recover_disarm_hardware_def aon_write_def kept_def quiet_def)

lemma sched_run_parts:
  assumes "obc_sched_run table frames s = (fl, s')"
  obtains s1 where "run_window table frames (obc_recover_arm_hardware s) = (fl, s1)" "follows s1 s'"
    "kept s' = kept s1" "obc_window_end_ticks s' = obc_window_end_ticks s1"
proof (cases "run_window table frames (obc_recover_arm_hardware s)")
  case (Pair f1 s1)
  then show thesis
    using assms that [of s1] watchdog_frame(2,4,5) [of s1] follows_refl
    by (cases f1) (auto simp: obc_sched_run_def)
qed

lemma run_spoiled:
  assumes "obc_sched_run table frames s = (fl, s')"
  shows "degraded s \<Longrightarrow> degraded s'" "spoiled s \<Longrightarrow> spoiled s'"
proof -
  obtain s1 where r: "run_window table frames (obc_recover_arm_hardware s) = (fl, s1)" "follows s1 s'"
    by (rule sched_run_parts [OF assms])
  have "(degraded s \<longrightarrow> degraded s1) \<and> (spoiled s \<longrightarrow> spoiled s1)"
    using r(1)
  proof (cases rule: run_window_parts)
    case 1
    then show ?thesis using watchdog_frame(1) [of s] by (simp add: follows_def)
  next
    case (2 start s3)
    then show ?thesis using watchdog_frame(1) [of s] frame_loop_spoiled [OF 2(1)] by (simp add: follows_def)
  qed
  then show "degraded s \<Longrightarrow> degraded s'" "spoiled s \<Longrightarrow> spoiled s'" using r(2) by (simp_all add: follows_def)
qed

text \<open>A run that ends well, not degraded and with nothing suspended, dispatched exactly the schedule.\<close>

lemma run_conforms:
  assumes "obc_sched_run table frames s = (Ret OBC_OK, s')"
    and "nominal s" and "unsuspended s" and "wf_trace s" and "\<not> spoiled s'"
  shows "nominal s' \<and> recorded s' = take 256 (recorded s @ schedule (unat frames) 0)"
proof -
  let ?a = "obc_recover_arm_hardware s"
  obtain s1 where r: "run_window table frames ?a = (Ret OBC_OK, s1)" "follows s1 s'"
    by (rule sched_run_parts [OF assms(1)])
  have a: "spoiled ?a \<or> nominal ?a \<and> quiet ?a = quiet s"
    using watchdog_frame(1) [of s] assms(2) by (simp add: follows_def)
  show ?thesis
    using r(1)
  proof (cases rule: run_window_parts)
    case 1
    then show ?thesis by simp
  next
    case (2 start s3)
    note f = follows_trans [OF watchdog_frame(1) 2(2)]
    have t3: "recorded s3 = recorded s" "wf_trace s3" using follows_trace [OF f] assms(4) by simp_all
    have ns: "\<not> spoiled s1" using r(2) assms(5) by (auto simp: follows_def)
    have n3: "nominal s3" "quiet s3 = quiet s"
      using f assms(2) ns frame_loop_spoiled(2) [OF 2(1)] by (auto simp: follows_def)
    have "unsuspended s3" using unsuspended_cong [OF n3(2)] assms(3) by simp
    from frame_loop_conforms [OF 2(1) n3(1) this t3(2)] ns
    have "nominal s1" "recorded s1 = take 256 (recorded s @ schedule (unat frames) 0)"
      by (simp_all add: t3(1))
    then show ?thesis using r(2) follows_trace [OF r(2)] assms(5) by (simp add: follows_def)
  qed
qed

lemma run_essential:
  assumes "obc_sched_run table frames s = (fl, s')" and "degraded s" and "wf_trace s"
  shows "essentials_after (recorded s) (recorded s')"
proof -
  obtain s1 where r: "run_window table frames (obc_recover_arm_hardware s) = (fl, s1)" "follows s1 s'"
    by (rule sched_run_parts [OF assms(1)])
  have "essentials_after (recorded s) (recorded s1)"
    using r(1)
  proof (cases rule: run_window_parts)
    case 1
    then show ?thesis
      using follows_trace [OF follows_trans [OF watchdog_frame(1) 1(1)]] essentials_refl [OF recorded_length [OF assms(3)]]
      by simp
  next
    case (2 start s3)
    note f = follows_trans [OF watchdog_frame(1) 2(2)]
    have "degraded s3" "wf_trace s3" "recorded s3 = recorded s"
      using f follows_trace [OF f] assms(2,3) by (simp_all add: follows_def)
    then show ?thesis using frame_loop_essential [OF 2(1)] by simp
  qed
  then show ?thesis using follows_trace [OF r(2)] by simp
qed

lemma run_cadence:
  assumes "obc_sched_run table frames s = (Ret OBC_OK, s')"
  shows "obc_window_end_ticks s' - obc_window_start_ticks s' = frames * OBC_FRAME_TICKS \<and>
    obc_frames_run s' = obc_frames_run s + frames"
proof -
  obtain s1 where r: "run_window table frames (obc_recover_arm_hardware s) = (Ret OBC_OK, s1)"
    "kept s' = kept s1" "obc_window_end_ticks s' = obc_window_end_ticks s1"
    by (rule sched_run_parts [OF assms])
  have a: "obc_frames_run (obc_recover_arm_hardware s) = obc_frames_run s"
    using watchdog_frame(3) [of s] by (simp add: kept_def)
  show ?thesis
    using r(1)
  proof (cases rule: run_window_parts)
    case 1
    then show ?thesis by simp
  next
    case (2 start s3)
    then show ?thesis using frame_loop_cadence [OF 2(1)] r(2,3) a by (simp add: kept_def)
  qed
qed

end

end
