(* ===== verification/Sensor.thy ===== *)
theory Sensor
  imports Prelude
begin

text \<open>
  Sensor sampling and validation, \<^verbatim>\<open>flight/tlm/sensor.c\<close>: two sensors, each with a range, a
  run-length detector and three flag bits. The readings come from the array the harness
  writes in place of a device (\<^verbatim>\<open>obc_sensor_mock_raw\<close>).
\<close>

section \<open>State\<close>

definition OBC_SENSOR_COUNT :: nat where [obc_consts]: "OBC_SENSOR_COUNT = 2"
definition OBC_SENSOR_INVALID :: u16 where [obc_consts]: "OBC_SENSOR_INVALID = 0xFFFF"
definition OBC_SENSOR_FLAG_BITS :: nat where [obc_consts]: "OBC_SENSOR_FLAG_BITS = 3"
definition OBC_SENSOR_STUCK_LIMIT :: u8 where [obc_consts]: "OBC_SENSOR_STUCK_LIMIT = 8"

definition OBC_SENSOR_FLAG_RANGE :: "nat \<Rightarrow> u32" where
  "OBC_SENSOR_FLAG_RANGE i = push_bit (i * OBC_SENSOR_FLAG_BITS + 0) 1"
definition OBC_SENSOR_FLAG_STUCK :: "nat \<Rightarrow> u32" where
  "OBC_SENSOR_FLAG_STUCK i = push_bit (i * OBC_SENSOR_FLAG_BITS + 1) 1"
definition OBC_SENSOR_FLAG_NODATA :: "nat \<Rightarrow> u32" where
  "OBC_SENSOR_FLAG_NODATA i = push_bit (i * OBC_SENSOR_FLAG_BITS + 2) 1"

record sensor_desc =
  sd_name :: string
  sd_min :: u16
  sd_max :: u16

definition obc_sensor_desc :: "sensor_desc list" where
  "obc_sensor_desc =
     [\<lparr>sd_name = ''temp'', sd_min = 200, sd_max = 3800\<rparr>, \<lparr>sd_name = ''rate'', sd_min = 100, sd_max = 900\<rparr>]"

record sensor_st =
  obc_sensor_value :: "u16 list"
  obc_sensor_flags :: u32
  obc_sensor_rejects_range :: "u32 list"
  obc_sensor_rejects_stuck :: "u32 list"
  obc_sensor_mock_raw :: "u16 list"
  s_last_raw :: "u16 list"
  s_run :: "u8 list"
  s_seen :: "u8 list"

section \<open>Operations\<close>

definition init_one :: "nat \<Rightarrow> sensor_st \<Rightarrow> sensor_st" where
  "init_one i s =
     s\<lparr>obc_sensor_value := (obc_sensor_value s)[i := OBC_SENSOR_INVALID],
       s_last_raw := (s_last_raw s)[i := 0], s_run := (s_run s)[i := 0], s_seen := (s_seen s)[i := 0],
       obc_sensor_flags := obc_sensor_flags s OR OBC_SENSOR_FLAG_NODATA i\<rparr>"

definition obc_sensor_init :: "sensor_st \<Rightarrow> sensor_st" where
  "obc_sensor_init s = fold init_one [0..<OBC_SENSOR_COUNT] (s\<lparr>obc_sensor_flags := 0\<rparr>)"

text \<open>The run length counts every reading, rejected ones too, and saturates.\<close>

definition next_run :: "nat \<Rightarrow> u16 \<Rightarrow> sensor_st \<Rightarrow> u8" where
  "next_run i raw s =
     (if s_seen s ! i \<noteq> 0 \<and> raw = s_last_raw s ! i
      then (if s_run s ! i < 0xFF then s_run s ! i + 1 else s_run s ! i) else 1)"

definition out_of_range :: "nat \<Rightarrow> u16 \<Rightarrow> bool" where
  "out_of_range i raw \<longleftrightarrow> raw < sd_min (obc_sensor_desc ! i) \<or> raw > sd_max (obc_sensor_desc ! i)"

definition sensor_bad :: "nat \<Rightarrow> u16 \<Rightarrow> u8 \<Rightarrow> u32" where
  "sensor_bad i raw run =
     (if out_of_range i raw then OBC_SENSOR_FLAG_RANGE i else 0) OR
     (if run \<ge> OBC_SENSOR_STUCK_LIMIT then OBC_SENSOR_FLAG_STUCK i else 0)"

definition sample_one :: "nat \<Rightarrow> obc_status \<times> sensor_st \<Rightarrow> obc_status \<times> sensor_st" where
  "sample_one i r =
     (let (worst, s) = r;
          raw = obc_sensor_mock_raw s ! i;
          run = next_run i raw s;
          bad = sensor_bad i raw run;
          s1 = s\<lparr>s_run := (s_run s)[i := run], s_last_raw := (s_last_raw s)[i := raw],
                 s_seen := (s_seen s)[i := 1],
                 obc_sensor_rejects_range := (if out_of_range i raw
                   then (obc_sensor_rejects_range s)[i := obc_sensor_rejects_range s ! i + 1]
                   else obc_sensor_rejects_range s),
                 obc_sensor_rejects_stuck := (if run \<ge> OBC_SENSOR_STUCK_LIMIT
                   then (obc_sensor_rejects_stuck s)[i := obc_sensor_rejects_stuck s ! i + 1]
                   else obc_sensor_rejects_stuck s),
                 obc_sensor_flags := (obc_sensor_flags s AND NOT (OBC_SENSOR_FLAG_RANGE i OR
                   OBC_SENSOR_FLAG_STUCK i OR OBC_SENSOR_FLAG_NODATA i)) OR bad\<rparr>
      in if bad \<noteq> 0
         then (OBC_ERR_UNSTABLE, s1\<lparr>obc_sensor_value := (obc_sensor_value s)[i := OBC_SENSOR_INVALID]\<rparr>)
         else (worst, s1\<lparr>obc_sensor_value := (obc_sensor_value s)[i := raw]\<rparr>))"

definition obc_sensor_sample :: "sensor_st \<Rightarrow> obc_status \<times> sensor_st" where
  "obc_sensor_sample s = fold sample_one [0..<OBC_SENSOR_COUNT] (OBC_OK, s)"

section \<open>The specification: a function of the readings so far\<close>

definition trailing_run :: "'a list \<Rightarrow> nat" where
  "trailing_run h = length (takeWhile (\<lambda>x. x = last h) (rev h))"

definition rejected :: "nat \<Rightarrow> u16 list \<Rightarrow> bool" where
  "rejected i h \<longleftrightarrow> h = [] \<or> out_of_range i (last h) \<or> 8 \<le> trailing_run h"

lemma trailing_run_Nil [simp]: "trailing_run [] = 0"
  by (simp add: trailing_run_def)

lemma trailing_run_snoc [simp]:
  "trailing_run (h @ [x]) = (if h \<noteq> [] \<and> last h = x then Suc (trailing_run h) else 1)"
  by (cases h rule: rev_cases) (auto simp: trailing_run_def)

text \<open>What the state holds for sensor \<open>i\<close> after it produced the readings \<open>h\<close>.\<close>

definition sensor_view :: "nat \<Rightarrow> u16 list \<Rightarrow> sensor_st \<Rightarrow> bool" where
  "sensor_view i h s \<longleftrightarrow>
     obc_sensor_value s ! i = (if rejected i h then OBC_SENSOR_INVALID else last h) \<and>
     (bit (obc_sensor_flags s) (3 * i) \<longleftrightarrow> h \<noteq> [] \<and> out_of_range i (last h)) \<and>
     (bit (obc_sensor_flags s) (3 * i + 1) \<longleftrightarrow> 8 \<le> trailing_run h) \<and>
     (bit (obc_sensor_flags s) (3 * i + 2) \<longleftrightarrow> h = []) \<and>
     (s_seen s ! i \<noteq> 0 \<longleftrightarrow> h \<noteq> []) \<and> (h \<noteq> [] \<longrightarrow> s_last_raw s ! i = last h) \<and>
     unat (s_run s ! i) = min 255 (trailing_run h)"

definition wf_sensor :: "sensor_st \<Rightarrow> bool" where
  "wf_sensor s \<longleftrightarrow> length (obc_sensor_value s) = 2 \<and> length (s_last_raw s) = 2 \<and>
     length (s_run s) = 2 \<and> length (s_seen s) = 2 \<and> length (obc_sensor_rejects_range s) = 2 \<and>
     length (obc_sensor_rejects_stuck s) = 2"

lemma upt_sensors [simp]: "[0..<OBC_SENSOR_COUNT] = [0, 1]"
  by (simp add: OBC_SENSOR_COUNT_def upt_rec)

lemma both_sensors:
  "(\<forall>i < 2. P i) \<longleftrightarrow> P 0 \<and> P (1::nat)" "(\<exists>i < 2. P i) \<longleftrightarrow> P 0 \<or> P (1::nat)"
  by (auto simp: less_2_cases_iff)

lemma bit_push_1: "bit (push_bit k (1::u32)) n \<longleftrightarrow> n = k \<and> n < 32"
  by (auto simp: bit_simps)

lemma bit_flags [simp]:
  "bit (OBC_SENSOR_FLAG_RANGE i) n \<longleftrightarrow> n = 3 * i \<and> n < 32"
  "bit (OBC_SENSOR_FLAG_STUCK i) n \<longleftrightarrow> n = 3 * i + 1 \<and> n < 32"
  "bit (OBC_SENSOR_FLAG_NODATA i) n \<longleftrightarrow> n = 3 * i + 2 \<and> n < 32"
  by (simp_all only: OBC_SENSOR_FLAG_RANGE_def OBC_SENSOR_FLAG_STUCK_def OBC_SENSOR_FLAG_NODATA_def
      OBC_SENSOR_FLAG_BITS_def bit_push_1 mult.commute [of i] add_0_right)

lemma wf_init: "wf_sensor s \<Longrightarrow> wf_sensor (obc_sensor_init s)"
  by (simp add: wf_sensor_def obc_sensor_init_def init_one_def)

lemma init_view:
  assumes "wf_sensor s" and "i < 2"
  shows "sensor_view i [] (obc_sensor_init s)"
proof -
  have "i = 0 \<or> i = 1" using assms(2) by auto
  then show ?thesis
    using assms(1)
    by (auto simp: sensor_view_def obc_sensor_init_def init_one_def wf_sensor_def rejected_def bit_simps)
qed

text \<open>The saturating byte counts up to its ceiling.\<close>

lemma next_run_view:
  assumes "sensor_view i h s"
  shows "unat (next_run i raw s) = min 255 (trailing_run (h @ [raw]))"
proof -
  have u: "unat (s_run s ! i) = min 255 (trailing_run h)" using assms by (simp add: sensor_view_def)
  have lt: "s_run s ! i < 0xFF \<longleftrightarrow> unat (s_run s ! i) < 255" by (simp add: word_less_nat_alt)
  have inc: "unat (s_run s ! i + 1) = unat (s_run s ! i) + 1" if "unat (s_run s ! i) < 255"
    using that by (simp add: unat_word_ariths)
  show ?thesis
    using assms u lt inc by (auto simp: next_run_def sensor_view_def)
qed

text \<open>Every effect of one step, on the sensor itself and on the other one.\<close>

lemma sample_one_sel:
  assumes "sample_one i (w, s) = (w', s')"
  defines "raw \<equiv> obc_sensor_mock_raw s ! i"
  defines "bad \<equiv> sensor_bad i raw (next_run i raw s)"
  shows "w' = (if bad \<noteq> 0 then OBC_ERR_UNSTABLE else w)"
    "obc_sensor_value s' = (obc_sensor_value s)[i := if bad \<noteq> 0 then OBC_SENSOR_INVALID else raw]"
    "s_run s' = (s_run s)[i := next_run i raw s]" "s_last_raw s' = (s_last_raw s)[i := raw]"
    "s_seen s' = (s_seen s)[i := 1]" "obc_sensor_mock_raw s' = obc_sensor_mock_raw s"
    "obc_sensor_flags s' = (obc_sensor_flags s AND NOT (OBC_SENSOR_FLAG_RANGE i OR
       OBC_SENSOR_FLAG_STUCK i OR OBC_SENSOR_FLAG_NODATA i)) OR bad"
    "length (obc_sensor_rejects_range s') = length (obc_sensor_rejects_range s)"
    "length (obc_sensor_rejects_stuck s') = length (obc_sensor_rejects_stuck s)"
  using assms(1) unfolding raw_def bad_def
  by (auto simp: sample_one_def Let_def split: if_splits)

lemma bit_sensor_bad:
  "i < 2 \<Longrightarrow> bit (sensor_bad i raw run) n \<longleftrightarrow>
     (out_of_range i raw \<and> n = 3 * i \<or> run \<ge> OBC_SENSOR_STUCK_LIMIT \<and> n = 3 * i + 1)"
  by (auto simp: sensor_bad_def bit_simps)

lemma sensor_bad_eq_0:
  assumes "i < 2"
  shows "sensor_bad i raw run = 0 \<longleftrightarrow> \<not> out_of_range i raw \<and> \<not> run \<ge> OBC_SENSOR_STUCK_LIMIT"
proof
  assume z: "sensor_bad i raw run = 0"
  have "\<not> bit (sensor_bad i raw run) n" for n unfolding z by simp
  then show "\<not> out_of_range i raw \<and> \<not> run \<ge> OBC_SENSOR_STUCK_LIMIT"
    unfolding bit_sensor_bad [OF assms] by blast
qed (simp add: sensor_bad_def)

lemma sample_one_flags:
  assumes "sample_one i (w, s) = (w', s')" and "i < 2"
  shows "bit (obc_sensor_flags s') n \<longleftrightarrow>
    (if n \<in> {3 * i, 3 * i + 1, 3 * i + 2}
     then bit (sensor_bad i (obc_sensor_mock_raw s ! i) (next_run i (obc_sensor_mock_raw s ! i) s)) n
     else bit (obc_sensor_flags s) n)"
  using assms(2) unfolding sample_one_sel(7) [OF assms(1)]
  by (auto simp: bit_or_iff bit_and_iff bit_not_iff_eq bit_sensor_bad dest: bit_imp_le_length)

lemma sample_one_view:
  assumes "wf_sensor s" and "i < 2" and "sensor_view i h s"
    and "sample_one i (w, s) = (w', s')"
  shows "sensor_view i (h @ [obc_sensor_mock_raw s ! i]) s'"
    "w' = (if rejected i (h @ [obc_sensor_mock_raw s ! i]) then OBC_ERR_UNSTABLE else w)"
proof -
  let ?raw = "obc_sensor_mock_raw s ! i" and ?h = "h @ [obc_sensor_mock_raw s ! i]"
  let ?run = "next_run i ?raw s"
  have run: "unat ?run = min 255 (trailing_run ?h)" by (rule next_run_view [OF assms(3)])
  have stuck: "?run \<ge> OBC_SENSOR_STUCK_LIMIT \<longleftrightarrow> 8 \<le> trailing_run ?h"
    unfolding OBC_SENSOR_STUCK_LIMIT_def word_le_nat_alt run by auto
  have bad: "sensor_bad i ?raw ?run \<noteq> 0 \<longleftrightarrow> rejected i ?h"
    unfolding sensor_bad_eq_0 [OF assms(2)] stuck by (simp add: rejected_def)
  note sel = sample_one_sel [OF assms(4), unfolded bad]
  note fl = sample_one_flags [OF assms(4,2), unfolded bit_sensor_bad [OF assms(2)] stuck]
  show "w' = (if rejected i ?h then OBC_ERR_UNSTABLE else w)" by (rule sel(1))
  show "sensor_view i ?h s'"
    unfolding sensor_view_def fl sel(2-5) run [symmetric]
    using assms(1,2) by (auto simp: wf_sensor_def)
qed

lemma sample_one_other:
  assumes "i < 2" and "j < 2" and "i \<noteq> j" and "sample_one j (w, s) = (w', s')"
  shows "sensor_view i h s' = sensor_view i h s"
proof -
  note fl = sample_one_flags [OF assms(4,2)]
  have "3 * i \<notin> {3 * j, 3 * j + 1, 3 * j + 2}" "3 * i + 1 \<notin> {3 * j, 3 * j + 1, 3 * j + 2}"
    "3 * i + 2 \<notin> {3 * j, 3 * j + 1, 3 * j + 2}"
    using assms(3) by (simp_all; presburger)+
  then show ?thesis
    unfolding sensor_view_def fl sample_one_sel(2-5) [OF assms(4)] using assms(3) by simp
qed

lemma sample_one_wf: "wf_sensor s \<Longrightarrow> sample_one i (w, s) = (w', s') \<Longrightarrow> wf_sensor s'"
  using sample_one_sel [of i w s w' s'] by (simp add: wf_sensor_def)

text \<open>Both sensors at once.\<close>

lemma sample_view:
  assumes "wf_sensor s" and "\<forall>i < 2. sensor_view i (h i) s"
    and "obc_sensor_sample s = (st, s')"
  shows "wf_sensor s'" "\<forall>i < 2. sensor_view i (h i @ [obc_sensor_mock_raw s ! i]) s'"
    "st = (if \<exists>i < 2. rejected i (h i @ [obc_sensor_mock_raw s ! i]) then OBC_ERR_UNSTABLE else OBC_OK)"
proof -
  obtain w0 s0 where s0: "sample_one 0 (OBC_OK, s) = (w0, s0)" by fastforce
  then have s1: "sample_one 1 (w0, s0) = (st, s')"
    using assms(3) by (simp add: obc_sensor_sample_def)
  have v: "sensor_view 0 (h 0) s" "sensor_view 1 (h 1) s" using assms(2) by simp_all
  have wf0: "wf_sensor s0" by (rule sample_one_wf [OF assms(1) s0])
  have raw: "obc_sensor_mock_raw s0 = obc_sensor_mock_raw s" by (rule sample_one_sel(6) [OF s0])
  have v1: "sensor_view 1 (h 1) s0" using v(2) sample_one_other [OF _ _ _ s0, of 1] by simp
  note a = sample_one_view [OF assms(1) _ v(1) s0] and b = sample_one_view [OF wf0 _ v1 s1, unfolded raw]
  show "wf_sensor s'" by (rule sample_one_wf [OF wf0 s1])
  have "sensor_view 0 (h 0 @ [obc_sensor_mock_raw s ! 0]) s'"
    using a(1) sample_one_other [OF _ _ _ s1, of 0] by simp
  then show "\<forall>i < 2. sensor_view i (h i @ [obc_sensor_mock_raw s ! i]) s'"
    using b(1) unfolding both_sensors by simp
  show "st = (if \<exists>i < 2. rejected i (h i @ [obc_sensor_mock_raw s ! i]) then OBC_ERR_UNSTABLE else OBC_OK)"
    using a(2) b(2) unfolding both_sensors by auto
qed

lemma view_flagged:
  assumes "sensor_view i h s" and "h \<noteq> []" and "i < 2"
  shows "(obc_sensor_value s ! i = OBC_SENSOR_INVALID) = rejected i h \<and>
    (bit (obc_sensor_flags s) (3 * i) \<or> bit (obc_sensor_flags s) (3 * i + 1) \<or>
     bit (obc_sensor_flags s) (3 * i + 2)) = rejected i h \<and>
    (obc_sensor_value s ! i \<noteq> OBC_SENSOR_INVALID \<longrightarrow> \<not> out_of_range i (obc_sensor_value s ! i))"
proof -
  have inv: "out_of_range i OBC_SENSOR_INVALID"
    using assms(3) by (auto simp: less_2_cases_iff out_of_range_def obc_sensor_desc_def OBC_SENSOR_INVALID_def)
  show ?thesis using assms(1,2) inv by (auto simp: sensor_view_def rejected_def)
qed

section \<open>Properties\<close>

text \<open>A run of the sampler from initialisation: before each sample the device presents a
  reading per sensor.\<close>

definition present :: "u16 list \<Rightarrow> sensor_st \<Rightarrow> sensor_st" where
  "present raws s = s\<lparr>obc_sensor_mock_raw := raws\<rparr>"

definition sampled :: "u16 list list \<Rightarrow> sensor_st \<Rightarrow> sensor_st" where
  "sampled rs s = fold (\<lambda>raws s. snd (obc_sensor_sample (present raws s))) rs (obc_sensor_init s)"

lemma present_view [simp]: "sensor_view i h (present raws s) = sensor_view i h s"
  "wf_sensor (present raws s) = wf_sensor s" "obc_sensor_mock_raw (present raws s) = raws"
  by (simp_all add: sensor_view_def present_def wf_sensor_def)

lemma sampled_view:
  assumes "wf_sensor s"
  shows "wf_sensor (sampled rs s) \<and> (\<forall>i < 2. sensor_view i (map (\<lambda>r. r ! i) rs) (sampled rs s))"
proof (induction rs rule: rev_induct)
  case Nil
  then show ?case using wf_init [OF assms] init_view [OF assms] by (simp add: sampled_def)
next
  case (snoc r rs)
  let ?s = "present r (sampled rs s)"
  obtain st s' where s': "obc_sensor_sample ?s = (st, s')" by fastforce
  have "wf_sensor ?s" "\<forall>i < 2. sensor_view i (map (\<lambda>r. r ! i) rs) ?s" using snoc by simp_all
  from sample_view(1,2) [OF this s'] s' show ?case by (simp add: sampled_def)
qed

text \<open>
  C23: what a sensor publishes is a function of what it produced. After any run of samples
  from initialisation, each sensor's value is its last reading exactly when it has one, it
  is in range and it is not the eighth or later equal reading in a row, and the substitute
  otherwise; and its three flag bits say precisely which of these failed. The run length
  saturates at 255 without ever clearing the stuck flag.
\<close>

theorem sensor_publishes_history:
  fixes rs :: "u16 list list"
  assumes "wf_sensor s" and "i < 2"
  defines "h \<equiv> map (\<lambda>r. r ! i) rs"
  shows "obc_sensor_value (sampled rs s) ! i =
      (if h = [] \<or> out_of_range i (last h) \<or> 8 \<le> trailing_run h then OBC_SENSOR_INVALID else last h) \<and>
    (bit (obc_sensor_flags (sampled rs s)) (3 * i) \<longleftrightarrow> h \<noteq> [] \<and> out_of_range i (last h)) \<and>
    (bit (obc_sensor_flags (sampled rs s)) (3 * i + 1) \<longleftrightarrow> 8 \<le> trailing_run h) \<and>
    (bit (obc_sensor_flags (sampled rs s)) (3 * i + 2) \<longleftrightarrow> h = [])"
  using sampled_view [OF assms(1), of rs] assms(2) unfolding h_def sensor_view_def rejected_def by blast

definition cold_sensor :: sensor_st where
  "cold_sensor = \<lparr>obc_sensor_value = [0, 0], obc_sensor_flags = 0, obc_sensor_rejects_range = [0, 0],
     obc_sensor_rejects_stuck = [0, 0], obc_sensor_mock_raw = [0xDEAD, 0xBEEF], s_last_raw = [0, 0],
     s_run = [0, 0], s_seen = [0, 0]\<rparr>"

lemma wf_cold_sensor: "wf_sensor cold_sensor"
  by (simp add: wf_sensor_def cold_sensor_def)

theorem sensor_publishes_history_witness:
  "obc_sensor_value (sampled [[300, 500], [301, 500]] cold_sensor) ! 0 = 301"
  using sensor_publishes_history [OF wf_cold_sensor, of 0 "[[300, 500], [301, 500]]"]
  by (simp add: out_of_range_def obc_sensor_desc_def trailing_run_def)

text \<open>
  A reading is substituted exactly when it is flagged, and a sample reports an error
  exactly when it substituted one. After any run that ends with a sample, a sensor's value
  is the substitute if and only if one of its flag bits is set, and otherwise lies in the
  sensor's range; the last sample's status is \<open>OBC_OK\<close> if and only if no value was
  substituted.
\<close>

lemma flagged_iff_substituted:
  assumes "wf_sensor s"
    and "obc_sensor_sample (present r (sampled rs s)) = (st, s')"
  shows "(\<forall>i < 2. (obc_sensor_value s' ! i = OBC_SENSOR_INVALID) =
        (bit (obc_sensor_flags s') (3 * i) \<or> bit (obc_sensor_flags s') (3 * i + 1) \<or>
         bit (obc_sensor_flags s') (3 * i + 2)) \<and>
      (obc_sensor_value s' ! i \<noteq> OBC_SENSOR_INVALID \<longrightarrow> \<not> out_of_range i (obc_sensor_value s' ! i))) \<and>
    (st = OBC_OK \<longleftrightarrow> (\<forall>i < 2. obc_sensor_value s' ! i \<noteq> OBC_SENSOR_INVALID))"
proof -
  have wf: "wf_sensor (present r (sampled rs s))"
    "\<forall>i < 2. sensor_view i (map (\<lambda>r. r ! i) rs) (present r (sampled rs s))"
    using sampled_view [OF assms(1), of rs] by simp_all
  note v = sample_view(2,3) [OF wf assms(2)]
  have one: "(obc_sensor_value s' ! i = OBC_SENSOR_INVALID) = rejected i (map (\<lambda>r. r ! i) rs @ [r ! i]) \<and>
      (bit (obc_sensor_flags s') (3 * i) \<or> bit (obc_sensor_flags s') (3 * i + 1) \<or>
       bit (obc_sensor_flags s') (3 * i + 2)) = rejected i (map (\<lambda>r. r ! i) rs @ [r ! i]) \<and>
      (obc_sensor_value s' ! i \<noteq> OBC_SENSOR_INVALID \<longrightarrow> \<not> out_of_range i (obc_sensor_value s' ! i))"
    if "i < 2" for i
    by (rule view_flagged) (use v(1) that in simp_all)
  have "st = OBC_OK \<longleftrightarrow> (\<forall>i < 2. \<not> rejected i (map (\<lambda>r. r ! i) rs @ [r ! i]))"
    using v(2) by auto
  then show ?thesis using one by meson
qed

end
