(* ===== verification/TlmFrame.thy ===== *)
theory TlmFrame
  imports Sched Sensor
begin

text \<open>
  Housekeeping telemetry, \<^verbatim>\<open>flight/tlm/frame.c\<close>: the descriptor table and its audit, the
  packing of one 91-byte frame, its integrity word, the emission on the downlink port and
  what a refused emission leaves behind, and the subsystem reset. The number of tasks
  (\<^verbatim>\<open>obc_task_count\<close>, defined in \<^verbatim>\<open>tasks.c\<close>) is a parameter.
\<close>

section \<open>Layout\<close>

definition OBC_TLM_SYNC :: u32 where [obc_consts]: "OBC_TLM_SYNC = 0xA5C35A3C"
definition OBC_TLM_KIND_SYNC :: u8 where [obc_consts]: "OBC_TLM_KIND_SYNC = 0"
definition OBC_TLM_KIND_COUNT :: u8 where [obc_consts]: "OBC_TLM_KIND_COUNT = 1"
definition OBC_TLM_KIND_ENUM :: u8 where [obc_consts]: "OBC_TLM_KIND_ENUM = 2"
definition OBC_TLM_KIND_BITS :: u8 where [obc_consts]: "OBC_TLM_KIND_BITS = 3"
definition OBC_TLM_KIND_SENSOR :: u8 where [obc_consts]: "OBC_TLM_KIND_SENSOR = 4"
definition OBC_TLM_KIND_SUM :: u8 where [obc_consts]: "OBC_TLM_KIND_SUM = 5"

definition OBC_TLM_W_SYNC :: nat where [obc_consts]: "OBC_TLM_W_SYNC = 4"
definition OBC_TLM_O_SYNC :: nat where [obc_consts]: "OBC_TLM_O_SYNC = 0"
definition OBC_TLM_W_SEQ :: nat where [obc_consts]: "OBC_TLM_W_SEQ = 4"
definition OBC_TLM_O_SEQ :: nat where [obc_consts]: "OBC_TLM_O_SEQ = OBC_TLM_O_SYNC + OBC_TLM_W_SYNC"
definition OBC_TLM_W_UPTIME :: nat where [obc_consts]: "OBC_TLM_W_UPTIME = 4"
definition OBC_TLM_O_UPTIME :: nat where [obc_consts]: "OBC_TLM_O_UPTIME = OBC_TLM_O_SEQ + OBC_TLM_W_SEQ"
definition OBC_TLM_W_FRAMES :: nat where [obc_consts]: "OBC_TLM_W_FRAMES = 4"
definition OBC_TLM_O_FRAMES :: nat where [obc_consts]: "OBC_TLM_O_FRAMES = OBC_TLM_O_UPTIME + OBC_TLM_W_UPTIME"
definition OBC_TLM_W_FRAME_OVERRUNS :: nat where [obc_consts]: "OBC_TLM_W_FRAME_OVERRUNS = 2"
definition OBC_TLM_O_FRAME_OVERRUNS :: nat where [obc_consts]: "OBC_TLM_O_FRAME_OVERRUNS = OBC_TLM_O_FRAMES + OBC_TLM_W_FRAMES"
definition OBC_TLM_W_SLACK :: nat where [obc_consts]: "OBC_TLM_W_SLACK = 2"
definition OBC_TLM_O_SLACK :: nat where [obc_consts]: "OBC_TLM_O_SLACK = OBC_TLM_O_FRAME_OVERRUNS + OBC_TLM_W_FRAME_OVERRUNS"
definition OBC_TLM_W_TASK_OVERRUNS :: nat where [obc_consts]: "OBC_TLM_W_TASK_OVERRUNS = 1"
definition OBC_TLM_N_TASK_OVERRUNS :: nat where [obc_consts]: "OBC_TLM_N_TASK_OVERRUNS = unat OBC_MAX_TASKS"
definition OBC_TLM_O_TASK_OVERRUNS :: nat where [obc_consts]: "OBC_TLM_O_TASK_OVERRUNS = OBC_TLM_O_SLACK + OBC_TLM_W_SLACK"
definition OBC_TLM_W_REPAIRS :: nat where [obc_consts]: "OBC_TLM_W_REPAIRS = 2"
definition OBC_TLM_O_REPAIRS :: nat where [obc_consts]: "OBC_TLM_O_REPAIRS = OBC_TLM_O_TASK_OVERRUNS + (OBC_TLM_W_TASK_OVERRUNS * OBC_TLM_N_TASK_OVERRUNS)"
definition OBC_TLM_W_FAILED_VOTES :: nat where [obc_consts]: "OBC_TLM_W_FAILED_VOTES = 2"
definition OBC_TLM_O_FAILED_VOTES :: nat where [obc_consts]: "OBC_TLM_O_FAILED_VOTES = OBC_TLM_O_REPAIRS + OBC_TLM_W_REPAIRS"
definition OBC_TLM_W_SUSPENSIONS :: nat where [obc_consts]: "OBC_TLM_W_SUSPENSIONS = 2"
definition OBC_TLM_O_SUSPENSIONS :: nat where [obc_consts]: "OBC_TLM_O_SUSPENSIONS = OBC_TLM_O_FAILED_VOTES + OBC_TLM_W_FAILED_VOTES"
definition OBC_TLM_W_DROPS :: nat where [obc_consts]: "OBC_TLM_W_DROPS = 2"
definition OBC_TLM_O_DROPS :: nat where [obc_consts]: "OBC_TLM_O_DROPS = OBC_TLM_O_SUSPENSIONS + OBC_TLM_W_SUSPENSIONS"
definition OBC_TLM_W_SHORT_BOOTS :: nat where [obc_consts]: "OBC_TLM_W_SHORT_BOOTS = 1"
definition OBC_TLM_O_SHORT_BOOTS :: nat where [obc_consts]: "OBC_TLM_O_SHORT_BOOTS = OBC_TLM_O_DROPS + OBC_TLM_W_DROPS"
definition OBC_TLM_W_MODE :: nat where [obc_consts]: "OBC_TLM_W_MODE = 1"
definition OBC_TLM_O_MODE :: nat where [obc_consts]: "OBC_TLM_O_MODE = OBC_TLM_O_SHORT_BOOTS + OBC_TLM_W_SHORT_BOOTS"
definition OBC_TLM_W_SAFE_REASON :: nat where [obc_consts]: "OBC_TLM_W_SAFE_REASON = 1"
definition OBC_TLM_O_SAFE_REASON :: nat where [obc_consts]: "OBC_TLM_O_SAFE_REASON = OBC_TLM_O_MODE + OBC_TLM_W_MODE"
definition OBC_TLM_W_RESET_CAUSE :: nat where [obc_consts]: "OBC_TLM_W_RESET_CAUSE = 1"
definition OBC_TLM_O_RESET_CAUSE :: nat where [obc_consts]: "OBC_TLM_O_RESET_CAUSE = OBC_TLM_O_SAFE_REASON + OBC_TLM_W_SAFE_REASON"
definition OBC_TLM_W_SENSOR_FLAGS :: nat where [obc_consts]: "OBC_TLM_W_SENSOR_FLAGS = 1"
definition OBC_TLM_O_SENSOR_FLAGS :: nat where [obc_consts]: "OBC_TLM_O_SENSOR_FLAGS = OBC_TLM_O_RESET_CAUSE + OBC_TLM_W_RESET_CAUSE"
definition OBC_TLM_W_SENSOR :: nat where [obc_consts]: "OBC_TLM_W_SENSOR = 2"
definition OBC_TLM_N_SENSOR :: nat where [obc_consts]: "OBC_TLM_N_SENSOR = 2"
definition OBC_TLM_O_SENSOR :: nat where [obc_consts]: "OBC_TLM_O_SENSOR = OBC_TLM_O_SENSOR_FLAGS + OBC_TLM_W_SENSOR_FLAGS"
definition OBC_TLM_W_CMD_EXAMINED :: nat where [obc_consts]: "OBC_TLM_W_CMD_EXAMINED = 4"
definition OBC_TLM_O_CMD_EXAMINED :: nat where [obc_consts]: "OBC_TLM_O_CMD_EXAMINED = OBC_TLM_O_SENSOR + (OBC_TLM_W_SENSOR * OBC_TLM_N_SENSOR)"
definition OBC_TLM_W_CMD_ACCEPTED :: nat where [obc_consts]: "OBC_TLM_W_CMD_ACCEPTED = 4"
definition OBC_TLM_O_CMD_ACCEPTED :: nat where [obc_consts]: "OBC_TLM_O_CMD_ACCEPTED = OBC_TLM_O_CMD_EXAMINED + OBC_TLM_W_CMD_EXAMINED"
definition OBC_TLM_W_CMD_REJECTED :: nat where [obc_consts]: "OBC_TLM_W_CMD_REJECTED = 4"
definition OBC_TLM_N_CMD_REJECTED :: nat where [obc_consts]: "OBC_TLM_N_CMD_REJECTED = OBC_CMD_REJECT_COUNT"
definition OBC_TLM_O_CMD_REJECTED :: nat where [obc_consts]: "OBC_TLM_O_CMD_REJECTED = OBC_TLM_O_CMD_ACCEPTED + OBC_TLM_W_CMD_ACCEPTED"
definition OBC_TLM_W_CMD_EXECUTED :: nat where [obc_consts]: "OBC_TLM_W_CMD_EXECUTED = 2"
definition OBC_TLM_O_CMD_EXECUTED :: nat where [obc_consts]: "OBC_TLM_O_CMD_EXECUTED = OBC_TLM_O_CMD_REJECTED + (OBC_TLM_W_CMD_REJECTED * OBC_TLM_N_CMD_REJECTED)"
definition OBC_TLM_W_CMD_QUEUED :: nat where [obc_consts]: "OBC_TLM_W_CMD_QUEUED = 1"
definition OBC_TLM_O_CMD_QUEUED :: nat where [obc_consts]: "OBC_TLM_O_CMD_QUEUED = OBC_TLM_O_CMD_EXECUTED + OBC_TLM_W_CMD_EXECUTED"
definition OBC_TLM_W_CMD_LATE :: nat where [obc_consts]: "OBC_TLM_W_CMD_LATE = 1"
definition OBC_TLM_O_CMD_LATE :: nat where [obc_consts]: "OBC_TLM_O_CMD_LATE = OBC_TLM_O_CMD_QUEUED + OBC_TLM_W_CMD_QUEUED"
definition OBC_TLM_W_SUM :: nat where [obc_consts]: "OBC_TLM_W_SUM = 2"
definition OBC_TLM_O_SUM :: nat where [obc_consts]: "OBC_TLM_O_SUM = OBC_TLM_O_CMD_LATE + OBC_TLM_W_CMD_LATE"
definition OBC_TLM_FRAME_LEN :: nat where [obc_consts]: "OBC_TLM_FRAME_LEN = OBC_TLM_O_SUM + OBC_TLM_W_SUM"

lemmas tlm_layout =
  OBC_TLM_W_SYNC_def OBC_TLM_O_SYNC_def OBC_TLM_W_SEQ_def OBC_TLM_O_SEQ_def OBC_TLM_W_UPTIME_def
  OBC_TLM_O_UPTIME_def OBC_TLM_W_FRAMES_def OBC_TLM_O_FRAMES_def OBC_TLM_W_FRAME_OVERRUNS_def
  OBC_TLM_O_FRAME_OVERRUNS_def OBC_TLM_W_SLACK_def OBC_TLM_O_SLACK_def OBC_TLM_W_TASK_OVERRUNS_def
  OBC_TLM_N_TASK_OVERRUNS_def OBC_TLM_O_TASK_OVERRUNS_def OBC_TLM_W_REPAIRS_def
  OBC_TLM_O_REPAIRS_def OBC_TLM_W_FAILED_VOTES_def OBC_TLM_O_FAILED_VOTES_def
  OBC_TLM_W_SUSPENSIONS_def OBC_TLM_O_SUSPENSIONS_def OBC_TLM_W_DROPS_def OBC_TLM_O_DROPS_def
  OBC_TLM_W_SHORT_BOOTS_def OBC_TLM_O_SHORT_BOOTS_def OBC_TLM_W_MODE_def OBC_TLM_O_MODE_def
  OBC_TLM_W_SAFE_REASON_def OBC_TLM_O_SAFE_REASON_def OBC_TLM_W_RESET_CAUSE_def
  OBC_TLM_O_RESET_CAUSE_def OBC_TLM_W_SENSOR_FLAGS_def OBC_TLM_O_SENSOR_FLAGS_def
  OBC_TLM_W_SENSOR_def OBC_TLM_N_SENSOR_def OBC_TLM_O_SENSOR_def OBC_TLM_W_CMD_EXAMINED_def
  OBC_TLM_O_CMD_EXAMINED_def OBC_TLM_W_CMD_ACCEPTED_def OBC_TLM_O_CMD_ACCEPTED_def
  OBC_TLM_W_CMD_REJECTED_def OBC_TLM_N_CMD_REJECTED_def OBC_TLM_O_CMD_REJECTED_def
  OBC_TLM_W_CMD_EXECUTED_def OBC_TLM_O_CMD_EXECUTED_def OBC_TLM_W_CMD_QUEUED_def
  OBC_TLM_O_CMD_QUEUED_def OBC_TLM_W_CMD_LATE_def OBC_TLM_O_CMD_LATE_def OBC_TLM_W_SUM_def
  OBC_TLM_O_SUM_def OBC_TLM_FRAME_LEN_def

record tlm_field =
  tf_name :: string
  tf_offset :: u16
  tf_width :: u8
  tf_count :: u8
  tf_kind :: u8

definition tlm_row :: "string \<Rightarrow> nat \<Rightarrow> nat \<Rightarrow> nat \<Rightarrow> u8 \<Rightarrow> tlm_field" where
  "tlm_row n ofs w c k =
     \<lparr>tf_name = n, tf_offset = of_nat ofs, tf_width = of_nat w, tf_count = of_nat c, tf_kind = k\<rparr>"

definition obc_tlm_fields :: "tlm_field list" where
  "obc_tlm_fields =
     [tlm_row ''sync'' OBC_TLM_O_SYNC OBC_TLM_W_SYNC 1 OBC_TLM_KIND_SYNC,
      tlm_row ''seq'' OBC_TLM_O_SEQ OBC_TLM_W_SEQ 1 OBC_TLM_KIND_COUNT,
      tlm_row ''uptime_ticks'' OBC_TLM_O_UPTIME OBC_TLM_W_UPTIME 1 OBC_TLM_KIND_COUNT,
      tlm_row ''frames_run'' OBC_TLM_O_FRAMES OBC_TLM_W_FRAMES 1 OBC_TLM_KIND_COUNT,
      tlm_row ''frame_overruns'' OBC_TLM_O_FRAME_OVERRUNS OBC_TLM_W_FRAME_OVERRUNS 1 OBC_TLM_KIND_COUNT,
      tlm_row ''slack_ticks_min'' OBC_TLM_O_SLACK OBC_TLM_W_SLACK 1 OBC_TLM_KIND_COUNT,
      tlm_row ''task_overruns'' OBC_TLM_O_TASK_OVERRUNS OBC_TLM_W_TASK_OVERRUNS OBC_TLM_N_TASK_OVERRUNS OBC_TLM_KIND_COUNT,
      tlm_row ''voter_repairs'' OBC_TLM_O_REPAIRS OBC_TLM_W_REPAIRS 1 OBC_TLM_KIND_COUNT,
      tlm_row ''voter_failed_votes'' OBC_TLM_O_FAILED_VOTES OBC_TLM_W_FAILED_VOTES 1 OBC_TLM_KIND_COUNT,
      tlm_row ''suspensions'' OBC_TLM_O_SUSPENSIONS OBC_TLM_W_SUSPENSIONS 1 OBC_TLM_KIND_COUNT,
      tlm_row ''frames_dropped'' OBC_TLM_O_DROPS OBC_TLM_W_DROPS 1 OBC_TLM_KIND_COUNT,
      tlm_row ''short_boots'' OBC_TLM_O_SHORT_BOOTS OBC_TLM_W_SHORT_BOOTS 1 OBC_TLM_KIND_COUNT,
      tlm_row ''mode'' OBC_TLM_O_MODE OBC_TLM_W_MODE 1 OBC_TLM_KIND_ENUM,
      tlm_row ''safe_reason'' OBC_TLM_O_SAFE_REASON OBC_TLM_W_SAFE_REASON 1 OBC_TLM_KIND_ENUM,
      tlm_row ''reset_cause'' OBC_TLM_O_RESET_CAUSE OBC_TLM_W_RESET_CAUSE 1 OBC_TLM_KIND_ENUM,
      tlm_row ''sensor_flags'' OBC_TLM_O_SENSOR_FLAGS OBC_TLM_W_SENSOR_FLAGS 1 OBC_TLM_KIND_BITS,
      tlm_row ''sensor'' OBC_TLM_O_SENSOR OBC_TLM_W_SENSOR OBC_TLM_N_SENSOR OBC_TLM_KIND_SENSOR,
      tlm_row ''cmd_examined'' OBC_TLM_O_CMD_EXAMINED OBC_TLM_W_CMD_EXAMINED 1 OBC_TLM_KIND_COUNT,
      tlm_row ''cmd_accepted'' OBC_TLM_O_CMD_ACCEPTED OBC_TLM_W_CMD_ACCEPTED 1 OBC_TLM_KIND_COUNT,
      tlm_row ''cmd_rejected'' OBC_TLM_O_CMD_REJECTED OBC_TLM_W_CMD_REJECTED OBC_TLM_N_CMD_REJECTED OBC_TLM_KIND_COUNT,
      tlm_row ''cmd_executed'' OBC_TLM_O_CMD_EXECUTED OBC_TLM_W_CMD_EXECUTED 1 OBC_TLM_KIND_COUNT,
      tlm_row ''cmd_queued'' OBC_TLM_O_CMD_QUEUED OBC_TLM_W_CMD_QUEUED 1 OBC_TLM_KIND_COUNT,
      tlm_row ''cmd_late'' OBC_TLM_O_CMD_LATE OBC_TLM_W_CMD_LATE 1 OBC_TLM_KIND_COUNT,
      tlm_row ''sum'' OBC_TLM_O_SUM OBC_TLM_W_SUM 1 OBC_TLM_KIND_SUM]"

section \<open>State\<close>

record tlm_state = sched_state +
  obc_reset_cause_previous :: u32
  sensors :: sensor_st
  obc_tlm_frame :: "u8 list"
  obc_tlm_seq :: u32
  obc_tlm_subsystem_resets :: u32
  obc_tlm_drops :: u32
  obc_tlm_drops_consecutive :: u32
  s_layout_ok :: u32

section \<open>Packing\<close>

definition put_u8 :: "nat \<Rightarrow> u32 \<Rightarrow> u8 list \<Rightarrow> u8 list" where
  "put_u8 offset v frame = frame[offset := ucast (v AND 0xFF)]"

definition put_u16 :: "nat \<Rightarrow> u32 \<Rightarrow> u8 list \<Rightarrow> u8 list" where
  "put_u16 offset v frame =
     frame[offset := ucast (v AND 0xFF), offset + 1 := ucast (drop_bit 8 v AND 0xFF)]"

definition put_u32 :: "nat \<Rightarrow> u32 \<Rightarrow> u8 list \<Rightarrow> u8 list" where
  "put_u32 offset v frame =
     frame[offset := ucast (v AND 0xFF), offset + 1 := ucast (drop_bit 8 v AND 0xFF),
           offset + 2 := ucast (drop_bit 16 v AND 0xFF), offset + 3 := ucast (drop_bit 24 v AND 0xFF)]"

definition sat16 :: "u32 \<Rightarrow> u32" where "sat16 v = (if v > 0xFFFF then 0xFFFF else v)"
definition sat8 :: "u32 \<Rightarrow> u32" where "sat8 v = (if v > 0xFF then 0xFF else v)"

definition frame_sum :: "u8 list \<Rightarrow> u32" where
  "frame_sum frame = fold sum_step (take OBC_TLM_O_SUM frame) 0 XOR 0xFFFF"

section \<open>Lifecycle\<close>

definition width_ok :: "tlm_field \<Rightarrow> bool" where
  "width_ok f \<longleftrightarrow> \<not> (tf_width f \<noteq> 1 \<and> tf_width f \<noteq> 2 \<and> tf_width f \<noteq> 4)"

fun tlm_layout_audit :: "tlm_field list \<Rightarrow> u32 \<Rightarrow> u32 option" where
  "tlm_layout_audit [] expected = Some expected"
| "tlm_layout_audit (f # fs) expected =
     (if \<not> width_ok f then None
      else if tf_count f = 0 then None
      else if ucast (tf_offset f) \<noteq> expected then None
      else tlm_layout_audit fs (expected + ucast (tf_width f) * ucast (tf_count f)))"

definition obc_tlm_init :: "tlm_field list \<Rightarrow> 'a tlm_state_scheme \<Rightarrow> obc_status \<times> 'a tlm_state_scheme" where
  "obc_tlm_init layout s =
     (if layout = [] then (OBC_ERR_INVALID, s)
      else if tlm_layout_audit layout 0 \<noteq> Some (of_nat OBC_TLM_FRAME_LEN) then (OBC_ERR_INVALID, s)
      else (OBC_OK, s\<lparr>sensors := obc_sensor_init (sensors s), obc_tlm_seq := 0,
              obc_tlm_frame := replicate OBC_TLM_FRAME_LEN 0, s_layout_ok := 1\<rparr>))"

definition obc_tlm_subsystem_reset :: "'a tlm_state_scheme \<Rightarrow> 'a tlm_state_scheme" where
  "obc_tlm_subsystem_reset s =
     s\<lparr>obc_tlm_seq := 0, obc_tlm_frame := replicate OBC_TLM_FRAME_LEN 0,
       sensors := obc_sensor_init (sensors s),
       obc_tlm_subsystem_resets := obc_tlm_subsystem_resets s + 1\<rparr>"

section \<open>Emission\<close>

text \<open>
  The packing of one frame, in the order of the calls: the two halves are separated by the
  vote on the mode, which may repair a copy.
\<close>

definition pack :: "(u8 list \<Rightarrow> u8 list) list \<Rightarrow> 'a tlm_state_scheme \<Rightarrow> 'a tlm_state_scheme" where
  "pack puts s = s\<lparr>obc_tlm_frame := fold (\<lambda>put frame. put frame) puts (obc_tlm_frame s)\<rparr>"

definition puts_before_vote :: "nat \<Rightarrow> u32 \<Rightarrow> 'a tlm_state_scheme \<Rightarrow> (u8 list \<Rightarrow> u8 list) list" where
  "puts_before_vote task_count uptime s =
     [put_u32 OBC_TLM_O_SYNC OBC_TLM_SYNC,
      put_u32 OBC_TLM_O_SEQ (obc_tlm_seq s),
      put_u32 OBC_TLM_O_UPTIME uptime,
      put_u32 OBC_TLM_O_FRAMES (obc_frames_run s),
      put_u16 OBC_TLM_O_FRAME_OVERRUNS (sat16 (obc_frame_overruns s)),
      put_u16 OBC_TLM_O_SLACK (sat16 (obc_slack_ticks_min s))] @
     map (\<lambda>i. put_u8 (OBC_TLM_O_TASK_OVERRUNS + i)
            (sat8 (if i < task_count then ts_overruns (obc_task_state s ! i) else 0)))
       [0..<OBC_TLM_N_TASK_OVERRUNS] @
     [put_u16 OBC_TLM_O_REPAIRS (sat16 (obc_critical_repairs (crit s))),
      put_u16 OBC_TLM_O_FAILED_VOTES (sat16 (obc_critical_failed_votes (crit s))),
      put_u16 OBC_TLM_O_SUSPENSIONS (sat16 (obc_suspension_count s)),
      put_u16 OBC_TLM_O_DROPS (sat16 (obc_tlm_drops s)),
      put_u8 OBC_TLM_O_SHORT_BOOTS (sat8 (obc_recover_short_boots s))]"

definition puts_after_vote :: "bool \<Rightarrow> 'a tlm_state_scheme \<Rightarrow> (u8 list \<Rightarrow> u8 list) list" where
  "puts_after_vote safe s =
     [put_u8 OBC_TLM_O_MODE (if safe then OBC_MODE_SAFE else OBC_MODE_NOMINAL),
      put_u8 OBC_TLM_O_SAFE_REASON (obc_safe_reason s),
      put_u8 OBC_TLM_O_RESET_CAUSE (obc_reset_cause_previous s),
      put_u8 OBC_TLM_O_SENSOR_FLAGS (obc_sensor_flags (sensors s))] @
     map (\<lambda>i. put_u16 (OBC_TLM_O_SENSOR + i * OBC_TLM_W_SENSOR) (ucast (obc_sensor_value (sensors s) ! i)))
       [0..<OBC_TLM_N_SENSOR] @
     [put_u32 OBC_TLM_O_CMD_EXAMINED (obc_cmd_examined s),
      put_u32 OBC_TLM_O_CMD_ACCEPTED (obc_cmd_accepted s)] @
     map (\<lambda>i. put_u32 (OBC_TLM_O_CMD_REJECTED + i * OBC_TLM_W_CMD_REJECTED) (obc_cmd_rejected s ! i))
       [0..<OBC_TLM_N_CMD_REJECTED] @
     [put_u16 OBC_TLM_O_CMD_EXECUTED (sat16 (obc_cmd_executed (cmd_q s))),
      put_u8 OBC_TLM_O_CMD_QUEUED (sat8 (obc_cmd_queued (cmd_q s))),
      put_u8 OBC_TLM_O_CMD_LATE (sat8 (obc_cmd_late (cmd_q s)))]"

definition obc_tlm_emit :: "nat \<Rightarrow> 'a tlm_state_scheme \<Rightarrow> obc_status \<times> 'a tlm_state_scheme" where
  "obc_tlm_emit task_count s =
     (if s_layout_ok s = 0 then (OBC_ERR_INVALID, s)
      else (case obc_mtime_read (Some 0) s of
        (st, now, s1) \<Rightarrow>
          (let uptime = (if st = OBC_OK then ucast (the now AND 0xFFFFFFFF) else 0xFFFFFFFF);
               s2 = pack (puts_before_vote task_count uptime s1) s1
           in case obc_mode_is_safe s2 of
                (safe, s3) \<Rightarrow>
                  (let s4 = pack (puts_after_vote safe s3) s3;
                       s5 = pack [put_u16 OBC_TLM_O_SUM (frame_sum (obc_tlm_frame s4))] s4;
                       s6 = s5\<lparr>obc_tlm_seq := obc_tlm_seq s5 + 1\<rparr>
                   in case obc_uart_downlink_write (Some (obc_tlm_frame s6)) (of_nat OBC_TLM_FRAME_LEN) (hw s6) of
                        (w, h) \<Rightarrow>
                          (let s7 = s6\<lparr>hw := h\<rparr>
                           in if w \<noteq> OBC_OK
                              then (w, say (''tlm    : downlink refused, frame dropped'' @ crlf)
                                     (s7\<lparr>obc_tlm_drops := obc_tlm_drops s7 + 1,
                                         obc_tlm_drops_consecutive := obc_tlm_drops_consecutive s7 + 1\<rparr>))
                              else (st, s7\<lparr>obc_tlm_drops_consecutive := 0\<rparr>))))))"

section \<open>The audit\<close>

interpretation tlm_layout: layout_audit "\<lambda>f. width_ok f \<and> tf_count f \<noteq> 0" "\<lambda>f. ucast (tf_offset f)"
  "\<lambda>f. ucast (tf_width f) * ucast (tf_count f)" tlm_layout_audit
proof unfold_locales
  fix f :: tlm_field
  show "unat (ucast (tf_offset f) :: u32) < 65536"
    using unat_u16_less [of "tf_offset f"] by simp
  have "unat (tf_width f) * unat (tf_count f) < 256 * 256"
    by (rule mult_strict_mono) (use unat_u8_less [of "tf_width f"] unat_u8_less [of "tf_count f"] in simp_all)
  then show "unat (ucast (tf_width f) * ucast (tf_count f) :: u32) < 65536"
    by (simp add: unat_word_ariths)
qed simp_all

text \<open>The flight table passes it.\<close>

lemma flight_layout_audit: "tlm_layout_audit obc_tlm_fields 0 = Some (of_nat OBC_TLM_FRAME_LEN)"
  by (simp add: obc_tlm_fields_def tlm_row_def width_ok_def tlm_layout OBC_MAX_TASKS_def OBC_CMD_REJECT_COUNT_def)

section \<open>Reading a frame back\<close>

text \<open>What the ground does with the table: little-endian values at the rows' offsets.\<close>

fun read_le :: "nat \<Rightarrow> nat \<Rightarrow> u8 list \<Rightarrow> nat" where
  "read_le 0 ofs frame = 0"
| "read_le (Suc w) ofs frame = unat (frame ! ofs) + 256 * read_le w (ofs + 1) frame"

definition decode_row :: "u8 list \<Rightarrow> tlm_field \<Rightarrow> nat list" where
  "decode_row frame f =
     map (\<lambda>j. read_le (unat (tf_width f)) (unat (tf_offset f) + j * unat (tf_width f)) frame)
       [0..<unat (tf_count f)]"

fun put_le :: "nat \<Rightarrow> nat \<Rightarrow> u32 \<Rightarrow> u8 list \<Rightarrow> u8 list" where
  "put_le 0 ofs v frame = frame"
| "put_le (Suc w) ofs v frame = put_le w (ofs + 1) (drop_bit 8 v) (frame[ofs := ucast v])"

lemma low_byte: "ucast (v AND 0xFF :: u32) = (ucast v :: u8)"
proof -
  have m: "(0xFF :: u32) = mask 8" by (simp add: mask_eq_exp_minus_1)
  show ?thesis unfolding m by (rule bit_word_eqI) (auto simp: bit_simps)
qed

lemma low_word: "ucast (x AND 0xFFFFFFFF :: u64) = (ucast x :: u32)"
proof -
  have m: "(0xFFFFFFFF :: u64) = mask 32" by (simp add: mask_eq_exp_minus_1)
  show ?thesis unfolding m by (rule bit_word_eqI) (auto simp: bit_simps)
qed

lemma puts_are_put_le:
  "put_u8 ofs v = put_le 1 ofs v" "put_u16 ofs v = put_le 2 ofs v" "put_u32 ofs v = put_le 4 ofs v"
  by (simp_all add: fun_eq_iff put_u8_def put_u16_def put_u32_def numeral_2_eq_2 eval_nat_numeral low_byte)

lemma length_put_le [simp]: "length (put_le w ofs v frame) = length frame"
  by (induction w ofs v frame rule: put_le.induct) simp_all

lemma put_le_outside: "b < ofs \<Longrightarrow> put_le w ofs v frame ! b = frame ! b"
  by (induction w ofs v frame rule: put_le.induct) simp_all

lemma read_le_cong:
  "(\<And>b. ofs \<le> b \<Longrightarrow> b < ofs + w \<Longrightarrow> f ! b = g ! b) \<Longrightarrow> read_le w ofs f = read_le w ofs g"
  by (induction w ofs f rule: read_le.induct) simp_all

lemma read_put_le:
  "ofs + w \<le> length frame \<Longrightarrow> read_le w ofs (put_le w ofs v frame) = unat v mod 256 ^ w"
proof (induction w ofs v frame rule: put_le.induct)
  case (1 ofs v frame)
  then show ?case by simp
next
  case (2 w ofs v frame)
  have "unat (ucast v :: u8) = unat v mod 256" by (simp add: unsigned_ucast_eq take_bit_eq_mod)
  moreover have "unat (drop_bit 8 v) = unat v div 256" by (simp add: drop_bit_eq_div unat_div_distrib)
  ultimately show ?case
    using 2 mod_mult2_eq [of "unat v" 256 "256 ^ w"] by (simp add: put_le_outside)
qed

text \<open>A run of writes, each starting where the last one ended, is read back write by write.\<close>

fun chained :: "(nat \<times> nat \<times> u32) list \<Rightarrow> nat \<Rightarrow> nat \<Rightarrow> bool" where
  "chained [] e n \<longleftrightarrow> e = n"
| "chained ((w, ofs, v) # ws) e n \<longleftrightarrow> ofs = e \<and> chained ws (e + w) n"

abbreviation write_all :: "(nat \<times> nat \<times> u32) list \<Rightarrow> u8 list \<Rightarrow> u8 list" where
  "write_all ws \<equiv> fold (\<lambda>(w, ofs, v). put_le w ofs v) ws"

lemma write_all_below: "chained ws e n \<Longrightarrow> b < e \<Longrightarrow> write_all ws frame ! b = frame ! b"
  by (induction ws e n arbitrary: frame rule: chained.induct) (simp_all add: put_le_outside)

lemma length_write_all [simp]: "length (write_all ws frame) = length frame"
  by (induction ws arbitrary: frame) auto

lemma chained_le: "chained ws e n \<Longrightarrow> e \<le> n"
  by (induction ws e n rule: chained.induct) auto

lemma read_write_all:
  "chained ws e n \<Longrightarrow> n \<le> length frame \<Longrightarrow>
   map (\<lambda>(w, ofs, v). read_le w ofs (write_all ws frame)) ws = map (\<lambda>(w, ofs, v). unat v mod 256 ^ w) ws"
proof (induction ws e n arbitrary: frame rule: chained.induct)
  case (1 e n)
  then show ?case by simp
next
  case (2 w ofs v ws e n)
  have rest: "chained ws (e + w) n" and ofs: "ofs = e" using "2.prems"(1) by simp_all
  have "read_le w ofs (write_all ws (put_le w ofs v frame)) = read_le w ofs (put_le w ofs v frame)"
    by (rule read_le_cong) (use write_all_below [OF rest] ofs in simp)
  also have "\<dots> = unat v mod 256 ^ w"
    by (rule read_put_le) (use chained_le [OF rest] "2.prems"(2) ofs in simp)
  finally show ?case using "2.IH" [OF rest] "2.prems"(2) by simp
qed

section \<open>What a frame says\<close>

text \<open>The writes of one emission as (width, offset, value), the integrity word apart.\<close>

definition image_before :: "nat \<Rightarrow> u32 \<Rightarrow> 'a tlm_state_scheme \<Rightarrow> (nat \<times> nat \<times> u32) list" where
  "image_before task_count uptime s =
     [(4, 0, OBC_TLM_SYNC), (4, 4, obc_tlm_seq s), (4, 8, uptime), (4, 12, obc_frames_run s),
      (2, 16, sat16 (obc_frame_overruns s)), (2, 18, sat16 (obc_slack_ticks_min s))] @
     map (\<lambda>i. (1, 20 + i, sat8 (if i < task_count then ts_overruns (obc_task_state s ! i) else 0))) [0..<8] @
     [(2, 28, sat16 (obc_critical_repairs (crit s))), (2, 30, sat16 (obc_critical_failed_votes (crit s))),
      (2, 32, sat16 (obc_suspension_count s)), (2, 34, sat16 (obc_tlm_drops s)),
      (1, 36, sat8 (obc_recover_short_boots s))]"

definition image_after :: "bool \<Rightarrow> 'a tlm_state_scheme \<Rightarrow> (nat \<times> nat \<times> u32) list" where
  "image_after safe s =
     [(1, 37, if safe then OBC_MODE_SAFE else OBC_MODE_NOMINAL), (1, 38, obc_safe_reason s),
      (1, 39, obc_reset_cause_previous s), (1, 40, obc_sensor_flags (sensors s))] @
     map (\<lambda>i. (2, 41 + i * 2, ucast (obc_sensor_value (sensors s) ! i))) [0..<2] @
     [(4, 45, obc_cmd_examined s), (4, 49, obc_cmd_accepted s)] @
     map (\<lambda>i. (4, 53 + i * 4, obc_cmd_rejected s ! i)) [0..<8] @
     [(2, 85, sat16 (obc_cmd_executed (cmd_q s))), (1, 87, sat8 (obc_cmd_queued (cmd_q s))),
      (1, 88, sat8 (obc_cmd_late (cmd_q s)))]"

lemmas tlm_sizes = OBC_MAX_TASKS_def OBC_CMD_REJECT_COUNT_def

lemma pack_image:
  "pack (puts_before_vote n u s) t = t\<lparr>obc_tlm_frame := write_all (image_before n u s) (obc_tlm_frame t)\<rparr>"
  "pack (puts_after_vote safe s) t = t\<lparr>obc_tlm_frame := write_all (image_after safe s) (obc_tlm_frame t)\<rparr>"
  by (simp_all add: pack_def puts_before_vote_def puts_after_vote_def image_before_def image_after_def
      tlm_layout tlm_sizes puts_are_put_le fold_map comp_def del: upt_Suc)

lemma chained_image: "chained (image_before n u s @ image_after safe t @ [(2, 89, w)]) 0 91"
  by (simp add: image_before_def image_after_def upt_rec)

lemma sat_values:
  "unat (sat16 v) = min 65535 (unat v)" "unat (sat8 v) = min 255 (unat v)"
  by (simp_all add: sat16_def sat8_def word_less_nat_alt)

text \<open>The values the rows of the table name, saturated to their fields, in the table's order.\<close>

definition published :: "nat \<Rightarrow> 'a tlm_state_scheme \<Rightarrow> nat list list" where
  "published task_count s =
     [[0xA5C35A3C], [unat (obc_tlm_seq s)],
      [case obc_mtime_read (Some 0) s of
         (st, now, _) \<Rightarrow> if st = OBC_OK then unat (the now) mod 2 ^ 32 else 2 ^ 32 - 1],
      [unat (obc_frames_run s)], [min 65535 (unat (obc_frame_overruns s))],
      [min 65535 (unat (obc_slack_ticks_min s))],
      map (\<lambda>i. if i < task_count then min 255 (unat (ts_overruns (obc_task_state s ! i))) else 0) [0..<8],
      [min 65535 (unat (obc_critical_repairs (crit s)))], [min 65535 (unat (obc_critical_failed_votes (crit s)))],
      [min 65535 (unat (obc_suspension_count s))], [min 65535 (unat (obc_tlm_drops s))],
      [min 255 (unat (obc_recover_short_boots s))],
      [if fst (obc_mode_is_safe s) then 1 else 0], [unat (obc_safe_reason s) mod 256],
      [unat (obc_reset_cause_previous s) mod 256], [unat (obc_sensor_flags (sensors s)) mod 256],
      map (\<lambda>i. unat (obc_sensor_value (sensors s) ! i)) [0..<2],
      [unat (obc_cmd_examined s)], [unat (obc_cmd_accepted s)], map (\<lambda>i. unat (obc_cmd_rejected s ! i)) [0..<8],
      [min 65535 (unat (obc_cmd_executed (cmd_q s)))], [min 255 (unat (obc_cmd_queued (cmd_q s)))],
      [min 255 (unat (obc_cmd_late (cmd_q s)))]]"

lemma u32_mod [simp]: "unat (v :: u32) mod 4294967296 = unat v"
  using unsigned_less [of v, where 'a = nat] by simp

text \<open>Decoding with the table, spelled out.\<close>

lemma decode_rows:
  "map (decode_row frame) (butlast obc_tlm_fields) =
     [[read_le 4 0 frame], [read_le 4 4 frame], [read_le 4 8 frame], [read_le 4 12 frame], [read_le 2 16 frame],
      [read_le 2 18 frame], map (\<lambda>i. read_le 1 (20 + i) frame) [0..<8], [read_le 2 28 frame],
      [read_le 2 30 frame], [read_le 2 32 frame], [read_le 2 34 frame], [read_le 1 36 frame],
      [read_le 1 37 frame], [read_le 1 38 frame], [read_le 1 39 frame], [read_le 1 40 frame],
      map (\<lambda>i. read_le 2 (41 + i * 2) frame) [0..<2], [read_le 4 45 frame], [read_le 4 49 frame],
      map (\<lambda>i. read_le 4 (53 + i * 4) frame) [0..<8], [read_le 2 85 frame], [read_le 1 87 frame],
      [read_le 1 88 frame]]"
  by (simp add: obc_tlm_fields_def tlm_row_def decode_row_def tlm_layout tlm_sizes
      del: read_le.simps)

lemma decode_last: "decode_row frame (last obc_tlm_fields) = [read_le 2 89 frame]"
  by (simp add: obc_tlm_fields_def tlm_row_def decode_row_def tlm_layout tlm_sizes del: read_le.simps)

lemma mod_fits [simp]:
  "min 65535 x mod 65536 = min 65535 x" "min 255 x mod 256 = min (255 :: nat) x"
  "unat (v :: u16) mod 65536 = unat v"
  using unat_u16_less [of v] by simp_all

lemma frame_sum_fits: "unat (frame_sum frame) mod 65536 = unat (frame_sum frame)"
proof -
  let ?x = "fold sum_step (take OBC_TLM_O_SUM frame) 0"
  have x: "unat ?x < 65536" using sum_value [of 0 "take OBC_TLM_O_SUM frame"] by (simp add: Let_def)
  have "unat (frame_sum frame) = unat ?x XOR 65535"
    by (simp add: frame_sum_def unsigned_xor_eq)
  moreover have "take_bit 16 (unat ?x XOR 65535) = unat ?x XOR 65535"
    using x by (simp add: take_bit_xor take_bit_nat_eq_self)
  ultimately show ?thesis by (simp add: take_bit_eq_mod)
qed

text \<open>The writes and the rows agree on where everything is.\<close>

lemma image_values:
  assumes "map (\<lambda>(w, ofs, v). read_le w ofs frame) (image_before n u s @ image_after safe s @ [(2, 89, x)]) =
      map (\<lambda>(w, ofs, v). unat v mod 256 ^ w) (image_before n u s @ image_after safe s @ [(2, 89, x)])"
    and "safe = fst (obc_mode_is_safe s)"
    and "unat u = (case obc_mtime_read (Some 0) s of
      (st, now, _) \<Rightarrow> if st = OBC_OK then unat (the now) mod 2 ^ 32 else 2 ^ 32 - 1)"
  shows "map (decode_row frame) (butlast obc_tlm_fields) = published n s \<and> read_le 2 89 frame = unat x mod 65536"
proof -
  have sync: "unat OBC_TLM_SYNC = 0xA5C35A3C" by (simp add: OBC_TLM_SYNC_def)
  have m: "unat (if b then OBC_MODE_SAFE else OBC_MODE_NOMINAL) mod 256 = (if b then 1 else 0)" for b
    by (simp add: OBC_MODE_SAFE_def OBC_MODE_NOMINAL_def)
  have z: "min 255 (unat (if b then v else 0 :: u32)) = (if b then min 255 (unat v) else 0)" for b v
    by simp
  show ?thesis
    using assms(1)
    unfolding decode_rows published_def assms(2,3) image_before_def image_after_def
    by (simp add: sat_values sync m z assms(2) [symmetric] assms(3) comp_def del: read_le.simps)
qed

lemma decode_image:
  assumes "length frame = 91"
    and "frame' = write_all (image_before n u s @ image_after safe t @ [(2, 89, w)]) frame"
  shows "map (\<lambda>(w, ofs, v). read_le w ofs frame') (image_before n u s @ image_after safe t @ [(2, 89, w)]) =
    map (\<lambda>(w, ofs, v). unat v mod 256 ^ w) (image_before n u s @ image_after safe t @ [(2, 89, w)])"
  unfolding assms(2) by (rule read_write_all [OF chained_image]) (simp add: assms(1))

lemma mtime_keeps:
  assumes "obc_mtime_read out s = (st, out', s1)"
  obtains h c where "s1 = s\<lparr>hw := h, s_unstable_count := c\<rparr>"
proof -
  have "\<exists>h c. s1 = s\<lparr>hw := h, s_unstable_count := c\<rparr>"
    using assms by (auto simp: obc_mtime_read_def split: option.splits prod.splits)
      (metis machine.surjective machine.update_convs(1,2))+
  then show thesis using that by blast
qed

lemma is_safe_keeps:
  assumes "obc_mode_is_safe s = (safe, s1)"
  obtains c m where "s1 = s\<lparr>crit := c, obc_mode := m\<rparr>"
  using assms by (auto simp: obc_mode_is_safe_def split: prod.splits if_splits)

lemma is_safe_cong: "crit t = crit s \<Longrightarrow> fst (obc_mode_is_safe t) = fst (obc_mode_is_safe s)"
  by (simp add: obc_mode_is_safe_def split: prod.splits)

lemma is_safe_leaves:
  assumes "crit t = crit s"
  shows "crit (snd (obc_mode_is_safe t)) = crit (snd (obc_mode_is_safe s))"
    "obc_mode (snd (obc_mode_is_safe t)) = obc_mode (snd (obc_mode_is_safe s))"
  using assms by (simp_all add: obc_mode_is_safe_def split: prod.splits)

text \<open>The frame an emission leaves, and what else it changes.\<close>

lemma emit_frame:
  assumes "obc_tlm_emit n s = (st, s')" and "s_layout_ok s \<noteq> 0"
  obtains now sr t4 h w where
    "fst (obc_mtime_read (Some 0) s) = sr" "fst (snd (obc_mtime_read (Some 0) s)) = now"
    "t4 = write_all (image_after (fst (obc_mode_is_safe s)) s)
       (write_all (image_before n (if sr = OBC_OK then ucast (the now AND 0xFFFFFFFF) else 0xFFFFFFFF) s) (obc_tlm_frame s))"
    "obc_tlm_frame s' = put_le 2 89 (frame_sum t4) t4" "obc_tlm_seq s' = obc_tlm_seq s + 1"
    "obc_uart_downlink_write (Some (obc_tlm_frame s')) 91 (hw (snd (snd (obc_mtime_read (Some 0) s)))) = (w, h)"
    "st = (if w = OBC_OK then sr else w)"
    "hw s' = (if w = OBC_OK then h
              else snd (obc_uart_puts (Some (''tlm    : downlink refused, frame dropped'' @ crlf)) h))"
    "obc_tlm_drops s' = (if w = OBC_OK then obc_tlm_drops s else obc_tlm_drops s + 1)"
    "obc_tlm_drops_consecutive s' = (if w = OBC_OK then 0 else obc_tlm_drops_consecutive s + 1)"
    "s' = s\<lparr>hw := hw s', s_unstable_count := s_unstable_count (snd (snd (obc_mtime_read (Some 0) s))),
       crit := crit (snd (obc_mode_is_safe s)), obc_mode := obc_mode (snd (obc_mode_is_safe s)),
       obc_tlm_frame := obc_tlm_frame s', obc_tlm_seq := obc_tlm_seq s + 1, obc_tlm_drops := obc_tlm_drops s',
       obc_tlm_drops_consecutive := obc_tlm_drops_consecutive s'\<rparr>"
proof -
  obtain sr now s1 where m: "obc_mtime_read (Some 0) s = (sr, now, s1)" by (metis prod_cases3)
  obtain h1 c1 where s1: "s1 = s\<lparr>hw := h1, s_unstable_count := c1\<rparr>" by (rule mtime_keeps [OF m])
  define u where "u = (if sr = OBC_OK then ucast (the now AND 0xFFFFFFFF) else 0xFFFFFFFF :: u32)"
  let ?t2 = "write_all (image_before n u s) (obc_tlm_frame s)"
  have b: "image_before n u s1 = image_before n u s"
    by (simp add: s1 image_before_def obc_recover_short_boots_def)
  define s2 where "s2 = s1\<lparr>obc_tlm_frame := ?t2\<rparr>"
  obtain safe s3 where v: "obc_mode_is_safe s2 = (safe, s3)" by fastforce
  obtain c m3 where s3: "s3 = s2\<lparr>crit := c, obc_mode := m3\<rparr>" by (rule is_safe_keeps [OF v])
  have a: "image_after safe s3 = image_after safe s" by (simp add: s3 s2_def s1 image_after_def)
  have "safe = fst (obc_mode_is_safe s)"
    using is_safe_cong [of s2 s] v by (simp add: s2_def s1)
  have vote: "c = crit (snd (obc_mode_is_safe s))" "m3 = obc_mode (snd (obc_mode_is_safe s))"
    using is_safe_leaves [of s2 s] v by (simp_all add: s3) (simp_all add: s2_def s1)
  define t4 where "t4 = write_all (image_after safe s) ?t2"
  define s6 where "s6 = s3\<lparr>obc_tlm_frame := put_le 2 89 (frame_sum t4) t4, obc_tlm_seq := obc_tlm_seq s + 1\<rparr>"
  obtain w h where w: "obc_uart_downlink_write (Some (obc_tlm_frame s6)) 91 (hw s6) = (w, h)" by fastforce
  have hw6: "hw s6 = hw s1" by (simp add: s6_def s3 s2_def)
  have d6: "obc_tlm_drops s3 = obc_tlm_drops s" by (simp add: s3 s2_def s1)
  have e: "obc_tlm_emit n s = (if w \<noteq> OBC_OK
      then (w, say (''tlm    : downlink refused, frame dropped'' @ crlf)
        (s6\<lparr>hw := h, obc_tlm_drops := obc_tlm_drops s + 1,
            obc_tlm_drops_consecutive := obc_tlm_drops_consecutive s + 1\<rparr>))
      else (sr, s6\<lparr>hw := h, obc_tlm_drops_consecutive := 0\<rparr>))"
    using assms(2) w v a b
    by (simp add: obc_tlm_emit_def m Let_def u_def [symmetric] pack_image s2_def [symmetric])
       (simp add: s6_def t4_def pack_def puts_are_put_le tlm_layout tlm_sizes s3 s2_def s1)
  have f: "obc_tlm_frame s' = obc_tlm_frame s6" "obc_tlm_seq s' = obc_tlm_seq s6"
    using assms(1) e by (auto simp: on_hw_def split: if_splits)
  have s1m: "s1 = snd (snd (obc_mtime_read (Some 0) s))" by (simp add: m)
  have g: "s' = s\<lparr>hw := hw s', s_unstable_count := s_unstable_count s1, crit := c, obc_mode := m3,
      obc_tlm_frame := obc_tlm_frame s', obc_tlm_seq := obc_tlm_seq s + 1, obc_tlm_drops := obc_tlm_drops s',
      obc_tlm_drops_consecutive := obc_tlm_drops_consecutive s'\<rparr>"
    using assms(1) e by (auto simp: on_hw_def s6_def s3 s2_def s1 split: if_splits)
  show thesis
    by (rule that [of sr now t4 w h, OF _ _ _ _ _ _ _ _ _ _ g [unfolded vote s1m]])
      (use assms(1) e f m w hw6 d6 \<open>safe = _\<close> in
        \<open>auto simp: t4_def u_def s6_def on_hw_def split: if_splits\<close>)
qed




text \<open>The frame an emission leaves, read back with the table.\<close>

lemma emission_decodes:
  assumes "obc_tlm_emit n s = (st, s')" and "s_layout_ok s \<noteq> 0" and "length (obc_tlm_frame s) = 91"
  shows "map (decode_row (obc_tlm_frame s')) (butlast obc_tlm_fields) = published n s \<and>
    decode_row (obc_tlm_frame s') (last obc_tlm_fields) = [unat (frame_sum (obc_tlm_frame s'))]"
proof -
  obtain now sr t4 where m: "fst (obc_mtime_read (Some 0) s) = sr" "fst (snd (obc_mtime_read (Some 0) s)) = now"
    and t4: "t4 = write_all (image_after (fst (obc_mode_is_safe s)) s)
       (write_all (image_before n (if sr = OBC_OK then ucast (the now AND 0xFFFFFFFF) else 0xFFFFFFFF) s) (obc_tlm_frame s))"
    and f: "obc_tlm_frame s' = put_le 2 89 (frame_sum t4) t4"
    by (rule emit_frame [OF assms(1,2)]) blast
  let ?u = "if sr = OBC_OK then ucast (the now AND 0xFFFFFFFF) else 0xFFFFFFFF :: u32"
  let ?safe = "fst (obc_mode_is_safe s)"
  have img: "obc_tlm_frame s' = write_all (image_before n ?u s @ image_after ?safe s @ [(2, 89, frame_sum t4)]) (obc_tlm_frame s)"
    by (simp add: f t4)
  note d = decode_image [OF assms(3) img]
  have l: "length t4 = 91" by (simp add: t4 assms(3))
  have "take 89 (put_le 2 89 (frame_sum t4) t4) = take 89 t4"
    using l by (intro nth_equalityI) (simp_all add: put_le_outside)
  then have sum: "frame_sum (obc_tlm_frame s') = frame_sum t4"
    by (simp add: frame_sum_def f tlm_layout tlm_sizes)
  have u: "unat ?u = (case obc_mtime_read (Some 0) s of
      (st, now, _) \<Rightarrow> if st = OBC_OK then unat (the now) mod 2 ^ 32 else 2 ^ 32 - 1)"
    using m by (auto simp: unsigned_ucast_eq take_bit_eq_mod low_word split: prod.splits)
  show ?thesis
    using image_values [OF d refl u] frame_sum_fits [of t4] unfolding decode_last sum by simp
qed

text \<open>A machine just out of \<open>obc_tlm_init\<close>, on a port that takes every byte.\<close>

definition cold_sched :: sched_state where
  "cold_sched = cmd_state.extend ready_cmd
     (sched_state.fields (replicate 256 0) 0 0 (replicate 8 \<lparr>ts_runs = 0, ts_overruns = 0, ts_max_instr = 0\<rparr>)
        0 0 0 0 0 0 OBC_SAFE_ENTRY_NONE)"

definition cold_tlm :: tlm_state where
  "cold_tlm = sched_state.extend cold_sched (tlm_state.fields 3 cold_sensor (replicate 91 7) 5 0 0 0 0)"

definition ready_tlm :: tlm_state where
  "ready_tlm = snd (obc_tlm_init obc_tlm_fields cold_tlm)"

lemma init_flight [simp]:
  "obc_tlm_init obc_tlm_fields s =
     (OBC_OK, s\<lparr>sensors := obc_sensor_init (sensors s), obc_tlm_seq := 0,
              obc_tlm_frame := replicate 91 0, s_layout_ok := 1\<rparr>)"
  using flight_layout_audit
  by (simp add: obc_tlm_init_def) (simp add: obc_tlm_fields_def tlm_layout tlm_sizes)

lemma ready_tlm_sel [simp]:
  "s_layout_ok ready_tlm = 1" "obc_tlm_frame ready_tlm = replicate 91 0" "obc_tlm_seq ready_tlm = 0"
  "sensors ready_tlm = obc_sensor_init cold_sensor" "obc_cmd_examined ready_tlm = obc_cmd_examined ready_cmd"
  by (simp_all add: ready_tlm_def cold_tlm_def cold_sched_def sched_state.defs tlm_state.defs cmd_state.defs)

text \<open>
  C20: every frame tells the truth the layout promises. Whatever the state, and whatever was
  in the buffer before, the frame an emission leaves decodes, row by row of the descriptor
  table, to the values the vehicle holds: sequence, uptime (or all ones when the clock
  could not be read), counters saturated to their fields and never wrapped, the mode as
  voted, the sensor values and flags and the command counters; and its last two bytes are
  the integrity word of the others.
\<close>

theorem emitted_frame_decodes:
  assumes "obc_tlm_emit n s = (st, s')" and "s_layout_ok s \<noteq> 0" and "length (obc_tlm_frame s) = 91"
  shows "map (decode_row (obc_tlm_frame s')) (butlast obc_tlm_fields) = published n s \<and>
    decode_row (obc_tlm_frame s') (last obc_tlm_fields) = [unat (frame_sum (obc_tlm_frame s'))]"
  by (rule emission_decodes [OF assms])

theorem emitted_frame_decodes_witness:
  "map (decode_row (obc_tlm_frame (snd (obc_tlm_emit 5 ready_tlm)))) (butlast obc_tlm_fields) = published 5 ready_tlm"
  using emitted_frame_decodes [of 5 ready_tlm, OF surjective_pairing] by simp

text \<open>
  Telemetry is sent only against a layout that tiles the frame. When \<open>obc_tlm_init\<close>
  accepts a descriptor table, every byte of the frame belongs to exactly one row, and the
  subsystem comes up cleared; when it refuses, nothing changes and no emission sends
  anything. The flight table is accepted.
\<close>

lemma tlm_init_audits_layout:
  assumes "obc_tlm_init layout s = (st, s')"
  shows "(st = OBC_OK \<longrightarrow>
      (\<forall>b < 91. \<exists>!i. i < length layout \<and> unat (tf_offset (layout ! i)) \<le> b \<and>
         b < unat (tf_offset (layout ! i)) + unat (tf_width (layout ! i)) * unat (tf_count (layout ! i))) \<and>
      s_layout_ok s' = 1 \<and> obc_tlm_seq s' = 0 \<and> obc_tlm_frame s' = replicate 91 0) \<and>
    (st \<noteq> OBC_OK \<longrightarrow> s' = s \<and> (s_layout_ok s = 0 \<longrightarrow> obc_tlm_emit n s' = (OBC_ERR_INVALID, s'))) \<and>
    fst (obc_tlm_init obc_tlm_fields s) = OBC_OK"
proof (cases "st = OBC_OK")
  case True
  then have a: "tlm_layout_audit layout 0 = Some (of_nat OBC_TLM_FRAME_LEN)"
    and s': "s_layout_ok s' = 1" "obc_tlm_seq s' = 0" "obc_tlm_frame s' = replicate 91 0"
    using assms by (auto simp: obc_tlm_init_def tlm_layout tlm_sizes split: if_splits)
  have len: "unat (of_nat OBC_TLM_FRAME_LEN :: u32) = 91" by (simp add: tlm_layout tlm_sizes)
  have size: "unat (ucast (tf_width f) * ucast (tf_count f) :: u32) = unat (tf_width f) * unat (tf_count f)" for f
  proof -
    have "unat (tf_width f) * unat (tf_count f) < 256 * 256"
      by (rule mult_strict_mono) (use unat_u8_less [of "tf_width f"] unat_u8_less [of "tf_count f"] in simp_all)
    then show ?thesis by (simp add: unat_word_ariths)
  qed
  from tlm_layout.tiles(1) [OF a] have
    "\<forall>b < 91. \<exists>!i. i < length layout \<and> unat (tf_offset (layout ! i)) \<le> b \<and>
       b < unat (tf_offset (layout ! i)) + unat (tf_width (layout ! i)) * unat (tf_count (layout ! i))"
    unfolding len tlm_layout.covers_def size by simp
  then show ?thesis using True s' by simp
next
  case False
  then have "s' = s" using assms by (auto simp: obc_tlm_init_def split: if_splits)
  then show ?thesis using False by (simp add: obc_tlm_emit_def)
qed

text \<open>
  C28: damage to any one byte of a frame is visible on the ground. In any frame the vehicle
  emits, replacing any single byte by any other value makes the integrity word wrong.
\<close>

theorem damaged_frame_detected:
  assumes "obc_tlm_emit n s = (st, s')" and "s_layout_ok s \<noteq> 0" and "length (obc_tlm_frame s) = 91"
    and "i < 91" and "b \<noteq> obc_tlm_frame s' ! i"
  shows "decode_row ((obc_tlm_frame s')[i := b]) (last obc_tlm_fields) \<noteq>
    [unat (frame_sum ((obc_tlm_frame s')[i := b]))]"
proof -
  obtain t4 where t4: "t4 = write_all (image_after (fst (obc_mode_is_safe s)) s)
       (write_all (image_before n (if fst (obc_mtime_read (Some 0) s) = OBC_OK
          then ucast (the (fst (snd (obc_mtime_read (Some 0) s))) AND 0xFFFFFFFF) else 0xFFFFFFFF) s) (obc_tlm_frame s))"
    and f: "obc_tlm_frame s' = put_le 2 89 (frame_sum t4) t4"
    by (rule emit_frame [OF assms(1,2)]) blast
  let ?f = "obc_tlm_frame s'" and ?g = "(obc_tlm_frame s')[i := b]"
  have l: "length ?f = 91" by (simp add: f t4 assms(3))
  have word: "read_le 2 89 ?f = unat (frame_sum ?f)"
    using emission_decodes [OF assms(1-3)] by (simp add: decode_last del: read_le.simps)
  have s89: "OBC_TLM_O_SUM = 89" by (simp add: tlm_layout tlm_sizes)
  have two: "read_le 2 89 h = unat (h ! 89) + 256 * unat (h ! 90)" for h by (simp add: numeral_2_eq_2)
  have "read_le 2 89 ?g \<noteq> unat (frame_sum ?g)"
  proof (cases "i < 89")
    case True
    have "take 89 ?g = (take 89 ?f)[i := b]" by (simp add: take_update_swap)
    moreover have "i < length (take 89 ?f)" "b \<noteq> take 89 ?f ! i" using True l assms(5) by simp_all
    ultimately have "fold sum_step (take 89 ?g) 0 \<noteq> fold sum_step (take 89 ?f) 0" using sum_one_byte by metis
    then have "frame_sum ?g \<noteq> frame_sum ?f" unfolding frame_sum_def s89 by (simp add: xor_cancel_right)
    then show ?thesis using word True by (simp add: two word_unat_eq_iff)
  next
    case False
    have "frame_sum ?g = frame_sum ?f" using False by (simp add: frame_sum_def s89 take_update_cancel)
    moreover have "read_le 2 89 ?g \<noteq> read_le 2 89 ?f"
    proof -
      have ne: "unat b \<noteq> unat (?f ! i)" using assms(5) by (simp add: word_unat_eq_iff)
      have "i = 89 \<or> i = 90" using False assms(4) by auto
      then show ?thesis using ne l by (auto simp: two)
    qed
    ultimately show ?thesis using word by simp
  qed
  then show ?thesis by (simp add: decode_last del: read_le.simps)
qed

theorem damaged_frame_detected_witness:
  "\<exists>g. decode_row g (last obc_tlm_fields) \<noteq> [unat (frame_sum g)]"
proof -
  let ?f = "obc_tlm_frame (snd (obc_tlm_emit 5 ready_tlm))"
  have "?f ! 4 + 1 \<noteq> ?f ! 4" by simp
  then show ?thesis
    using damaged_frame_detected [of 5 ready_tlm _ _ 4 "?f ! 4 + 1", OF surjective_pairing] by auto
qed






text \<open>
  Rung 2 is observable and erases no evidence. After a subsystem reset the next frame
  differs from what the system would have published in exactly three fields: the sequence
  number is back at zero, and both sensors read as invalid with only their no-data flags set.
\<close>

lemma subsystem_reset_seen_from_ground:
  assumes "obc_tlm_emit n (obc_tlm_subsystem_reset s) = (st, s')" and "s_layout_ok s \<noteq> 0"
    and "wf_sensor (sensors s)"
  shows "map (decode_row (obc_tlm_frame s')) (butlast obc_tlm_fields) =
    (published n s)[1 := [0], 15 := [36], 16 := [65535, 65535]]"
proof -
  let ?r = "obc_tlm_subsystem_reset s"
  have v: "obc_sensor_value (sensors ?r) ! 0 = 0xFFFF" "obc_sensor_value (sensors ?r) ! Suc 0 = 0xFFFF"
    "obc_sensor_flags (sensors ?r) = 36"
    using assms(3)
    by (simp_all add: obc_tlm_subsystem_reset_def obc_sensor_init_def init_one_def wf_sensor_def
        OBC_SENSOR_INVALID_def OBC_SENSOR_FLAG_NODATA_def OBC_SENSOR_FLAG_BITS_def)
  have c: "fst (obc_mode_is_safe ?r) = fst (obc_mode_is_safe s)"
    by (rule is_safe_cong) (simp add: obc_tlm_subsystem_reset_def)
  have m: "(case obc_mtime_read (Some 0) ?r of (st, now, _) \<Rightarrow> g st now) =
      (case obc_mtime_read (Some 0) s of (st, now, _) \<Rightarrow> g st now)" for g
    by (auto simp: obc_mtime_read_def obc_tlm_subsystem_reset_def split: prod.splits option.splits)
  have o: "s_layout_ok ?r \<noteq> 0" "length (obc_tlm_frame ?r) = 91"
    using assms(2) by (simp_all add: obc_tlm_subsystem_reset_def tlm_layout tlm_sizes)
  have "published n ?r = (published n s)[1 := [0], 15 := [36], 16 := [65535, 65535]]"
    unfolding published_def m c
    using v by (simp add: upt_rec [of _ 2]) (simp add: obc_tlm_subsystem_reset_def obc_recover_short_boots_def)
  then show ?thesis using emission_decodes [OF assms(1) o] by simp
qed

end
