(* ===== verification/Tasks.thy ===== *)
theory Tasks
  imports TlmFrame
begin

text \<open>
  The task table, \<^verbatim>\<open>flight/core/tasks.c\<close>: five tasks with their periods, budgets,
  essentiality and subsystem resets, the compile-time assertions as lemmas, and the
  executive run over this table.
\<close>

section \<open>Constants\<close>

definition T0_PERIOD :: u32 where [obc_consts]: "T0_PERIOD = 1"
definition T1_PERIOD :: u32 where [obc_consts]: "T1_PERIOD = 2"
definition T2_PERIOD :: u32 where [obc_consts]: "T2_PERIOD = 4"
definition T3_PERIOD :: u32 where [obc_consts]: "T3_PERIOD = 8"
definition T4_PERIOD :: u32 where [obc_consts]: "T4_PERIOD = 1"
definition T0_ESSENTIAL :: u32 where [obc_consts]: "T0_ESSENTIAL = 1"
definition T1_ESSENTIAL :: u32 where [obc_consts]: "T1_ESSENTIAL = 1"
definition T2_ESSENTIAL :: u32 where [obc_consts]: "T2_ESSENTIAL = 0"
definition T3_ESSENTIAL :: u32 where [obc_consts]: "T3_ESSENTIAL = 0"
definition T4_ESSENTIAL :: u32 where [obc_consts]: "T4_ESSENTIAL = 1"
definition T0_BUDGET :: u32 where [obc_consts]: "T0_BUDGET = 1000"
definition T1_BUDGET :: u32 where [obc_consts]: "T1_BUDGET = 4500"
definition T1_NOMINAL_INSTR :: u32 where [obc_consts]: "T1_NOMINAL_INSTR = 2585"
definition T2_BUDGET :: u32 where [obc_consts]: "T2_BUDGET = 3000"
definition T3_BUDGET :: u32 where [obc_consts]: "T3_BUDGET = 5000"
definition T4_BUDGET :: u32 where [obc_consts]: "T4_BUDGET = 12000"

lemmas task_consts =
  T0_PERIOD_def T1_PERIOD_def T2_PERIOD_def T3_PERIOD_def T4_PERIOD_def
  T0_ESSENTIAL_def T1_ESSENTIAL_def T2_ESSENTIAL_def T3_ESSENTIAL_def T4_ESSENTIAL_def
  T0_BUDGET_def T1_BUDGET_def T1_NOMINAL_INSTR_def T2_BUDGET_def T3_BUDGET_def T4_BUDGET_def

section \<open>Tasks\<close>

record tasks_state = tlm_state +
  work_sink :: u32

definition work :: "u32 \<Rightarrow> 'a tasks_state_scheme \<Rightarrow> 'a tasks_state_scheme" where
  "work iterations s =
     s\<lparr>work_sink := fold (\<lambda>i sink. sink + of_nat i) [0..<unat iterations] (work_sink s)\<rparr>"

definition task_housekeeping :: "'a tasks_state_scheme \<Rightarrow> 'a tasks_state_scheme" where
  "task_housekeeping s = work 50 s"

definition task_telemetry :: "nat \<Rightarrow> 'a tasks_state_scheme \<Rightarrow> 'a tasks_state_scheme" where
  "task_telemetry task_count s =
     snd (obc_tlm_emit task_count (s\<lparr>sensors := snd (obc_sensor_sample (sensors s))\<rparr>))"

definition task_scrub :: "'a tasks_state_scheme \<Rightarrow> 'a tasks_state_scheme" where
  "task_scrub s = s\<lparr>crit := snd (obc_critical_scrub (crit s))\<rparr>"

definition task_command :: "'a tasks_state_scheme \<Rightarrow> 'a tasks_state_scheme" where
  "task_command s =
     (let s1 = obc_cmd_poll obc_cmd_table s
      in s1\<lparr>cmd_q := obc_cmd_queue_run obc_cmd_table (obc_cmd_now_ticks s1) (obc_frames_run s1) (cmd_q s1)\<rparr>)"

definition task_audit :: "'a tasks_state_scheme \<Rightarrow> 'a tasks_state_scheme" where
  "task_audit s = work 400 s"

definition obc_tlm_nominal_instr :: u32 where "obc_tlm_nominal_instr = T1_NOMINAL_INSTR"

definition obc_task_table :: "('a tasks_state_scheme) obc_task list" where
  "obc_task_table =
     [\<lparr>task_name = ''housekeeping'', task_fn = Some task_housekeeping, period_frames = T0_PERIOD,
       budget_instr = T0_BUDGET, essential = T0_ESSENTIAL, reset_fn = None\<rparr>,
      \<lparr>task_name = ''telemetry'', task_fn = Some (task_telemetry 5), period_frames = T1_PERIOD,
       budget_instr = T1_BUDGET, essential = T1_ESSENTIAL, reset_fn = Some obc_tlm_subsystem_reset\<rparr>,
      \<lparr>task_name = ''scrub'', task_fn = Some task_scrub, period_frames = T2_PERIOD,
       budget_instr = T2_BUDGET, essential = T2_ESSENTIAL, reset_fn = None\<rparr>,
      \<lparr>task_name = ''audit'', task_fn = Some task_audit, period_frames = T3_PERIOD,
       budget_instr = T3_BUDGET, essential = T3_ESSENTIAL, reset_fn = None\<rparr>,
      \<lparr>task_name = ''command'', task_fn = Some task_command, period_frames = T4_PERIOD,
       budget_instr = T4_BUDGET, essential = T4_ESSENTIAL,
       reset_fn = Some (\<lambda>s. s\<lparr>cmd_q := obc_cmd_queue_init (cmd_q s)\<rparr>)\<rparr>]"

definition obc_task_count :: nat where
  "obc_task_count = length (obc_task_table :: unit tasks_state_scheme obc_task list)"

section \<open>Size and budgets\<close>

lemma obc_task_count_eq: "obc_task_count = 5" "length obc_task_table = 5"
  by (simp_all add: obc_task_count_def obc_task_table_def)

text \<open>The budgets fit one frame, summed without wrapping.\<close>

lemma static_budgets:
  "(\<Sum>t\<leftarrow>obc_task_table. unat (budget_instr t)) \<le> unat OBC_FRAME_INSTR_CAPACITY"
  by (simp add: obc_task_table_def task_consts OBC_FRAME_INSTR_CAPACITY_def OBC_MILLI_INSTR_PER_TICK_def
      OBC_FRAME_TICKS_def)

text \<open>A stalled downlink stays inside the telemetry budget.\<close>

lemma static_stalled_downlink:
  "unat T1_NOMINAL_INSTR + unat OBC_UART_TX_RETRY_TOTAL * unat OBC_UART_TX_POLL_INSTR \<le> unat T1_BUDGET"
  by (simp add: task_consts OBC_UART_TX_RETRY_TOTAL_def OBC_UART_TX_POLL_INSTR_def)

section \<open>The tasks keep to their contract\<close>

lemma well_behaved_same:
  assumes "\<And>s. kept (f s) = kept s \<and> quiet (f s) = quiet s \<and> crit (f s) = crit s \<and> s_announced (f s) = s_announced s"
  shows "well_behaved f"
  using assms by (simp add: well_behaved_def nominal_def degraded_def)

lemma housekeeping_behaves: "well_behaved task_housekeeping"
  by (rule well_behaved_same) (simp add: task_housekeeping_def work_def kept_def quiet_def)

lemma audit_behaves: "well_behaved task_audit"
  by (rule well_behaved_same) (simp add: task_audit_def work_def kept_def quiet_def)

lemma tlm_reset_behaves: "well_behaved obc_tlm_subsystem_reset"
  by (rule well_behaved_same) (simp add: obc_tlm_subsystem_reset_def kept_def quiet_def)

lemma queue_reset_behaves: "well_behaved (\<lambda>s. s\<lparr>cmd_q := obc_cmd_queue_init (cmd_q s)\<rparr>)"
  by (rule well_behaved_same) (simp add: kept_def quiet_def)

text \<open>Commands: no ingest, poll or queue run touches the mode or the executive.\<close>

definition outside_cmd :: "'a sched_state_scheme \<Rightarrow>
    (u8 list \<times> u32 \<times> u32 \<times> u32) \<times> (u32 \<times> u32 \<times> u32) \<times> critical_st \<times> u32 \<times> u32 \<times> u32" where
  "outside_cmd s = (kept s, quiet s, crit s, s_announced s, obc_trace_overflow s, obc_frame_overruns s)"

lemma outside_cmd_simps [simp]:
  "outside_cmd (s\<lparr>hw := h\<rparr>) = outside_cmd s" "outside_cmd (s\<lparr>s_fill := n\<rparr>) = outside_cmd s"
  "outside_cmd (s\<lparr>s_rx := b\<rparr>) = outside_cmd s" "outside_cmd (s\<lparr>cmd_q := q\<rparr>) = outside_cmd s"
  "outside_cmd (s\<lparr>obc_cmd_examined := v\<rparr>) = outside_cmd s" "outside_cmd (s\<lparr>obc_cmd_accepted := v\<rparr>) = outside_cmd s"
  "outside_cmd (s\<lparr>obc_cmd_rejected := vs\<rparr>) = outside_cmd s" "outside_cmd (s\<lparr>obc_cmd_announced := v\<rparr>) = outside_cmd s"
  "outside_cmd (s\<lparr>s_last_counter := v\<rparr>) = outside_cmd s" "outside_cmd (on_hw f s) = outside_cmd s"
  "outside_cmd (count_examined s) = outside_cmd s" "outside_cmd (accept_frame frame s) = outside_cmd s"
  by (simp_all add: outside_cmd_def kept_def quiet_def on_hw_def count_examined_def accept_frame_def)

lemma outside_refuse [simp]: "outside_cmd (snd (snd (refuse r out s))) = outside_cmd s"
  by (simp add: refuse_def Let_def announce_once_def)

lemma outside_ingest:
  assumes "obc_cmd_ingest table fp len reason s = (st, reason', s')"
  shows "outside_cmd s' = outside_cmd s"
proof (cases "s_table_ok s = 0 \<or> fp = None")
  case True
  then show ?thesis using assms ingest_off [OF True] by simp
next
  case False
  then obtain frame where fp: "fp = Some frame" and ok: "s_table_ok s \<noteq> 0" by auto
  let ?v = "verdict table frame len s"
  show ?thesis
  proof (cases "?v = OBC_CMD_REJECT_COUNT")
    case True
    then show ?thesis using assms unfolding fp ingest_eq [OF ok] Let_def by auto
  next
    case no: False
    then have "refuse ?v reason (count_examined s) = (st, reason', s')"
      using assms unfolding fp ingest_eq [OF ok] Let_def by simp
    then show ?thesis using outside_refuse [of ?v reason "count_examined s"] by simp
  qed
qed

lemma outside_poll: "outside_cmd (obc_cmd_poll table s) = outside_cmd s"
proof -
  have loop: "outside_cmd (snd (poll_loop n table k s)) = outside_cmd s" for n k
    by (rule poll_loop_keeps [of "\<lambda>t. outside_cmd t = outside_cmd s"]) (simp_all add: outside_ingest)
  obtain k s1 where p: "poll_loop OBC_CMD_RX_BYTES table 0 s = (k, s1)" by fastforce
  have "outside_cmd s1 = outside_cmd s" using loop [of OBC_CMD_RX_BYTES 0] p by simp
  then show ?thesis by (simp add: obc_cmd_poll_def p)
qed

lemma command_outside: "outside_cmd (task_command s) = outside_cmd s" for s :: "'a tasks_state_scheme"
  by (simp add: task_command_def Let_def outside_poll)

lemma command_behaves: "well_behaved task_command"
proof (rule well_behaved_same)
  fix s :: "'a tasks_state_scheme"
  have "outside_cmd (task_command s) = outside_cmd s" by (rule command_outside)
  then show "kept (task_command s) = kept s \<and> quiet (task_command s) = quiet s \<and>
      crit (task_command s) = crit s \<and> s_announced (task_command s) = s_announced s"
    by (simp add: outside_cmd_def)
qed

text \<open>The scrubber repairs copies; it changes no vote.\<close>

lemma vote_keeps_says:
  assumes "critical_good c" and "n < length (obc_critical_items c)" and "critical_says c v"
  shows "critical_good (snd (snd (vote n out c))) \<and> critical_says (snd (snd (vote n out c))) v \<and>
    length (obc_critical_items (snd (snd (vote n out c)))) = length (obc_critical_items c)"
proof -
  have wf: "wf_critical c" using assms(1) by (simp add: critical_good_def)
  note wfn = wf_nth [OF wf assms(2)]
  show ?thesis
  proof (cases "\<exists>w. majority (obc_critical_items c ! n) w")
    case True
    then obtain w where w: "majority (obc_critical_items c ! n) w" ..
    have "critical_says (snd (snd (vote n out c))) v"
      using vote_resolved [OF wfn w, of out] assms(2,3) majority_set_item [OF wfn] majority_unique [OF w]
      by (cases "n = obc_critical_mode") (auto simp: critical_says_def)
    then show ?thesis
      using wf_vote [OF wf assms(2), of out] assms(1) vote_resolved [OF wfn w, of out]
      by (simp add: critical_good_def)
  next
    case False
    then show ?thesis
      using assms by (auto simp: vote_unresolved critical_good_def wf_critical_def critical_says_def)
  qed
qed

lemma scrub_keeps_says:
  assumes "critical_good c" and "critical_says c v" and "\<forall>n \<in> set ns. n < length (obc_critical_items c)"
  shows "critical_good (snd (scrub_items ns w c)) \<and> critical_says (snd (scrub_items ns w c)) v"
  using assms
proof (induction ns arbitrary: w c)
  case Nil
  then show ?case by simp
next
  case (Cons n ns)
  obtain st x c' where v: "vote n None c = (st, x, c')" by (cases "vote n None c") auto
  then show ?case
    using Cons.IH [of c'] vote_keeps_says [of c n v None] Cons.prems by simp
qed

lemma scrub_behaves: "well_behaved task_scrub"
proof -
  have ids: "\<forall>n \<in> set [0..<length (obc_critical_items c)]. n < length (obc_critical_items c)" for c by simp
  show ?thesis
    using scrub_keeps_says [OF _ _ ids] scrub_only_safe [OF _ _ ids]
    by (auto simp: well_behaved_def task_scrub_def obc_critical_scrub_def nominal_def degraded_def
        kept_def quiet_def)
qed

text \<open>An emission touches the mode only by voting on it.\<close>

lemma outside_tlm [simp]:
  "outside_cmd (s\<lparr>sensors := x\<rparr>) = outside_cmd s" "outside_cmd (pack ps s) = outside_cmd s"
  "outside_cmd (s\<lparr>obc_tlm_seq := v\<rparr>) = outside_cmd s" "outside_cmd (s\<lparr>obc_tlm_drops := v\<rparr>) = outside_cmd s"
  "outside_cmd (s\<lparr>obc_tlm_drops_consecutive := v\<rparr>) = outside_cmd s"
  "outside_cmd (s\<lparr>s_unstable_count := v\<rparr>) = outside_cmd s"
  by (simp_all add: outside_cmd_def kept_def quiet_def pack_def)

lemma outside_nominal:
  "outside_cmd t = outside_cmd s \<Longrightarrow> kept t = kept s \<and> quiet t = quiet s \<and> nominal t = nominal s \<and> degraded t = degraded s"
  by (simp add: outside_cmd_def nominal_def degraded_def)

lemma outside_faults:
  "outside_cmd t = outside_cmd s \<Longrightarrow> obc_trace_overflow t = obc_trace_overflow s \<and> obc_frame_overruns t = obc_frame_overruns s"
  "obc_trace_overflow (snd (obc_mode_is_safe s)) = obc_trace_overflow s"
  "obc_frame_overruns (snd (obc_mode_is_safe s)) = obc_frame_overruns s"
  by (simp_all add: outside_cmd_def obc_mode_is_safe_def split: prod.splits)

lemma emit_through_vote:
  fixes s :: "'a tlm_state_scheme"
  shows "outside_cmd (snd (obc_tlm_emit n s)) = outside_cmd s \<or>
   (\<exists>t :: 'a tlm_state_scheme. outside_cmd t = outside_cmd s \<and>
      outside_cmd (snd (obc_tlm_emit n s)) = outside_cmd (snd (obc_mode_is_safe t)))"
proof (cases "s_layout_ok s = 0")
  case True
  then show ?thesis by (simp add: obc_tlm_emit_def)
next
  case False
  obtain st now s1 where m: "obc_mtime_read (Some 0) s = (st, now, s1)" by (metis prod_cases3)
  obtain h c where s1: "s1 = s\<lparr>hw := h, s_unstable_count := c\<rparr>" by (rule mtime_keeps [OF m])
  define u where "u = (if st = OBC_OK then ucast (the now AND 0xFFFFFFFF) else 0xFFFFFFFF :: u32)"
  define s2 where "s2 = pack (puts_before_vote n u s1) s1"
  obtain safe s3 where v: "obc_mode_is_safe s2 = (safe, s3)" by fastforce
  have "outside_cmd s2 = outside_cmd s" by (simp add: s2_def s1)
  moreover have "outside_cmd (snd (obc_tlm_emit n s)) = outside_cmd s3"
    unfolding obc_tlm_emit_def if_not_P [OF False] m prod.case Let_def u_def [symmetric] s2_def [symmetric] v
    by (simp split: prod.split)
  ultimately show ?thesis using v by (intro disjI2 exI [of _ s2]) simp
qed

lemma vote_behaves:
  assumes "outside_cmd t = outside_cmd s" and "outside_cmd s' = outside_cmd (snd (obc_mode_is_safe t))"
  shows "kept s' = kept s \<and> quiet s' = quiet s \<and> (nominal s \<longrightarrow> nominal s') \<and> (degraded s \<longrightarrow> degraded s')"
  using outside_nominal [OF assms(1)] outside_nominal [OF assms(2)] nominal_is_safe [of t] degraded_is_safe [of t]
  by simp

lemma telemetry_faults:
  "obc_trace_overflow (task_telemetry n s) = obc_trace_overflow s"
  "obc_frame_overruns (task_telemetry n s) = obc_frame_overruns s"
  for s :: "'a tasks_state_scheme"
proof -
  let ?t = "s\<lparr>sensors := snd (obc_sensor_sample (sensors s))\<rparr>" and ?e = "snd (obc_tlm_emit n (s\<lparr>sensors := snd (obc_sensor_sample (sensors s))\<rparr>))"
  have "obc_trace_overflow ?e = obc_trace_overflow ?t \<and> obc_frame_overruns ?e = obc_frame_overruns ?t"
  proof (rule disjE [OF emit_through_vote [of n ?t]])
    assume "outside_cmd ?e = outside_cmd ?t"
    from outside_faults(1) [OF this] show ?thesis .
  next
    assume "\<exists>t :: 'a tasks_state_scheme. outside_cmd t = outside_cmd ?t \<and> outside_cmd ?e = outside_cmd (snd (obc_mode_is_safe t))"
    then obtain t :: "'a tasks_state_scheme" where t: "outside_cmd t = outside_cmd ?t"
      "outside_cmd ?e = outside_cmd (snd (obc_mode_is_safe t))" by blast
    show ?thesis using outside_faults(1) [OF t(1)] outside_faults(1) [OF t(2)] outside_faults(2,3) [of t] by simp
  qed
  then show "obc_trace_overflow (task_telemetry n s) = obc_trace_overflow s"
    "obc_frame_overruns (task_telemetry n s) = obc_frame_overruns s"
    by (simp_all add: task_telemetry_def)
qed

lemma telemetry_behaves: "well_behaved (task_telemetry n)"
proof -
  have "kept (task_telemetry n s) = kept s \<and> quiet (task_telemetry n s) = quiet s \<and>
      (nominal s \<longrightarrow> nominal (task_telemetry n s)) \<and> (degraded s \<longrightarrow> degraded (task_telemetry n s))"
    for s :: "'a tasks_state_scheme"
  proof (rule disjE [OF emit_through_vote [of n "s\<lparr>sensors := snd (obc_sensor_sample (sensors s))\<rparr>"]])
    assume "outside_cmd (snd (obc_tlm_emit n (s\<lparr>sensors := snd (obc_sensor_sample (sensors s))\<rparr>))) =
      outside_cmd (s\<lparr>sensors := snd (obc_sensor_sample (sensors s))\<rparr>)"
    then show ?thesis using outside_nominal [of "task_telemetry n s" s] by (simp add: task_telemetry_def)
  next
    assume "\<exists>t :: 'a tasks_state_scheme. outside_cmd t = outside_cmd (s\<lparr>sensors := snd (obc_sensor_sample (sensors s))\<rparr>) \<and>
      outside_cmd (snd (obc_tlm_emit n (s\<lparr>sensors := snd (obc_sensor_sample (sensors s))\<rparr>))) =
        outside_cmd (snd (obc_mode_is_safe t))"
    then obtain t :: "'a tasks_state_scheme" where "outside_cmd t = outside_cmd s"
      "outside_cmd (task_telemetry n s) = outside_cmd (snd (obc_mode_is_safe t))"
      unfolding task_telemetry_def outside_tlm by blast
    then show ?thesis by (rule vote_behaves)
  qed
  then show ?thesis by (simp add: well_behaved_def)
qed

interpretation flight: task_set "obc_task_table :: tasks_state obc_task list"
proof unfold_locales
  fix i f
  assume i: "i < length (obc_task_table :: tasks_state obc_task list)"
  then have cases: "i = 0 \<or> i = 1 \<or> i = 2 \<or> i = 3 \<or> i = 4" by (auto simp: obc_task_count_eq)
  show "task_fn ((obc_task_table :: tasks_state obc_task list) ! i) \<noteq> None"
    using cases by (auto simp: obc_task_table_def)
  show "well_behaved f" if "task_fn ((obc_task_table :: tasks_state obc_task list) ! i) = Some f"
    using cases that housekeeping_behaves telemetry_behaves scrub_behaves audit_behaves command_behaves
    by (auto simp: obc_task_table_def)
  show "well_behaved f" if "reset_fn ((obc_task_table :: tasks_state obc_task list) ! i) = Some f"
    using cases that tlm_reset_behaves queue_reset_behaves by (auto simp: obc_task_table_def)
qed (simp add: obc_task_count_eq)

section \<open>The flight schedule\<close>

text \<open>Which of the five tasks frame \<open>f\<close> dispatches, in table order.\<close>

definition due_in_frame :: "nat \<Rightarrow> u8 list" where
  "due_in_frame f =
     [0] @ (if 2 dvd f then [1] else []) @ (if 4 dvd f then [2] else []) @ (if 8 dvd f then [3] else []) @ [4]"

lemma window_dispatches: "length (concat (map due_in_frame [0..<16])) = 46"
  by code_simp

lemma flight_periods:
  "map period_frames (obc_task_table :: tasks_state obc_task list) = [1, 2, 4, 8, 1]"
  by (simp add: obc_task_table_def task_consts)

lemma task_due_dvd:
  assumes "f < 2 ^ 32" and "period_frames (table ! i) = p" and "p \<noteq> 0"
  shows "task_due table (of_nat f) i \<longleftrightarrow> unat p dvd f"
proof -
  have f: "unat (of_nat f :: u32) = f" using assms(1) by (simp add: unat_of_nat take_bit_nat_eq_self)
  show ?thesis using word_mod_eq_0 [of "of_nat f" p] assms(2,3) unfolding task_due_def f by simp
qed

lemma flight_expected:
  assumes "f < 2 ^ 32"
  shows "flight.expected (of_nat f) [0..<5] = due_in_frame f"
proof -
  have n: "[0..<5] = [0, 1, 2, 3, 4 :: nat]" by (simp add: upt_rec)
  have p: "period_frames ((obc_task_table :: tasks_state obc_task list) ! i) = [1, 2, 4, 8, 1] ! i" if "i < 5" for i
    using arg_cong [OF flight_periods, of "\<lambda>ps. ps ! i"] that by (simp add: obc_task_count_eq)
  note due = task_due_dvd [OF assms, where table = "obc_task_table :: tasks_state obc_task list"]
  have "task_due (obc_task_table :: tasks_state obc_task list) (of_nat f) 0"
    "task_due (obc_task_table :: tasks_state obc_task list) (of_nat f) 1 \<longleftrightarrow> 2 dvd f"
    "task_due (obc_task_table :: tasks_state obc_task list) (of_nat f) 2 \<longleftrightarrow> 4 dvd f"
    "task_due (obc_task_table :: tasks_state obc_task list) (of_nat f) 3 \<longleftrightarrow> 8 dvd f"
    "task_due (obc_task_table :: tasks_state obc_task list) (of_nat f) 4"
    using due [OF p [of 0]] due [OF p [of 1]] due [OF p [of 2]] due [OF p [of 3]] due [OF p [of 4]]
    by (simp_all add: nth_Cons')
  then show ?thesis unfolding flight.expected_def due_in_frame_def n by (simp del: One_nat_def)
qed

lemma flight_schedule:
  "flight.schedule (unat (frames :: u32)) 0 = concat (map due_in_frame [0..<unat frames])"
proof -
  have "unat frames < 2 ^ 32" using unsigned_less [of frames, where 'a = nat] by simp
  then have "flight.expected (0 + of_nat j) [0..<length (obc_task_table :: tasks_state obc_task list)] = due_in_frame j"
    if "j < unat frames" for j
    using that flight_expected [of j] by (simp only: obc_task_count_eq add_0)
  then have "map (\<lambda>j. flight.expected (0 + of_nat j) [0..<length (obc_task_table :: tasks_state obc_task list)])
      [0..<unat frames] = map due_in_frame [0..<unat frames]"
    by (intro map_cong refl) (simp only: set_upt atLeastLessThan_iff)
  then show ?thesis unfolding flight.schedule_def by (rule arg_cong)
qed

lemma not_spoiled:
  assumes "\<not> fst (obc_mode_is_safe s)" and "obc_suspension_count s = 0"
  shows "\<not> spoiled s"
  using assms degraded_is_safe [of s] by (auto simp: spoiled_def)

text \<open>A machine out of a clean boot, whose clock advances by 300 ticks a read and whose uplink is silent.\<close>

definition ticking_hw :: hw where
  "ticking_hw =
     \<lparr>dev = (\<lambda>es a. if a = MTIME_LO then of_nat (300 * reads_of MTIME_LO es)
                   else if a = UART1_BASE + UART_RXDATA then UART_RXDATA_EMPTY else 0),
      instret = (\<lambda>_. 0), io = []\<rparr>"

definition ready_tasks :: tasks_state where
  "ready_tasks = (obc_mode_restore 3 (tlm_state.extend ready_tlm (tasks_state.fields 0)))\<lparr>hw := ticking_hw\<rparr>"

lemma ready_tasks_good: "nominal ready_tasks" "wf_trace ready_tasks" "recorded ready_tasks = []"
proof -
  let ?s = "tlm_state.extend ready_tlm (tasks_state.fields 0)"
  have r: "crit ?s = crit cold_recover" "obc_mode_record ?s = obc_mode_record cold_recover"
    "obc_trace ?s = replicate 256 0" "obc_trace_len ?s = 0"
    by (simp_all add: tlm_state.defs tasks_state.defs ready_tlm_def cold_tlm_def cold_sched_def sched_state.defs
        cmd_state.defs ready_cmd_def cold_cmd_def recover_state.defs obc_cmd_init_def)
  have "\<not> mode_intact (obc_mode_record ?s)"
    by (simp add: r cold_recover_def mode_state.defs recover_state.defs cold_machine_def mode_intact_def OBC_MODE_MAGIC_def)
  with restore_decides [of ?s 3] cold_recover_good(1) r show "nominal ready_tasks"
    by (simp add: ready_tasks_def nominal_def OBC_RESET_TRAP_def OBC_RESET_DOUBLE_FAULT_def)
  have k: "kept (obc_mode_restore c s) = kept s" for c and s :: "'b sched_state_scheme"
    by (simp add: obc_mode_restore_def Let_def) (simp add: kept_def)
  have "kept ready_tasks = kept ?s" using k [of 3 ?s] by (simp add: ready_tasks_def)
  then have "obc_trace ready_tasks = replicate 256 0" "obc_trace_len ready_tasks = 0"
    using r by (simp_all add: kept_def)
  then show "wf_trace ready_tasks" "recorded ready_tasks = []" by (simp_all add: wf_trace_def recorded_def)
qed

lemma flight_essential:
  assumes "i < length (obc_task_table :: tasks_state obc_task list) \<and>
       essential ((obc_task_table :: tasks_state obc_task list) ! i) \<noteq> 0"
  shows "i \<in> {0, 1, 4}"
proof -
  have "i = 0 \<or> i = 1 \<or> i = 2 \<or> i = 3 \<or> i = 4" using assms by (auto simp: obc_task_count_eq)
  then show ?thesis using assms by (auto simp: obc_task_table_def task_consts)
qed

text \<open>
  C8: degraded, only the essential tasks run, whatever becomes of the run. From safe mode a
  window of any length over the flight table, whether it completes, fails or ends in a
  machine reset, appends to the trace only housekeeping, telemetry and command
  dispatches, and the system is still in safe mode.
\<close>

theorem degraded_runs_only_essentials:
  fixes s :: tasks_state
  assumes "obc_sched_run obc_task_table frames s = (fl, s')" and "degraded s" and "wf_trace s"
  shows "fst (obc_mode_is_safe s') \<and>
    (\<exists>ds. recorded s' = take 256 (recorded s @ ds) \<and> set ds \<subseteq> {0, 1, 4})"
proof -
  from flight.run_essential [OF assms] obtain ds where d:
    "recorded s' = take 256 (recorded s @ map of_nat ds)"
    "\<forall>i \<in> set ds. i < length (obc_task_table :: tasks_state obc_task list) \<and>
       essential ((obc_task_table :: tasks_state obc_task list) ! i) \<noteq> 0"
    unfolding flight.essentials_after_def by blast
  have "set ds \<subseteq> {0, 1, 4}" using d(2) flight_essential by blast
  then have "set (map of_nat ds) \<subseteq> {0, 1, 4 :: u8}" by fastforce
  then show ?thesis using d(1) degraded_is_safe [OF flight.run_spoiled(1) [OF assms(1,2)]] by blast
qed

theorem degraded_runs_only_essentials_witness:
  "\<exists>ds. recorded (snd (obc_sched_run obc_task_table 16 (obc_mode_enter_safe 2 ready_tasks))) = take 256 ds \<and>
     set ds \<subseteq> {0, 1, 4}"
proof -
  let ?s = "obc_mode_enter_safe 2 ready_tasks"
  have k: "kept ?s = kept ready_tasks" by simp
  show ?thesis
    using degraded_runs_only_essentials [OF surjective_pairing nominal_enter_safe [OF ready_tasks_good(1)], of 2 16]
      trace_cong [OF k] ready_tasks_good by auto
qed

end
