(* ===== verification/BootMain.thy ===== *)
theory BootMain
  imports Tasks
begin

text \<open>
  The entry point, \<^verbatim>\<open>flight/core/main.c\<close>: the boot checks of the clock and the timebase,
  the banner, the order in which a boot counts itself, restores the mode, consumes the fault
  record, audits its tables, runs one window of the executive and declares itself healthy.
\<close>

section \<open>Constants and the image\<close>

definition TICK_DELTA_MAX :: u64 where [obc_consts]: "TICK_DELTA_MAX = ucast OBC_MTIME_HZ"
definition TICK_CHECK_READS :: u32 where [obc_consts]: "TICK_CHECK_READS = 64"
definition OBC_MILLI_INSTR_TOLERANCE :: u32 where [obc_consts]: "OBC_MILLI_INSTR_TOLERANCE = 4768"
definition TIMEBASE_CHECK_TICKS :: u32 where [obc_consts]: "TIMEBASE_CHECK_TICKS = 500"
definition STACK_PAINT :: u32 where [obc_consts]: "STACK_PAINT = 0xDEADBEEF"

text \<open>
  What the linker and the startup code provide: the build hash, the section bounds, two
  addresses, the words between the stack's bottom and its top as they are when the banner reads them,
  and the \<open>mscratch\<close> register.
\<close>

record image =
  build_hash :: string
  data_start :: u32
  stack_bottom :: u32
  stack_top :: u32
  main_addr :: u32
  fault_record_addr :: u32
  stack_words :: "u32 list"
  mscratch :: u32

section \<open>Printing\<close>

text \<open>Driver calls on the whole state, and the chain of calls that stops at the first error.\<close>

definition console :: "(hw \<Rightarrow> obc_status \<times> hw) \<Rightarrow> 'a machine_scheme \<Rightarrow> obc_status \<times> 'a machine_scheme" where
  "console f s = (case f (hw s) of (st, h) \<Rightarrow> (st, s\<lparr>hw := h\<rparr>))"

abbreviation puts :: "string \<Rightarrow> 'a machine_scheme \<Rightarrow> obc_status \<times> 'a machine_scheme" where
  "puts text \<equiv> console (obc_uart_puts (Some text))"

abbreviation print_u32 :: "u32 \<Rightarrow> 'a machine_scheme \<Rightarrow> obc_status \<times> 'a machine_scheme" where
  "print_u32 v \<equiv> console (obc_uart_put_u32 v)"

abbreviation print_hex :: "u32 \<Rightarrow> 'a machine_scheme \<Rightarrow> obc_status \<times> 'a machine_scheme" where
  "print_hex v \<equiv> console (obc_uart_put_hex32 v)"

definition chain :: "('s \<Rightarrow> obc_status \<times> 's) list \<Rightarrow> obc_status \<times> 's \<Rightarrow> obc_status \<times> 's" where
  "chain fs r = fold (\<lambda>f r. and_then r f) fs r"

section \<open>The clock checks\<close>

function measure_loop ::
  "u64 \<Rightarrow> u32 \<Rightarrow> u32 \<Rightarrow> 'a machine_scheme \<Rightarrow> obc_status \<times> u32 option \<times> 'a machine_scheme" where
  "measure_loop t0 i0 guard s =
     (if guard < TIMEBASE_CHECK_TICKS * 4096
      then (case obc_mtime_read (Some 0) s of
        (st, now, s1) \<Rightarrow>
          if st \<noteq> OBC_OK then (st, None, s1)
          else if (ucast (the now - t0) :: u32) \<ge> TIMEBASE_CHECK_TICKS
          then (case read_minstret (hw s1) of
            (i1, h) \<Rightarrow>
              (let dinstr = i1 - i0; dticks = ucast (the now - t0) :: u32
               in (OBC_OK, Some ((dinstr div dticks) * 1000 + ((dinstr mod dticks) * 1000) div dticks),
                   s1\<lparr>hw := h\<rparr>)))
          else measure_loop t0 i0 (guard + 1) s1)
      else (OBC_ERR_TIMEOUT, None, s))"
  by pat_completeness auto
termination
proof (relation "measure (\<lambda>(_, _, guard, _). unat (TIMEBASE_CHECK_TICKS * 4096) - unat guard)")
  fix guard :: u32
  assume "guard < TIMEBASE_CHECK_TICKS * 4096"
  moreover from this have "unat (guard + 1) = unat guard + 1"
    using unsigned_less [of "TIMEBASE_CHECK_TICKS * 4096", where 'a = nat]
    by (simp add: word_less_nat_alt unat_word_ariths)
  ultimately show "((t0, i0, guard + 1, s1), (t0, i0, guard, s)) \<in>
      measure (\<lambda>(_, _, guard, _). unat (TIMEBASE_CHECK_TICKS * 4096) - unat guard)" for t0 i0 s1 s
    by (simp add: word_less_nat_alt)
qed simp

declare measure_loop.simps [simp del]

text \<open>The out-parameter is written only on success: \<open>None\<close> when it is not.\<close>

definition measure_instr_per_tick :: "'a machine_scheme \<Rightarrow> obc_status \<times> u32 option \<times> 'a machine_scheme" where
  "measure_instr_per_tick s =
     (case obc_mtime_read (Some 0) s of
        (st, t0, s1) \<Rightarrow>
          if st \<noteq> OBC_OK then (st, None, s1)
          else (case read_minstret (hw s1) of
                  (i0, h) \<Rightarrow> measure_loop (the t0) i0 0 (s1\<lparr>hw := h\<rparr>)))"

definition print_timebase_check :: "'a machine_scheme \<Rightarrow> obc_status \<times> 'a machine_scheme" where
  "print_timebase_check s =
     (case measure_instr_per_tick s of
        (st, out, s1) \<Rightarrow>
          (let milli = (case out of Some v \<Rightarrow> v | None \<Rightarrow> 0);
               low = OBC_MILLI_INSTR_PER_TICK - OBC_MILLI_INSTR_TOLERANCE;
               high = OBC_MILLI_INSTR_PER_TICK + OBC_MILLI_INSTR_TOLERANCE
           in and_then (puts ''base   : '' s1) (\<lambda>s2.
                if st \<noteq> OBC_OK then (st, say (''FAULT unmeasurable'' @ crlf) s2)
                else and_then (chain [print_u32 milli, puts '' milli-instr/tick, expect '',
                       print_u32 OBC_MILLI_INSTR_PER_TICK] (OBC_OK, s2)) (\<lambda>s3.
                  if milli < low \<or> milli > high
                  then (OBC_ERR_INVALID,
                        say (''         or the machine timer is not 32768 Hz (a real regression)'' @ crlf)
                          (say (''         either -icount shift is not 6 (the usual cause, and deliberate)'' @ crlf)
                             (say ('' FAULT out of tolerance'' @ crlf) s3)))
                  else puts ('' ok'' @ crlf) s3))))"

text \<open>The 64 readings: the previous one, the largest gap so far, and the readings left.\<close>

fun tick_loop ::
  "nat \<Rightarrow> u64 \<Rightarrow> u64 \<Rightarrow> u64 \<Rightarrow> 'a machine_scheme \<Rightarrow> obc_status \<times> u64 \<times> u64 \<times> 'a machine_scheme" where
  "tick_loop 0 first previous max_delta s = (OBC_OK, max_delta, previous - first, s)"
| "tick_loop (Suc n) first previous max_delta s =
     (case obc_mtime_read (Some 0) s of
        (st, now, s1) \<Rightarrow>
          if st \<noteq> OBC_OK then (st, 0, 0, s1)
          else (let current = the now
                in if current < previous then (OBC_ERR_INVALID, previous - current, 0, s1)
                   else (let delta = current - previous
                         in if delta \<ge> TICK_DELTA_MAX then (OBC_ERR_UNSTABLE, delta, 0, s1)
                            else tick_loop n first current (if delta > max_delta then delta else max_delta) s1)))"

text \<open>The status, the two out-parameters (initialised to zero by the caller) and the state.\<close>

definition check_tick_counter :: "'a machine_scheme \<Rightarrow> obc_status \<times> u64 \<times> u64 \<times> 'a machine_scheme" where
  "check_tick_counter s =
     (case obc_mtime_read (Some 0) s of
        (st, t, s1) \<Rightarrow>
          if st \<noteq> OBC_OK then (st, 0, 0, s1)
          else tick_loop (unat TICK_CHECK_READS) (the t) (the t) 0 s1)"

definition tick_verdict :: "obc_status \<Rightarrow> string" where
  "tick_verdict st =
     (case st of OBC_OK \<Rightarrow> ''ok, max delta ''
      | OBC_ERR_INVALID \<Rightarrow> ''FAULT went backwards by ''
      | OBC_ERR_UNSTABLE \<Rightarrow> ''FAULT implausible jump of ''
      | OBC_ERR_TIMEOUT \<Rightarrow> ''FAULT unreadable, code '')"

definition print_tick_check :: "'a machine_scheme \<Rightarrow> obc_status \<times> 'a machine_scheme" where
  "print_tick_check s =
     (case check_tick_counter s of
        (st, max_delta, span, s1) \<Rightarrow>
          and_then (chain [puts ''tick   : '', puts (tick_verdict st),
                 print_hex (ucast (drop_bit 32 max_delta)), puts '':'', print_hex (ucast max_delta),
                 puts ('' ticks'' @ crlf), puts ''reads  : '', print_u32 TICK_CHECK_READS,
                 puts '' covering '', print_u32 (ucast span), puts ('' ticks'' @ crlf)] (OBC_OK, s1))
            (\<lambda>s2. (st, s2)))"

section \<open>The banner\<close>

text \<open>The paint still standing from the bottom is what the stack never reached.\<close>

definition stack_high_water :: "image \<Rightarrow> u32" where
  "stack_high_water im =
     stack_top im - (stack_bottom im + 4 * of_nat (length (takeWhile (\<lambda>w. w = STACK_PAINT) (stack_words im))))"

definition print_stack_usage :: "image \<Rightarrow> 'a machine_scheme \<Rightarrow> obc_status \<times> 'a machine_scheme" where
  "print_stack_usage im s =
     chain [puts ''stack  : '', print_u32 (stack_high_water im), puts '' B peak of '',
            print_u32 (stack_top im - stack_bottom im), puts ('' B reserved'' @ crlf)] (OBC_OK, s)"

definition print_ram_usage :: "image \<Rightarrow> 'a machine_scheme \<Rightarrow> obc_status \<times> 'a machine_scheme" where
  "print_ram_usage im s =
     chain [puts ''ram    : '', print_u32 (stack_top im - data_start im), puts ('' B of 16384 B'' @ crlf)] (OBC_OK, s)"

definition print_reset_cause :: "'a mode_state_scheme \<Rightarrow> obc_status \<times> 'a mode_state_scheme" where
  "print_reset_cause s =
     (case obc_fault_validate (Some OBC_RESET_UNKNOWN) (obc_fault_record s) of
        (v, out) \<Rightarrow>
          and_then (puts ''reset  : '' s) (\<lambda>s1.
            if v = OBC_ERR_INVALID then puts (''none recorded (cold boot or torn write)'' @ crlf) s1
            else if v = OBC_ERR_UNSTABLE then puts (''RECORD CORRUPT: magic valid, checksum wrong'' @ crlf) s1
            else if the out = OBC_RESET_DOUBLE_FAULT
            then puts (''DOUBLE FAULT (no detail recorded, by design)'' @ crlf) s1
            else if the out = OBC_RESET_REQUESTED
            then puts (''requested (watchdog, nothing was wrong)'' @ crlf) s1
            else (let r = obc_fault_record s1
                  in chain [puts ''trap mcause='', print_hex (fr_cause r),
                       puts (if obc_mcause_is_interrupt (fr_cause r) then '' (interrupt '' else '' (exception ''),
                       print_u32 (obc_mcause_code (fr_cause r)), puts '') epc='', print_hex (fr_epc r),
                       puts '' tval='', print_hex (fr_tval r), puts crlf] (OBC_OK, s1))))"

definition print_mscratch_invariant :: "image \<Rightarrow> 'a machine_scheme \<Rightarrow> obc_status \<times> 'a machine_scheme" where
  "print_mscratch_invariant im s =
     and_then (chain [puts ''mscratch: '', print_hex (mscratch im)] (OBC_OK, s)) (\<lambda>s1.
       if mscratch im = fault_record_addr im then puts ('' ok'' @ crlf) s1
       else and_then (chain [puts '' FAULT expected '', print_hex (fault_record_addr im), puts crlf] (OBC_OK, s1))
              (\<lambda>s2. (OBC_ERR_INVALID, s2)))"

section \<open>The executive's outcome\<close>

definition print_task :: "nat \<Rightarrow> tasks_state \<Rightarrow> obc_status \<times> tasks_state" where
  "print_task i s =
     (let task = (obc_task_table :: tasks_state obc_task list) ! i; ts = obc_task_state s ! i
      in chain [puts ''  task '', puts (task_name task), puts '' runs='', print_u32 (ts_runs ts), puts '' max='',
           print_u32 (ts_max_instr ts), puts ''/'', print_u32 (budget_instr task), puts '' over='',
           print_u32 (ts_overruns ts), puts crlf] (OBC_OK, s))"

definition print_sched_summary :: "obc_status \<Rightarrow> tasks_state \<Rightarrow> obc_status \<times> tasks_state" where
  "print_sched_summary run_status s =
     (case obc_mode_is_safe s of
        (safe, s1) \<Rightarrow>
          and_then (puts (if safe then ''sched  : SAFE '' else ''sched  : '') s1) (\<lambda>s2.
            if run_status \<noteq> OBC_OK
            then (run_status, say (''FAULT executive returned an error'' @ crlf) s2)
            else and_then (chain [print_u32 (obc_frames_run s2), puts '' frames, '', print_u32 (obc_trace_len s2),
                     puts '' dispatches, min slack '', print_u32 (obc_slack_ticks_min s2), puts ('' ticks'' @ crlf)] (OBC_OK, s2))
              (\<lambda>s3. and_then (chain (map print_task [0..<obc_task_count]) (OBC_OK, s3)) (\<lambda>s4.
                if obc_trace_overflow s4 \<noteq> 0
                then (OBC_ERR_INVALID, say (''  TRACE OVERFLOW, the window is larger than the buffer'' @ crlf) s4)
                else if obc_frame_overruns s4 \<noteq> 0
                then (OBC_ERR_UNSTABLE, say (''  FRAME OVERRUN'' @ crlf) s4)
                else (OBC_OK, s4)))))"

section \<open>The boot\<close>

text \<open>The banner, up to the reset cause: the status, the verdict on \<open>mscratch\<close>, the state.\<close>

definition boot_banner :: "image \<Rightarrow> tasks_state \<Rightarrow> obc_status \<times> obc_status \<times> tasks_state" where
  "boot_banner im s =
     (case chain [puts (crlf @ ''=== OBC-Zero ==='' @ crlf), puts ''build  : '', puts (build_hash im), puts crlf,
             puts (''board  : sifive_e'' @ crlf), puts ''entry  : '', print_hex (main_addr im), puts crlf,
             print_ram_usage im, print_stack_usage im] (OBC_OK, s) of
        (st, s1) \<Rightarrow>
          (case print_mscratch_invariant im s1 of
             (inv_st, s2) \<Rightarrow> (case chain [print_reset_cause] (st, s2) of (st', s3) \<Rightarrow> (st', inv_st, s3))))"

text \<open>The mode, decided before the record that explains it is consumed.\<close>

definition boot_restore :: "tasks_state \<Rightarrow> tasks_state" where
  "boot_restore s =
     (let previous = the (snd (obc_fault_validate (Some OBC_RESET_UNKNOWN) (obc_fault_record s)));
          s1 = obc_mode_restore previous (s\<lparr>obc_reset_cause_previous := previous\<rparr>)
      in s1\<lparr>obc_fault_record := obc_fault_consume (obc_fault_record s1)\<rparr>)"

definition boot_tlm :: "obc_status \<times> tasks_state \<Rightarrow> obc_status \<times> tasks_state" where
  "boot_tlm r =
     (case r of (st, s) \<Rightarrow>
        (case obc_tlm_init obc_tlm_fields s of
           (tlm_st, s1) \<Rightarrow>
             if tlm_st \<noteq> OBC_OK
             then (case chain [puts (''tlm    : LAYOUT AUDIT FAILED, not emitting'' @ crlf)] (st, s1) of
                     (st', s2) \<Rightarrow> (st', obc_mode_enter_safe OBC_SAFE_TELEMETRY s2))
             else chain [puts ''tlm    : layout ok, frame '', print_u32 (of_nat OBC_TLM_FRAME_LEN),
                    puts ('' bytes'' @ crlf)] (st, s1)))"

definition boot_cmd :: "obc_status \<times> tasks_state \<Rightarrow> obc_status \<times> tasks_state" where
  "boot_cmd r =
     (case r of (st, s) \<Rightarrow>
        (case obc_cmd_init obc_cmd_fields obc_cmd_table s of
           (cmd_st, s1) \<Rightarrow>
             chain [puts (if cmd_st = OBC_OK then ''cmd    : table ok, frame ''
                      else ''cmd    : TABLE AUDIT FAILED, not ingesting, frame ''),
                    print_u32 (of_nat OBC_CMD_FRAME_LEN), puts ('' bytes'' @ crlf)] (st, s1)))"

text \<open>Everything before the executive: the status of the console, the two verdicts and the
  state, or a reset.\<close>

definition boot_prepare :: "image \<Rightarrow> tasks_state \<Rightarrow> (obc_status \<times> obc_status \<times> obc_status) flow \<times> tasks_state" where
  "boot_prepare im s =
     (case obc_recover_boot_begins (s\<lparr>hw := obc_uart_init (hw s)\<rparr>) of
        (boot_rung, s1) \<Rightarrow>
          (case boot_banner im s1 of
             (st, inv_st, s2) \<Rightarrow>
               (let s3 = boot_restore s2
                in case chain [puts ''boots  : '', print_u32 (obc_recover_short_boots s3),
                          puts ('' consecutive short'' @ crlf)] (st, s3) of
                     (st1, s4) \<Rightarrow>
                       (case (if boot_rung = OBC_RUNG_RESET_MACHINE
                              then obc_recover_escalate obc_task_table OBC_RUNG_RESET_MACHINE 0 0 s4
                              else (Ret (), s4)) of
                          (Reset, s5) \<Rightarrow> (Reset, s5)
                        | (Ret _, s5) \<Rightarrow>
                            (case boot_cmd (boot_tlm (st1, s5)) of
                               (st2, s6) \<Rightarrow>
                                 (case and_then (print_tick_check s6) print_timebase_check of
                                    (tick_st, s7) \<Rightarrow> (Ret (st2, tick_st, inv_st), s7)))))))"

text \<open>The console's status is the gate of the executive.\<close>

definition boot_run :: "obc_status \<Rightarrow> obc_status \<Rightarrow> tasks_state \<Rightarrow> obc_status flow \<times> tasks_state" where
  "boot_run st tick_st s =
     (if st = OBC_OK \<and> tick_st = OBC_OK
      then (case obc_sched_run obc_task_table OBC_SCHED_WINDOW_FRAMES s of
              (Reset, s1) \<Rightarrow> (Reset, s1)
            | (Ret sch, s1) \<Rightarrow> (case print_sched_summary sch s1 of (st', s2) \<Rightarrow> (Ret st', s2)))
      else (Ret st, s))"

text \<open>\<^verbatim>\<open>obc_main\<close>, up to the endless park: the verdict it announces, or a reset on the way.\<close>

definition obc_main :: "image \<Rightarrow> tasks_state \<Rightarrow> bool flow \<times> tasks_state" where
  "obc_main im s =
     (case boot_prepare im s of
        (Reset, s1) \<Rightarrow> (Reset, s1)
      | (Ret (st, tick_st, inv_st), s1) \<Rightarrow>
          (case boot_run st tick_st s1 of
             (Reset, s2) \<Rightarrow> (Reset, s2)
           | (Ret st', s2) \<Rightarrow>
               (let s3 = snd (obc_recover_boot_is_healthy (obc_frames_run s2) s2);
                    ok = (st' = OBC_OK \<and> tick_st = OBC_OK \<and> inv_st = OBC_OK)
                in (Ret ok, say ((if ok then ''boot   : ok'' else ''boot   : FAULT'') @ crlf) s3))))"

section \<open>What the checks and the banner leave alone\<close>

text \<open>A call that only uses the bus and counts failed clock reads.\<close>

definition bus_only :: "'a machine_scheme \<Rightarrow> 'a machine_scheme \<Rightarrow> bool" where
  "bus_only s t \<longleftrightarrow> t = s\<lparr>hw := hw t, s_unstable_count := s_unstable_count t\<rparr>"

lemma bus_only_refl [simp]: "bus_only s s"
  by (simp add: bus_only_def)

lemma bus_only_trans: "bus_only s t \<Longrightarrow> bus_only t u \<Longrightarrow> bus_only s u"
  unfolding bus_only_def by (metis machine.update_convs machine.surjective)

lemma bus_only_hw [simp]:
  "bus_only s (t\<lparr>hw := h\<rparr>) = bus_only s t" "bus_only s (t\<lparr>s_unstable_count := c\<rparr>) = bus_only s t"
  "bus_only s (on_hw f t) = bus_only s t"
proof -
  show "bus_only s (t\<lparr>hw := h\<rparr>) = bus_only s t" for h
    unfolding bus_only_def
    by (cases s; cases t) simp
  then show "bus_only s (on_hw f t) = bus_only s t" by (simp add: on_hw_def)
  show "bus_only s (t\<lparr>s_unstable_count := c\<rparr>) = bus_only s t"
    unfolding bus_only_def by (cases s; cases t) simp
qed

definition io_only :: "('a machine_scheme \<Rightarrow> obc_status \<times> 'a machine_scheme) \<Rightarrow> bool" where
  "io_only f \<longleftrightarrow> (\<forall>s. bus_only s (snd (f s)))"

named_theorems io_calls \<open>calls that only use the bus\<close>

lemma io_console [io_calls]: "io_only (console f)"
  by (auto simp: io_only_def console_def split: prod.splits)

lemma io_pair [io_calls]: "(\<And>s. bus_only s (g s)) \<Longrightarrow> io_only (\<lambda>s. (st, g s))"
  by (simp add: io_only_def)

lemma io_if [io_calls]: "io_only f \<Longrightarrow> io_only g \<Longrightarrow> io_only (\<lambda>s. if b then f s else g s)"
  by (simp add: io_only_def)

lemma bus_and_then: "bus_only s (snd r) \<Longrightarrow> io_only g \<Longrightarrow> bus_only s (snd (and_then r g))"
  by (cases r) (auto simp: and_then_def io_only_def intro: bus_only_trans)

lemma io_and_then [io_calls]: "io_only f \<Longrightarrow> io_only g \<Longrightarrow> io_only (\<lambda>s. and_then (f s) g)"
  by (simp add: io_only_def [of "\<lambda>s. and_then (f s) g"] io_only_def [of f] bus_and_then)

lemma chain_simps [simp]: "chain [] r = r" "chain (f # fs) r = chain fs (and_then r f)"
  by (simp_all add: chain_def)

lemma bus_chain: "\<forall>f \<in> set fs. io_only f \<Longrightarrow> bus_only s (snd r) \<Longrightarrow> bus_only s (snd (chain fs r))"
  by (induction fs arbitrary: r) (simp_all add: bus_and_then)

lemma io_chain [io_calls]: "\<forall>f \<in> set fs. io_only f \<Longrightarrow> io_only (\<lambda>s. chain fs (st, s))"
  by (simp add: io_only_def [of "\<lambda>s. chain fs (st, s)"] bus_chain)

lemma bus_mtime: "obc_mtime_read (Some x) s = (st, out, s1) \<Longrightarrow> bus_only s s1"
  by (auto simp: obc_mtime_read_def split: prod.splits option.splits)

lemma measure_loop_bus: "bus_only s (snd (snd (measure_loop t0 i0 guard s)))"
proof (induction t0 i0 guard s rule: measure_loop.induct)
  case (1 t0 i0 guard s)
  obtain st now s1 where m: "obc_mtime_read (Some 0) s = (st, now, s1)" by (metis prod_cases3)
  obtain i1 h1 where i: "read_minstret (hw s1) = (i1, h1)" by fastforce
  note b = bus_mtime [OF m]
  have ih: "guard < TIMEBASE_CHECK_TICKS * 4096 \<Longrightarrow> st = OBC_OK \<Longrightarrow>
      \<not> TIMEBASE_CHECK_TICKS \<le> (ucast (the now - t0) :: u32) \<Longrightarrow>
      bus_only s (snd (snd (measure_loop t0 i0 (guard + 1) s1)))"
    using "1.IH" [OF _ m [symmetric] refl] bus_only_trans [OF b] by simp
  show ?case using m i b ih by (subst measure_loop.simps) (simp add: Let_def)
qed

lemma tick_loop_bus: "bus_only s (snd (snd (snd (tick_loop n first previous d s))))"
proof (induction n arbitrary: previous d s)
  case 0
  then show ?case by simp
next
  case (Suc n)
  obtain st now s1 where m: "obc_mtime_read (Some 0) s = (st, now, s1)" by (metis prod_cases3)
  show ?case using bus_mtime [OF m] bus_only_trans [OF bus_mtime [OF m] Suc] m by (simp add: Let_def)
qed

lemma check_tick_bus: "bus_only s (snd (snd (snd (check_tick_counter s))))"
proof -
  obtain st t s1 where m: "obc_mtime_read (Some 0) s = (st, t, s1)" by (metis prod_cases3)
  show ?thesis
    using bus_mtime [OF m] bus_only_trans [OF bus_mtime [OF m] tick_loop_bus] m by (simp add: check_tick_counter_def)
qed

lemma measure_bus: "bus_only s (snd (snd (measure_instr_per_tick s)))"
proof -
  obtain st t0 s1 where m: "obc_mtime_read (Some 0) s = (st, t0, s1)" by (metis prod_cases3)
  obtain i0 h where i: "read_minstret (hw s1) = (i0, h)" by fastforce
  have "bus_only s (s1\<lparr>hw := h\<rparr>)" using bus_mtime [OF m] by simp
  from bus_only_trans [OF this measure_loop_bus] show ?thesis
    using bus_mtime [OF m] m i by (simp add: measure_instr_per_tick_def)
qed

lemma tick_io [io_calls]: "io_only print_tick_check"
  unfolding io_only_def
proof
  fix s :: "'a machine_scheme"
  obtain st d sp s1 where c: "check_tick_counter s = (st, d, sp, s1)" by (metis prod_cases4)
  have "bus_only s s1" using check_tick_bus [of s] c by simp
  then show "bus_only s (snd (print_tick_check s))"
    unfolding print_tick_check_def c prod.case
    by (intro bus_and_then bus_chain io_pair ballI) (auto intro: io_calls)
qed

lemma timebase_io [io_calls]: "io_only print_timebase_check"
  unfolding io_only_def
proof
  fix s :: "'a machine_scheme"
  obtain st out s1 where m: "measure_instr_per_tick s = (st, out, s1)" by (metis prod_cases3)
  have b: "bus_only s s1" using measure_bus [of s] m by simp
  have "bus_only s (snd (puts ''base   : '' s1))"
    using b bus_only_trans [OF b] io_console unfolding io_only_def by blast
  then show "bus_only s (snd (print_timebase_check s))"
    unfolding print_timebase_check_def m prod.case Let_def
    by (intro bus_and_then io_if io_pair io_and_then io_chain io_console ballI) (auto intro: io_calls)
qed

lemma banner_io [io_calls]:
  "io_only (print_stack_usage im)" "io_only (print_ram_usage im)" "io_only (print_mscratch_invariant im)"
  unfolding print_stack_usage_def print_ram_usage_def print_mscratch_invariant_def
  by (intro io_chain io_and_then io_if io_pair io_console ballI; auto intro: io_calls)+

lemma reset_cause_io [io_calls]: "io_only print_reset_cause"
  unfolding io_only_def
proof
  fix s :: "'a mode_state_scheme"
  obtain v out where v: "obc_fault_validate (Some OBC_RESET_UNKNOWN) (obc_fault_record s) = (v, out)" by fastforce
  have c: "bus_only s (snd (console f s))" for f
    by (rule io_console [unfolded io_only_def, rule_format])
  have d: "io_only (\<lambda>s1 :: 'a mode_state_scheme. (let r = obc_fault_record s1
                  in chain [puts ''trap mcause='', print_hex (fr_cause r),
                       puts (if obc_mcause_is_interrupt (fr_cause r) then '' (interrupt '' else '' (exception ''),
                       print_u32 (obc_mcause_code (fr_cause r)), puts '') epc='', print_hex (fr_epc r),
                       puts '' tval='', print_hex (fr_tval r), puts crlf] (OBC_OK, s1)))"
    unfolding io_only_def Let_def by (intro allI bus_chain ballI) (auto intro: io_calls)
  show "bus_only s (snd (print_reset_cause s))"
    unfolding print_reset_cause_def v prod.case
    by (intro bus_and_then c io_if io_console d)
qed

section \<open>What a boot decides\<close>

lemma bus_only_outside:
  fixes s t :: tasks_state
  assumes "bus_only s t"
  shows "outside_cmd t = outside_cmd s" "obc_mode_record t = obc_mode_record s"
    "obc_fault_record t = obc_fault_record s" "obc_boot_record t = obc_boot_record s"
proof -
  note e = assms [unfolded bus_only_def]
  show "outside_cmd t = outside_cmd s" using arg_cong [OF e, of outside_cmd] by simp
  show "obc_mode_record t = obc_mode_record s" using arg_cong [OF e, of obc_mode_record] by simp
  show "obc_fault_record t = obc_fault_record s" using arg_cong [OF e, of obc_fault_record] by simp
  show "obc_boot_record t = obc_boot_record s" using arg_cong [OF e, of obc_boot_record] by simp
qed

lemma outside_init [simp]:
  "outside_cmd (snd (obc_tlm_init layout s)) = outside_cmd s"
  "outside_cmd (snd (obc_cmd_init rows table s)) = outside_cmd s"
  by (simp_all add: obc_tlm_init_def obc_cmd_init_def outside_cmd_def kept_def quiet_def)

lemma outside_say [simp]: "outside_cmd (say text s) = outside_cmd s"
  by (simp add: on_hw_def)

lemma boot_banner_bus:
  assumes "boot_banner im s = (st, inv_st, s')"
  shows "bus_only s s'"
proof -
  obtain st1 s1 where c: "chain [puts (crlf @ ''=== OBC-Zero ==='' @ crlf), puts ''build  : '', puts (build_hash im), puts crlf,
             puts (''board  : sifive_e'' @ crlf), puts ''entry  : '', print_hex (main_addr im), puts crlf,
             print_ram_usage im, print_stack_usage im] (OBC_OK, s) = (st1, s1)" by fastforce
  have "bus_only s (snd (st1, s1))"
    unfolding c [symmetric] by (rule bus_chain) (simp_all add: io_calls)
  moreover obtain inv s2 where i: "print_mscratch_invariant im s1 = (inv, s2)" by fastforce
  moreover have "bus_only s1 s2" using banner_io(3) [of im] i unfolding io_only_def by (metis snd_conv)
  moreover obtain st3 s3 where r: "chain [print_reset_cause] (st1, s2) = (st3, s3)" by fastforce
  moreover have "bus_only s2 (snd (chain [print_reset_cause] (st1, s2)))"
    by (rule bus_chain) (simp_all add: io_calls)
  moreover have "s' = s3" using assms unfolding boot_banner_def c prod.case i r by simp
  ultimately show ?thesis using bus_only_trans by (metis snd_conv)
qed

text \<open>The evidence that makes a boot come up degraded.\<close>

definition boot_evidence :: "tasks_state \<Rightarrow> bool" where
  "boot_evidence s \<longleftrightarrow>
     the (snd (obc_fault_validate (Some OBC_RESET_UNKNOWN) (obc_fault_record s))) \<in> {OBC_RESET_TRAP, OBC_RESET_DOUBLE_FAULT} \<or>
     mode_intact (obc_mode_record s) \<or> OBC_SHORT_BOOT_LIMIT \<le> boots_counted (obc_boot_record s)"

definition faults :: "'a sched_state_scheme \<Rightarrow> u32 \<times> u32" where
  "faults s = (obc_trace_overflow s, obc_frame_overruns s)"

lemma faults_enter_safe [simp]: "faults (obc_mode_enter_safe r s) = faults s"
  by (simp add: obc_mode_enter_safe_def faults_def Let_def on_hw_def)

lemma faults_outside: "outside_cmd t = outside_cmd s \<Longrightarrow> faults t = faults s"
  using outside_faults(1) [of t s] by (simp add: faults_def)

lemma boot_restore_keeps:
  "kept (boot_restore s) = kept s" "quiet (boot_restore s) = quiet s" "obc_boot_record (boot_restore s) = obc_boot_record s"
  "faults (boot_restore s) = faults s"
proof -
  have "kept (obc_mode_restore c t) = kept t" "quiet (obc_mode_restore c t) = quiet t"
    "obc_boot_record (obc_mode_restore c t) = obc_boot_record t" "faults (obc_mode_restore c t) = faults t"
    for c and t :: tasks_state
    by (simp_all add: obc_mode_restore_def Let_def) (simp_all add: kept_def quiet_def faults_def)
  then show "kept (boot_restore s) = kept s" "quiet (boot_restore s) = quiet s"
    "obc_boot_record (boot_restore s) = obc_boot_record s" "faults (boot_restore s) = faults s"
    by (simp_all add: boot_restore_def Let_def) (simp_all add: kept_def quiet_def faults_def)
qed

lemma restore_mode:
  assumes "critical_good (crit s)"
  shows "c = OBC_RESET_TRAP \<or> c = OBC_RESET_DOUBLE_FAULT \<or> mode_intact (obc_mode_record s) \<Longrightarrow> degraded (obc_mode_restore c s)"
    "\<not> (c = OBC_RESET_TRAP \<or> c = OBC_RESET_DOUBLE_FAULT \<or> mode_intact (obc_mode_record s)) \<Longrightarrow> nominal (obc_mode_restore c s)"
proof -
  let ?s1 = "s\<lparr>crit := obc_critical_set (Some obc_critical_mode) OBC_MODE_NOMINAL (crit s),
            obc_mode := OBC_MODE_NOMINAL, obc_safe_reason := OBC_SAFE_NONE, s_announced := 0\<rparr>"
  have n: "nominal ?s1"
    using mode_word.put_good [OF assms] mode_word.put_says [OF assms] by (simp add: nominal_def)
  show "c = OBC_RESET_TRAP \<or> c = OBC_RESET_DOUBLE_FAULT \<or> mode_intact (obc_mode_record s) \<Longrightarrow> degraded (obc_mode_restore c s)"
    using nominal_enter_safe [OF n] by (auto simp: obc_mode_restore_def Let_def)
  show "\<not> (c = OBC_RESET_TRAP \<or> c = OBC_RESET_DOUBLE_FAULT \<or> mode_intact (obc_mode_record s)) \<Longrightarrow> nominal (obc_mode_restore c s)"
    using n by (auto simp: obc_mode_restore_def Let_def)
qed

lemma boot_restore_mode:
  fixes s :: tasks_state
  assumes "critical_good (crit s)"
  defines "c \<equiv> the (snd (obc_fault_validate (Some OBC_RESET_UNKNOWN) (obc_fault_record s)))"
  shows "c \<in> {OBC_RESET_TRAP, OBC_RESET_DOUBLE_FAULT} \<or> mode_intact (obc_mode_record s) \<Longrightarrow> degraded (boot_restore s)"
    "\<not> (c \<in> {OBC_RESET_TRAP, OBC_RESET_DOUBLE_FAULT} \<or> mode_intact (obc_mode_record s)) \<Longrightarrow> nominal (boot_restore s)"
proof -
  have e: "nominal (s1\<lparr>obc_fault_record := r\<rparr>) = nominal s1" "degraded (s1\<lparr>obc_fault_record := r\<rparr>) = degraded s1"
    for s1 :: tasks_state and r by (simp_all add: nominal_def degraded_def)
  have "critical_good (crit (s\<lparr>obc_reset_cause_previous := c\<rparr>))" using assms(1) by simp
  note m = restore_mode [OF this, of c]
  show "c \<in> {OBC_RESET_TRAP, OBC_RESET_DOUBLE_FAULT} \<or> mode_intact (obc_mode_record s) \<Longrightarrow> degraded (boot_restore s)"
    "\<not> (c \<in> {OBC_RESET_TRAP, OBC_RESET_DOUBLE_FAULT} \<or> mode_intact (obc_mode_record s)) \<Longrightarrow> nominal (boot_restore s)"
    using m by (auto simp: boot_restore_def Let_def e c_def [symmetric])
qed

lemma bus_chain_outside:
  fixes s :: tasks_state
  assumes "chain fs (st, s) = (st', s')" and "\<forall>f \<in> set fs. io_only f"
  shows "outside_cmd s' = outside_cmd s" "obc_boot_record s' = obc_boot_record s"
proof -
  have "bus_only s (snd (chain fs (st, s)))" by (rule bus_chain [OF assms(2)]) simp
  then have "bus_only s s'" by (simp add: assms(1))
  then show "outside_cmd s' = outside_cmd s" "obc_boot_record s' = obc_boot_record s"
    by (rule bus_only_outside)+
qed

lemma boot_tables_outside:
  assumes "boot_cmd (boot_tlm (st, s)) = (st', s')"
  shows "outside_cmd s' = outside_cmd s"
proof -
  obtain st1 s1 where t: "boot_tlm (st, s) = (st1, s1)" by fastforce
  have "outside_cmd s1 = outside_cmd (snd (obc_tlm_init obc_tlm_fields s))"
    using t bus_chain_outside(1) [where fs = "[puts ''tlm    : layout ok, frame '', print_u32 (of_nat OBC_TLM_FRAME_LEN), puts ('' bytes'' @ crlf)]"]
    by (auto simp: boot_tlm_def io_calls simp del: chain_simps)
  moreover obtain cs s2 where c: "obc_cmd_init obc_cmd_fields obc_cmd_table s1 = (cs, s2)" by fastforce
  moreover have "outside_cmd s' = outside_cmd s2"
    using assms unfolding t boot_cmd_def prod.case c
    by (rule bus_chain_outside(1)) (simp add: io_calls)
  moreover have "outside_cmd s2 = outside_cmd s1"
    using outside_init(2) [of obc_cmd_fields obc_cmd_table s1] c by simp
  ultimately show ?thesis by (simp del: init_flight)
qed

lemma boot_begins_effect:
  fixes s :: tasks_state
  assumes "obc_recover_boot_begins s = (rung, s')"
  shows "outside_cmd s' = outside_cmd s" "obc_mode_record s' = obc_mode_record s" "obc_fault_record s' = obc_fault_record s"
    "obc_recover_short_boots s' = boots_counted (obc_boot_record s)"
    "rung = OBC_RUNG_RESET_MACHINE \<longleftrightarrow> OBC_SHORT_BOOT_LIMIT \<le> boots_counted (obc_boot_record s)"
proof -
  have "OBC_RUNG_NONE \<noteq> OBC_RUNG_RESET_MACHINE" by (simp add: OBC_RUNG_NONE_def OBC_RUNG_RESET_MACHINE_def)
  moreover have "s' = boot_record_write (boots_counted (obc_boot_record s)) 1 s"
    "rung = (if OBC_SHORT_BOOT_LIMIT \<le> boots_counted (obc_boot_record s) then OBC_RUNG_RESET_MACHINE else OBC_RUNG_NONE)"
    using assms by (auto simp: obc_recover_boot_begins_def Let_def)
  ultimately show "outside_cmd s' = outside_cmd s" "obc_mode_record s' = obc_mode_record s" "obc_fault_record s' = obc_fault_record s"
    "obc_recover_short_boots s' = boots_counted (obc_boot_record s)"
    "rung = OBC_RUNG_RESET_MACHINE \<longleftrightarrow> OBC_SHORT_BOOT_LIMIT \<le> boots_counted (obc_boot_record s)"
    by (simp_all add: boot_record_write_def obc_recover_short_boots_def outside_cmd_def kept_def quiet_def)
qed

text \<open>Preparing never resets the machine, leaves the trace alone, and settles the mode by the evidence.\<close>

lemma boot_prepare_effect:
  fixes s :: tasks_state
  assumes "boot_prepare im s = (fl, s')" and "critical_good (crit s)"
  shows "fl \<noteq> Reset" "kept s' = kept s" "quiet s' = quiet s" "faults s' = faults s"
    "boot_evidence s \<Longrightarrow> degraded s'" "\<not> boot_evidence s \<Longrightarrow> nominal s'"
proof -
  let ?s0 = "s\<lparr>hw := obc_uart_init (hw s)\<rparr>" and ?c = "boots_counted (obc_boot_record s)"
  obtain rung s1 where b: "obc_recover_boot_begins ?s0 = (rung, s1)" by fastforce
  note e1 = boot_begins_effect [OF b]
  obtain st inv_st s2 where n: "boot_banner im s1 = (st, inv_st, s2)" by (metis prod_cases3)
  note e2 = bus_only_outside [OF boot_banner_bus [OF n]]
  have o2: "outside_cmd s2 = outside_cmd s" using e1(1) e2(1) by simp
  have r2: "obc_mode_record s2 = obc_mode_record s" "obc_fault_record s2 = obc_fault_record s" using e1 e2 by simp_all
  have g2: "critical_good (crit s2)" using o2 assms(2) by (simp add: outside_cmd_def)
  let ?s3 = "boot_restore s2"
  note m3 = boot_restore_mode [OF g2, unfolded r2] and k3 = boot_restore_keeps [of s2]
  have short: "obc_recover_short_boots t = ?c" if "obc_boot_record t = obc_boot_record ?s3" for t :: tasks_state
    using that e1(4) e2(4) k3(3) by (auto simp: obc_recover_short_boots_def split: if_splits)
  obtain st1 s4 where c4: "chain [puts ''boots  : '', print_u32 (obc_recover_short_boots ?s3),
                          puts ('' consecutive short'' @ crlf)] (st, ?s3) = (st1, s4)" by fastforce
  have e4: "outside_cmd s4 = outside_cmd ?s3" "obc_boot_record s4 = obc_boot_record ?s3"
    using bus_chain_outside [OF c4] by (simp_all add: io_calls)
  note n4 = outside_nominal [OF e4(1)]
  define s5 where "s5 = (if rung = OBC_RUNG_RESET_MACHINE then obc_mode_enter_safe OBC_SAFE_RESET_LOOP s4 else s4)"
  have esc: "(if rung = OBC_RUNG_RESET_MACHINE then obc_recover_escalate obc_task_table OBC_RUNG_RESET_MACHINE 0 0 s4
       else (Ret (), s4)) = (Ret (), s5)"
    using e1(5) short [OF e4(2)] by (auto simp: s5_def obc_recover_escalate_def)
  have d5: "degraded ?s3 \<or> rung = OBC_RUNG_RESET_MACHINE \<Longrightarrow> degraded s5"
    "nominal ?s3 \<Longrightarrow> rung \<noteq> OBC_RUNG_RESET_MACHINE \<Longrightarrow> nominal s5" "kept s5 = kept s4" "quiet s5 = quiet s4"
    "faults s5 = faults s4"
    using n4 m3 nominal_enter_safe [of s4] degraded_enter_safe [of s4] by (auto simp: s5_def)
  obtain st2 s6 where t: "boot_cmd (boot_tlm (st1, s5)) = (st2, s6)" by fastforce
  obtain tick_st s7 where k: "and_then (print_tick_check s6) print_timebase_check = (tick_st, s7)" by fastforce
  have "io_only (\<lambda>s :: tasks_state. and_then (print_tick_check s) print_timebase_check)" by (simp add: io_calls)
  then have "bus_only s6 s7" using k unfolding io_only_def by (metis snd_conv)
  then have o7: "outside_cmd s7 = outside_cmd s5" using bus_only_outside(1) boot_tables_outside [OF t] by simp
  note n7 = outside_nominal [OF o7]
  have r: "fl = Ret (st2, tick_st, inv_st)" "s' = s7"
    using assms(1) unfolding boot_prepare_def b prod.case n Let_def c4 esc flow.case t k by simp_all
  have o3: "kept ?s3 = kept s" "quiet ?s3 = quiet s" using k3 outside_nominal [OF o2] by simp_all
  show "fl \<noteq> Reset" using r by simp
  show "kept s' = kept s" "quiet s' = quiet s" using r n7 d5 n4 o3 by simp_all
  show "faults s' = faults s"
    using r(2) faults_outside [OF o7] d5(5) faults_outside [OF e4(1)] k3(4) faults_outside [OF o2] by simp
  show "boot_evidence s \<Longrightarrow> degraded s'" "\<not> boot_evidence s \<Longrightarrow> nominal s'"
    using r n7 d5 m3 e1(5) unfolding boot_evidence_def by auto
qed

lemma print_task_io [io_calls]: "io_only (print_task i)"
  unfolding print_task_def Let_def io_only_def by (intro allI bus_chain ballI) (auto intro: io_calls)

lemma summary_bus: "bus_only (snd (obc_mode_is_safe s)) (snd (print_sched_summary sch s))"
proof -
  obtain safe s1 where m: "obc_mode_is_safe s = (safe, s1)" by fastforce
  have tasks: "io_only (\<lambda>s3 :: tasks_state. and_then (chain (map print_task [0..<obc_task_count]) (OBC_OK, s3)) (\<lambda>s4.
                if obc_trace_overflow s4 \<noteq> 0
                then (OBC_ERR_INVALID, say (''  TRACE OVERFLOW, the window is larger than the buffer'' @ crlf) s4)
                else if obc_frame_overruns s4 \<noteq> 0
                then (OBC_ERR_UNSTABLE, say (''  FRAME OVERRUN'' @ crlf) s4)
                else (OBC_OK, s4)))"
    by (intro io_and_then io_chain) (auto simp: io_calls, auto simp: io_only_def)
  have rest: "io_only (\<lambda>s2 :: tasks_state.
            if sch \<noteq> OBC_OK
            then (sch, say (''FAULT executive returned an error'' @ crlf) s2)
            else and_then (chain [print_u32 (obc_frames_run s2), puts '' frames, '', print_u32 (obc_trace_len s2),
                     puts '' dispatches, min slack '', print_u32 (obc_slack_ticks_min s2), puts ('' ticks'' @ crlf)] (OBC_OK, s2))
              (\<lambda>s3. and_then (chain (map print_task [0..<obc_task_count]) (OBC_OK, s3)) (\<lambda>s4.
                if obc_trace_overflow s4 \<noteq> 0
                then (OBC_ERR_INVALID, say (''  TRACE OVERFLOW, the window is larger than the buffer'' @ crlf) s4)
                else if obc_frame_overruns s4 \<noteq> 0
                then (OBC_ERR_UNSTABLE, say (''  FRAME OVERRUN'' @ crlf) s4)
                else (OBC_OK, s4))))"
    by (rule io_if, rule io_pair, simp, unfold io_only_def, intro allI bus_and_then bus_chain ballI)
       (auto simp: io_calls tasks)
  show ?thesis
    unfolding print_sched_summary_def m prod.case snd_conv
    by (intro bus_and_then rest io_console [unfolded io_only_def, rule_format])
qed

lemma summary_effect:
  assumes "print_sched_summary sch s = (st, s')"
  shows "outside_cmd s' = outside_cmd (snd (obc_mode_is_safe s))"
  using bus_only_outside(1) [OF summary_bus [of s sch]] assms by simp

lemma boot_run_degraded:
  assumes "boot_run st tick_st s = (fl, s')" and "degraded s" and "wf_trace s"
  shows "degraded s' \<and> flight.essentials_after (recorded s) (recorded s')"
proof (cases "st = OBC_OK \<and> tick_st = OBC_OK")
  case False
  then have "s' = s" using assms(1) by (auto simp: boot_run_def)
  then show ?thesis using assms(2) flight.essentials_refl [OF flight.recorded_length] assms(3) by simp
next
  case True
  obtain f1 s1 where r: "obc_sched_run obc_task_table OBC_SCHED_WINDOW_FRAMES s = (f1, s1)" by fastforce
  have d: "degraded s1" "flight.essentials_after (recorded s) (recorded s1)"
    using flight.run_spoiled(1) [OF r assms(2)] flight.run_essential [OF r assms(2,3)] by simp_all
  show ?thesis
  proof (cases f1)
    case Reset
    then show ?thesis using assms(1) True r d by (simp add: boot_run_def)
  next
    case (Ret sch)
    obtain st' s2 where p: "print_sched_summary sch s1 = (st', s2)" by fastforce
    note o = outside_nominal [OF summary_effect [OF p]]
    have "s' = s2" using assms(1) True r Ret p by (simp add: boot_run_def)
    then show ?thesis
      using o d degraded_is_safe [OF d(1)] trace_cong [of s2 s1] by simp
  qed
qed

text \<open>A boot whose evidence speaks against it ends degraded and dispatches essentials only.\<close>

lemma evidence_honoured:
  assumes "obc_main im s = (fl, s')" and "critical_good (crit s)" and "wf_trace s" and "boot_evidence s"
  shows "degraded s' \<and>
    (\<exists>ds. recorded s' = take 256 (recorded s @ map of_nat ds) \<and> set ds \<subseteq> {0, 1, 4})"
proof -
  obtain f1 s1 where p: "boot_prepare im s = (f1, s1)" by fastforce
  note e = boot_prepare_effect [OF p assms(2)]
  obtain st tick_st inv_st where f1: "f1 = Ret (st, tick_st, inv_st)"
    using e(1) by (cases f1) auto
  obtain f2 s2 where r: "boot_run st tick_st s1 = (f2, s2)" by fastforce
  have t1: "recorded s1 = recorded s" "wf_trace s1" using trace_cong [OF e(2)] assms(3) by simp_all
  note d = boot_run_degraded [OF r e(5) [OF assms(4)] t1(2)]
  have "outside_cmd s' = outside_cmd s2"
  proof (cases f2)
    case Reset
    then show ?thesis using assms(1) by (simp add: obc_main_def p f1 r)
  next
    case (Ret st')
    have "outside_cmd (snd (obc_recover_boot_is_healthy n s2)) = outside_cmd s2" for n
      by (simp add: obc_recover_boot_is_healthy_def boot_record_write_def outside_cmd_def kept_def quiet_def)
    then show ?thesis using assms(1) by (auto simp: obc_main_def p f1 r Ret Let_def)
  qed
  note o = outside_nominal [OF this]
  have deg: "degraded s'" using o d by simp
  have "recorded s' = recorded s2" using trace_cong [of s' s2] o by simp
  then obtain ds where ds: "recorded s' = take 256 (recorded s @ map of_nat ds)"
    "\<forall>i \<in> set ds. i < length (obc_task_table :: tasks_state obc_task list) \<and>
       essential ((obc_task_table :: tasks_state obc_task list) ! i) \<noteq> 0"
    using d t1(1) unfolding flight.essentials_after_def by auto
  have "set ds \<subseteq> {0, 1, 4}" using ds(2) flight_essential by blast
  then show ?thesis using ds(1) deg by blast
qed

text \<open>
  C3: the whole boot honours the evidence. If the fault record says a trap or a double fault,
  or the mode record of a degraded system is intact, or the count of short boots has
  reached five, then however the boot continues, whatever the devices answer and whether
  it parks or resets, the system is in safe mode at its end and every task it dispatched
  on the way is an essential one.
\<close>

theorem boot_honours_evidence:
  assumes "obc_main im s = (fl, s')" and "critical_good (crit s)" and "wf_trace s" and "boot_evidence s"
  shows "fst (obc_mode_is_safe s') \<and>
    (\<exists>ds. recorded s' = take 256 (recorded s @ map of_nat ds) \<and> set ds \<subseteq> {0, 1, 4})"
  using evidence_honoured [OF assms] degraded_is_safe by blast

text \<open>A machine that is ready, with the mode record of a degraded boot left behind.\<close>

definition relapsed_tasks :: tasks_state where
  "relapsed_tasks = ready_tasks\<lparr>obc_mode_record := run_stores (mode_stores 2) (obc_mode_record ready_tasks)\<rparr>"

definition flight_image :: image where
  "flight_image = \<lparr>build_hash = ''unknown'', data_start = 0x80000000, stack_bottom = 0x80003000,
     stack_top = 0x80004000, main_addr = 0x20400100, fault_record_addr = 0x80000000,
     stack_words = replicate 900 STACK_PAINT, mscratch = 0x80000000\<rparr>"

theorem boot_honours_evidence_witness:
  "fst (obc_mode_is_safe (snd (obc_main flight_image relapsed_tasks)))"
proof -
  have "critical_good (crit relapsed_tasks)" "wf_trace relapsed_tasks" "boot_evidence relapsed_tasks"
    using ready_tasks_good mode_stores_intact
    by (simp_all add: relapsed_tasks_def nominal_def wf_trace_def boot_evidence_def)
  from boot_honours_evidence [OF surjective_pairing this] show ?thesis by blast
qed

end
