(* ===== verification/Startup.thy ===== *)
theory Startup
  imports BootMain
begin

text \<open>
  The reset entry, \<^verbatim>\<open>flight/boot/start.S\<close>, instruction by instruction: the registers and CSRs
  it names, its program as a list indexed by the program counter, and the addresses the link
  script provides as a function of their symbols. The three loops are shown to end, with the
  memory they leave, and the trap handler is shown to be usable from the moment \<^verbatim>\<open>mtvec\<close> is
  written.
\<close>

section \<open>The machine\<close>

datatype reg = Zero | Gp | Sp | T0 | T1 | T2 | T3

datatype csr = Mscratch | Mtvec | Mie | Mip

datatype linker_symbol =
  Global_pointer | Stack_top | Stack_bottom | Fault_record | Trap_entry
| Data_lma | Data_start | Data_end | Bss_start | Bss_end

text \<open>
  The instructions of the file. \<open>LA\<close> and \<open>LI\<close> are the assembler's pseudo-instructions; a
  branch target is an index into the program. \<open>CALL\<close> passes control to \<^verbatim>\<open>obc_main\<close>, and the
  startup code makes no step until it returns.
\<close>

datatype instr =
  LA reg linker_symbol
| LI reg u32
| CSRW csr reg
| SW reg u32 reg
| LW reg u32 reg
| ADDI reg reg u32
| BGEU reg reg nat
| J nat
| CALL
| WFI

record core =
  pc :: nat
  regs :: "reg \<Rightarrow> u32"
  csrs :: "csr \<Rightarrow> u32"
  ram :: "u32 \<Rightarrow> u32"

definition write_reg :: "reg \<Rightarrow> u32 \<Rightarrow> core \<Rightarrow> core" where
  "write_reg r v c = (if r = Zero then c else c\<lparr>regs := (regs c)(r := v)\<rparr>)"

definition read_reg :: "reg \<Rightarrow> core \<Rightarrow> u32" where
  "read_reg r c = (if r = Zero then 0 else regs c r)"

definition next_pc :: "core \<Rightarrow> core" where
  "next_pc c = c\<lparr>pc := pc c + 1\<rparr>"

fun exec :: "(linker_symbol \<Rightarrow> u32) \<Rightarrow> instr \<Rightarrow> core \<Rightarrow> core" where
  "exec L (LA r s) c = next_pc (write_reg r (L s) c)"
| "exec L (LI r v) c = next_pc (write_reg r v c)"
| "exec L (CSRW k r) c = next_pc (c\<lparr>csrs := (csrs c)(k := read_reg r c)\<rparr>)"
| "exec L (SW r off b) c = next_pc (c\<lparr>ram := (ram c)(read_reg b c + off := read_reg r c)\<rparr>)"
| "exec L (LW r off b) c = next_pc (write_reg r (ram c (read_reg b c + off)) c)"
| "exec L (ADDI r a v) c = next_pc (write_reg r (read_reg a c + v) c)"
| "exec L (BGEU a b target) c = (if read_reg a c \<ge> read_reg b c then c\<lparr>pc := target\<rparr> else next_pc c)"
| "exec L (J target) c = c\<lparr>pc := target\<rparr>"
| "exec L CALL c = c"
| "exec L WFI c = next_pc c"

section \<open>The program\<close>

definition OBC_FR_IN_HANDLER :: u32 where [obc_consts]: "OBC_FR_IN_HANDLER = 24"

definition start_code :: "instr list" where
  "start_code =
     [LA Gp Global_pointer, LA Sp Stack_top,
      LA T0 Fault_record, CSRW Mscratch T0, SW Zero OBC_FR_IN_HANDLER T0,
      LA T0 Trap_entry, CSRW Mtvec T0, CSRW Mie Zero, CSRW Mip Zero,
      LA T0 Data_lma, LA T1 Data_start, LA T2 Data_end,
      BGEU T1 T2 18, LW T3 0 T0, SW T3 0 T1, ADDI T0 T0 4, ADDI T1 T1 4, J 12,
      LA T0 Bss_start, LA T1 Bss_end,
      BGEU T0 T1 24, SW Zero 0 T0, ADDI T0 T0 4, J 20,
      LA T0 Stack_bottom, LA T1 Stack_top, LI T2 0xDEADBEEF,
      BGEU T0 T1 31, SW T2 0 T0, ADDI T0 T0 4, J 27,
      CALL,
      WFI, J 32]"

abbreviation at_call :: nat where "at_call \<equiv> 31"

definition start_step :: "(linker_symbol \<Rightarrow> u32) \<Rightarrow> core \<Rightarrow> core" where
  "start_step L c = exec L (start_code ! pc c) c"

text \<open>
  What \<^verbatim>\<open>emu/sifive_e.ld\<close> promises of the symbols: in this order in the sixteen KiB of RAM, each
  section a whole number of words, the fault record in \<^verbatim>\<open>.noinit\<close> between \<^verbatim>\<open>.bss\<close> and the stack,
  and the image of \<^verbatim>\<open>.data\<close> in flash.
\<close>

definition linked :: "(linker_symbol \<Rightarrow> u32) \<Rightarrow> bool" where
  "linked L \<longleftrightarrow>
     0x80000000 \<le> L Data_start \<and> L Data_start \<le> L Data_end \<and> L Data_end \<le> L Bss_start \<and>
     L Bss_start \<le> L Bss_end \<and> L Bss_end \<le> L Fault_record \<and> L Fault_record \<le> 0x80004000 - 36 \<and>
     L Fault_record + 36 \<le> L Stack_bottom \<and> L Stack_bottom \<le> L Stack_top \<and> L Stack_top \<le> 0x80004000 \<and>
     0x20400000 \<le> L Data_lma \<and> unat (L Data_lma) + unat (L Data_end - L Data_start) \<le> 0x20800000 \<and>
     4 dvd unat (L Data_end - L Data_start) \<and> 4 dvd unat (L Bss_end - L Bss_start) \<and>
     4 dvd unat (L Stack_top - L Stack_bottom)"

definition words_in :: "u32 \<Rightarrow> u32 \<Rightarrow> nat" where
  "words_in lo hi = unat (hi - lo) div 4"

definition cells :: "u32 \<Rightarrow> nat \<Rightarrow> u32 set" where
  "cells a k = (\<lambda>i. a + 4 * of_nat i) ` {..<k}"

section \<open>The loops\<close>

fun fill :: "u32 \<Rightarrow> nat \<Rightarrow> u32 \<Rightarrow> (u32 \<Rightarrow> u32) \<Rightarrow> u32 \<Rightarrow> u32" where
  "fill a 0 v m = m"
| "fill a (Suc k) v m = fill (a + 4) k v (m(a := v))"

fun copy :: "u32 \<Rightarrow> u32 \<Rightarrow> nat \<Rightarrow> (u32 \<Rightarrow> u32) \<Rightarrow> u32 \<Rightarrow> u32" where
  "copy src dst 0 m = m"
| "copy src dst (Suc k) m = copy (src + 4) (dst + 4) k (m(dst := m src))"

lemma cells_Suc: "cells a (Suc k) = insert a (cells (a + 4) k)"
proof -
  have "{..<Suc k} = insert 0 (Suc ` {..<k})" by (auto simp: image_iff less_Suc_eq_0_disj)
  then show ?thesis by (simp add: cells_def image_image algebra_simps)
qed

lemma cells_0 [simp]: "cells a 0 = {}"
  by (simp add: cells_def)

lemma fill_eq: "fill a k v m = (\<lambda>b. if b \<in> cells a k then v else m b)"
  by (induction k arbitrary: a m) (auto simp: cells_Suc)

lemma copy_eq:
  assumes "cells src k \<inter> cells dst k = {}" and "k \<le> 2 ^ 20"
  shows "(\<forall>i < k. copy src dst k m (dst + 4 * of_nat i) = m (src + 4 * of_nat i)) \<and>
    (\<forall>b. b \<notin> cells dst k \<longrightarrow> copy src dst k m b = m b)"
  using assms
proof (induction k arbitrary: src dst m)
  case 0
  then show ?case by simp
next
  case (Suc k)
  let ?m = "m(dst := m src)"
  have d: "cells (src + 4) k \<inter> cells (dst + 4) k = {}" "src \<notin> cells (dst + 4) k" "dst \<notin> cells (src + 4) k"
    using Suc.prems(1) by (auto simp: cells_Suc)
  have new: "dst \<notin> cells (dst + 4) k"
  proof
    assume "dst \<in> cells (dst + 4) k"
    then obtain i where i: "i < k" "dst = dst + 4 + 4 * of_nat i" by (auto simp: cells_def)
    then have "(of_nat (4 + 4 * i) :: u32) = 0" by (simp add: algebra_simps)
    then have "2 ^ 32 dvd 4 + 4 * i" unfolding word_of_nat_eq_0_iff by simp
    then have "2 ^ 32 \<le> 4 + 4 * i" by (rule dvd_imp_le) simp
    then show False using i(1) Suc.prems(2) by simp
  qed
  have "k \<le> 2 ^ 20" using Suc.prems(2) by simp
  from Suc.IH [OF d(1) this, of ?m]
  have ih: "\<And>i. i < k \<Longrightarrow> copy (src + 4) (dst + 4) k ?m (dst + 4 + 4 * of_nat i) = ?m (src + 4 + 4 * of_nat i)"
    "\<And>b. b \<notin> cells (dst + 4) k \<Longrightarrow> copy (src + 4) (dst + 4) k ?m b = ?m b" by blast+
  have "copy src dst (Suc k) m (dst + 4 * of_nat i) = m (src + 4 * of_nat i)" if "i < Suc k" for i
  proof (cases i)
    case 0
    then show ?thesis using ih(2) [OF new] by simp
  next
    case (Suc j)
    have "src + 4 + 4 * of_nat j \<in> cells (src + 4) k" using Suc that by (auto simp: cells_def)
    then have "src + 4 + 4 * of_nat j \<noteq> dst" using d(3) by auto
    then show ?thesis using ih(1) [of j] Suc that by (simp add: algebra_simps)
  qed
  moreover have "copy src dst (Suc k) m b = m b" if "b \<notin> cells dst (Suc k)" for b
    using ih(2) [of b] that by (simp add: cells_Suc)
  ultimately show ?case by blast
qed

lemma steps_add: "(start_step L ^^ (m + n)) c = (start_step L ^^ n) ((start_step L ^^ m) c)"
  by (simp add: funpow_add add.commute [of m])

lemmas start_sims = start_step_def start_code_def next_pc_def write_reg_def read_reg_def

text \<open>\<^verbatim>\<open>bgeu\<close> on a pointer that advances by whole words to its bound.\<close>

lemma pointer_step:
  fixes a b :: u32
  assumes "unat a + 4 * Suc k = unat b"
  shows "\<not> a \<ge> b" "unat (a + 4) + 4 * k = unat b"
proof -
  have "unat b < 2 ^ 32" using unsigned_less [of b, where 'a = nat] by simp
  then have "unat a + 4 < 2 ^ 32" using assms by simp
  then have "unat (a + 4) = unat a + 4" by (simp add: unat_word_ariths)
  then show "unat (a + 4) + 4 * k = unat b" using assms by simp
  show "\<not> a \<ge> b" using assms by (simp add: word_le_nat_alt)
qed

lemma copy_loop:
  assumes "pc c = 12" and "unat (regs c T1) + 4 * k = unat (regs c T2)"
  shows "\<exists>t0 t1 t3. (start_step L ^^ (6 * k + 1)) c =
    c\<lparr>pc := 18, regs := (regs c)(T0 := t0, T1 := t1, T3 := t3), ram := copy (regs c T0) (regs c T1) k (ram c)\<rparr>"
  using assms
proof (induction k arbitrary: c)
  case 0
  then have "regs c T1 = regs c T2" by (simp add: word_unat_eq_iff)
  then have "(start_step L ^^ 1) c = c\<lparr>pc := 18\<rparr>" using 0 by (simp add: start_sims)
  then show ?case by (intro exI [of _ "regs c T0"] exI [of _ "regs c T1"] exI [of _ "regs c T3"]) simp
next
  case (Suc k)
  note s = pointer_step [OF Suc.prems(2)]
  let ?c = "c\<lparr>regs := (regs c)(T3 := ram c (regs c T0), T0 := regs c T0 + 4, T1 := regs c T1 + 4),
    ram := (ram c)(regs c T1 := ram c (regs c T0))\<rparr>"
  have six: "(start_step L ^^ 6) c = ?c"
    using Suc.prems(1) s(1) by (simp add: start_sims eval_nat_numeral not_le fun_upd_twist)
  have "pc ?c = 12" "unat (regs ?c T1) + 4 * k = unat (regs ?c T2)" using Suc.prems(1) s(2) by simp_all
  from Suc.IH [OF this] obtain t0 t1 t3 where
    "(start_step L ^^ (6 * k + 1)) ?c = ?c\<lparr>pc := 18, regs := (regs ?c)(T0 := t0, T1 := t1, T3 := t3),
      ram := copy (regs ?c T0) (regs ?c T1) k (ram ?c)\<rparr>" by blast
  moreover have "(start_step L ^^ (6 * Suc k + 1)) c = (start_step L ^^ (6 * k + 1)) ?c"
    using steps_add [of 6 "6 * k + 1" L c] six by simp
  moreover have "?c\<lparr>pc := 18, regs := (regs ?c)(T0 := t0, T1 := t1, T3 := t3),
      ram := copy (regs ?c T0) (regs ?c T1) k (ram ?c)\<rparr> =
    c\<lparr>pc := 18, regs := (regs c)(T0 := t0, T1 := t1, T3 := t3), ram := copy (regs c T0) (regs c T1) (Suc k) (ram c)\<rparr>"
    by (cases c) (simp add: fun_eq_iff)
  ultimately show ?case by metis
qed

text \<open>The two clearing loops have one shape: a store of a constant register, at index \<open>p\<close>.\<close>

lemma fill_loop:
  assumes "pc c = p" and "unat (regs c T0) + 4 * k = unat (regs c T1)"
    and code: "start_code ! p = BGEU T0 T1 (p + 4)" "start_code ! (p + 1) = SW r 0 T0"
      "start_code ! (p + 2) = ADDI T0 T0 4" "start_code ! (p + 3) = J p" and r: "r = Zero \<or> r = T2"
  shows "\<exists>t0. (start_step L ^^ (4 * k + 1)) c =
    c\<lparr>pc := p + 4, regs := (regs c)(T0 := t0), ram := fill (regs c T0) k (read_reg r c) (ram c)\<rparr>"
  using assms(1,2)
proof (induction k arbitrary: c)
  case 0
  then have "regs c T0 = regs c T1" by (simp add: word_unat_eq_iff)
  then have "(start_step L ^^ 1) c = c\<lparr>pc := p + 4\<rparr>"
    using 0 code by (simp add: start_step_def read_reg_def)
  then show ?case by (intro exI [of _ "regs c T0"]) simp
next
  case (Suc k)
  note s = pointer_step [OF Suc.prems(2)]
  let ?c = "c\<lparr>regs := (regs c)(T0 := regs c T0 + 4), ram := (ram c)(regs c T0 := read_reg r c)\<rparr>"
  have four: "(start_step L ^^ 4) c = ?c"
    using Suc.prems(1) s(1) code by (simp add: start_step_def eval_nat_numeral read_reg_def next_pc_def write_reg_def not_le)
  have v: "read_reg r ?c = read_reg r c" using r by (auto simp: read_reg_def)
  have "pc ?c = p" "unat (regs ?c T0) + 4 * k = unat (regs ?c T1)" using Suc.prems(1) s(2) by simp_all
  from Suc.IH [OF this] obtain t0 where
    "(start_step L ^^ (4 * k + 1)) ?c = ?c\<lparr>pc := p + 4, regs := (regs ?c)(T0 := t0),
      ram := fill (regs ?c T0) k (read_reg r ?c) (ram ?c)\<rparr>" by blast
  moreover have "(start_step L ^^ (4 * Suc k + 1)) c = (start_step L ^^ (4 * k + 1)) ?c"
    using steps_add [of 4 "4 * k + 1" L c] four by simp
  moreover have "?c\<lparr>pc := p + 4, regs := (regs ?c)(T0 := t0), ram := fill (regs ?c T0) k (read_reg r c) (ram ?c)\<rparr> =
    c\<lparr>pc := p + 4, regs := (regs c)(T0 := t0), ram := fill (regs c T0) (Suc k) (read_reg r c) (ram c)\<rparr>"
    by (cases c) (simp add: fun_eq_iff)
  ultimately show ?case unfolding v by metis
qed

section \<open>From the reset vector to \<^verbatim>\<open>obc_main\<close>\<close>

lemma in_cells:
  assumes "b \<in> cells a k" and "unat a + 4 * k < 2 ^ 32"
  shows "unat a \<le> unat b" "unat b < unat a + 4 * k"
proof -
  obtain i where i: "i < k" "b = a + 4 * of_nat i" using assms(1) by (auto simp: cells_def)
  have "unat (of_nat (4 * i) :: u32) = 4 * i"
    using i(1) assms(2) by (simp only: unat_of_nat) (simp add: take_bit_nat_eq_self)
  then have "unat b = unat a + 4 * i"
    using i assms(2) unsigned_less [of a, where 'a = nat] by (simp add: unat_word_ariths)
  then show "unat a \<le> unat b" "unat b < unat a + 4 * k" using i(1) by simp_all
qed

text \<open>The sections, as numbers.\<close>

lemma words_in_eq: "lo \<le> hi \<Longrightarrow> 4 dvd unat (hi - lo) \<Longrightarrow> unat lo + 4 * words_in lo hi = unat hi"
  by (simp add: words_in_def unat_sub word_le_nat_alt)

definition data_cells :: "(linker_symbol \<Rightarrow> u32) \<Rightarrow> u32 set" where
  "data_cells L = cells (L Data_start) (words_in (L Data_start) (L Data_end))"

definition bss_cells :: "(linker_symbol \<Rightarrow> u32) \<Rightarrow> u32 set" where
  "bss_cells L = cells (L Bss_start) (words_in (L Bss_start) (L Bss_end))"

definition stack_cells :: "(linker_symbol \<Rightarrow> u32) \<Rightarrow> u32 set" where
  "stack_cells L = cells (L Stack_bottom) (words_in (L Stack_bottom) (L Stack_top))"

lemma linked_ends:
  assumes "linked L"
  shows "unat (L Data_start) + 4 * words_in (L Data_start) (L Data_end) = unat (L Data_end)"
    "unat (L Bss_start) + 4 * words_in (L Bss_start) (L Bss_end) = unat (L Bss_end)"
    "unat (L Stack_bottom) + 4 * words_in (L Stack_bottom) (L Stack_top) = unat (L Stack_top)"
  using assms by (simp_all add: linked_def words_in_eq)

lemma linked_order:
  assumes "linked L"
  shows "0x80000000 \<le> unat (L Data_start)" "unat (L Data_end) \<le> unat (L Bss_start)"
    "unat (L Bss_end) \<le> unat (L Fault_record)" "unat (L Fault_record) + 36 \<le> unat (L Stack_bottom)"
    "unat (L Stack_top) \<le> 0x80004000" "unat (L Data_lma) + 4 * words_in (L Data_start) (L Data_end) \<le> 0x20800000"
    "unat (L Data_start) \<le> unat (L Data_end)" "unat (L Bss_start) \<le> unat (L Bss_end)"
    "unat (L Stack_bottom) \<le> unat (L Stack_top)"
proof -
  have "unat (L Fault_record + 36) = unat (L Fault_record) + 36"
    using assms by (simp add: linked_def word_le_nat_alt unat_word_ariths)
  moreover have "4 * words_in (L Data_start) (L Data_end) = unat (L Data_end - L Data_start)"
    using assms by (simp add: linked_def words_in_def)
  ultimately show "0x80000000 \<le> unat (L Data_start)" "unat (L Data_end) \<le> unat (L Bss_start)"
    "unat (L Bss_end) \<le> unat (L Fault_record)" "unat (L Fault_record) + 36 \<le> unat (L Stack_bottom)"
    "unat (L Stack_top) \<le> 0x80004000" "unat (L Data_lma) + 4 * words_in (L Data_start) (L Data_end) \<le> 0x20800000"
    "unat (L Data_start) \<le> unat (L Data_end)" "unat (L Bss_start) \<le> unat (L Bss_end)"
    "unat (L Stack_bottom) \<le> unat (L Stack_top)"
    using assms by (simp_all add: linked_def word_le_nat_alt)
qed

lemma section_bounds:
  assumes "linked L"
  shows "a \<in> data_cells L \<Longrightarrow> unat (L Data_start) \<le> unat a \<and> unat a < unat (L Data_end)"
    "a \<in> bss_cells L \<Longrightarrow> unat (L Bss_start) \<le> unat a \<and> unat a < unat (L Bss_end)"
    "a \<in> stack_cells L \<Longrightarrow> unat (L Stack_bottom) \<le> unat a \<and> unat a < unat (L Stack_top)"
    "a \<in> cells (L Data_lma) (words_in (L Data_start) (L Data_end)) \<Longrightarrow> unat a < 0x20800000"
  using in_cells [of a "L Data_start"] in_cells [of a "L Bss_start"] in_cells [of a "L Stack_bottom"]
    in_cells [of a "L Data_lma"] linked_ends [OF assms] linked_order [OF assms]
  by (force simp: data_cells_def bss_cells_def stack_cells_def)+

lemma record_cell:
  assumes "linked L" and "off < 36"
  shows "unat (L Fault_record + off) = unat (L Fault_record) + unat off"
    "L Fault_record + off \<notin> data_cells L \<union> bss_cells L \<union> stack_cells L"
proof -
  note o = linked_order [OF assms(1)]
  have off: "unat off < 36" using assms(2) by (simp add: word_less_nat_alt)
  then show u: "unat (L Fault_record + off) = unat (L Fault_record) + unat off"
    using o(4,5,9) by (simp add: unat_word_ariths)
  show "L Fault_record + off \<notin> data_cells L \<union> bss_cells L \<union> stack_cells L"
    using section_bounds [OF assms(1), of "L Fault_record + off"] o off u by force
qed

definition startup_steps :: "(linker_symbol \<Rightarrow> u32) \<Rightarrow> nat" where
  "startup_steps L = 20 + 6 * words_in (L Data_start) (L Data_end) +
     4 * words_in (L Bss_start) (L Bss_end) + 4 * words_in (L Stack_bottom) (L Stack_top)"

lemma startup_steps_le: "linked L \<Longrightarrow> startup_steps L \<le> 24596"
  using linked_ends [of L] linked_order [of L] by (simp add: startup_steps_def)

text \<open>The prologue, up to the first loop, and the loads between the loops.\<close>

lemma prologue:
  assumes "pc c = 0"
  shows "(start_step L ^^ 12) c =
    c\<lparr>pc := 12,
      regs := (regs c)(Gp := L Global_pointer, Sp := L Stack_top, T0 := L Data_lma, T1 := L Data_start, T2 := L Data_end),
      csrs := (csrs c)(Mscratch := L Fault_record, Mtvec := L Trap_entry, Mie := 0, Mip := 0),
      ram := (ram c)(L Fault_record + 24 := 0)\<rparr>"
  using assms
  by (cases c) (simp add: start_sims eval_nat_numeral OBC_FR_IN_HANDLER_def fun_eq_iff)

lemma between_loops:
  "pc c = 18 \<Longrightarrow> (start_step L ^^ 2) c = c\<lparr>pc := 20, regs := (regs c)(T0 := L Bss_start, T1 := L Bss_end)\<rparr>"
  "pc c = 24 \<Longrightarrow> (start_step L ^^ 3) c =
     c\<lparr>pc := 27, regs := (regs c)(T0 := L Stack_bottom, T1 := L Stack_top, T2 := STACK_PAINT)\<rparr>"
  by (cases c; simp add: start_sims eval_nat_numeral STACK_PAINT_def fun_eq_iff)+

lemma startup_run:
  assumes "linked L" and "pc c = 0"
  obtains t0 t1 t3 where "(start_step L ^^ startup_steps L) c =
    c\<lparr>pc := at_call,
      regs := (regs c)(Gp := L Global_pointer, Sp := L Stack_top, T0 := t0, T1 := t1, T2 := STACK_PAINT, T3 := t3),
      csrs := (csrs c)(Mscratch := L Fault_record, Mtvec := L Trap_entry, Mie := 0, Mip := 0),
      ram := fill (L Stack_bottom) (words_in (L Stack_bottom) (L Stack_top)) STACK_PAINT
        (fill (L Bss_start) (words_in (L Bss_start) (L Bss_end)) 0
          (copy (L Data_lma) (L Data_start) (words_in (L Data_start) (L Data_end)) ((ram c)(L Fault_record + 24 := 0))))\<rparr>"
proof -
  let ?nd = "words_in (L Data_start) (L Data_end)" and ?nb = "words_in (L Bss_start) (L Bss_end)"
    and ?ns = "words_in (L Stack_bottom) (L Stack_top)"
  define c1 where "c1 = (start_step L ^^ 12) c"
  have c1: "pc c1 = 12" "regs c1 T0 = L Data_lma" "regs c1 T1 = L Data_start" "regs c1 T2 = L Data_end"
    by (simp_all add: c1_def prologue [OF assms(2)])
  obtain a0 a1 t3 where c2: "(start_step L ^^ (6 * ?nd + 1)) c1 =
      c1\<lparr>pc := 18, regs := (regs c1)(T0 := a0, T1 := a1, T3 := t3), ram := copy (L Data_lma) (L Data_start) ?nd (ram c1)\<rparr>"
    (is "_ = ?c2") using copy_loop [of c1 ?nd L] linked_ends(1) [OF assms(1)] c1 by auto
  define c3 where "c3 = ?c2\<lparr>pc := 20, regs := (regs ?c2)(T0 := L Bss_start, T1 := L Bss_end)\<rparr>"
  have c3: "(start_step L ^^ 2) ?c2 = c3" unfolding c3_def by (rule between_loops(1)) simp
  have r3: "pc c3 = 20" "regs c3 T0 = L Bss_start" "regs c3 T1 = L Bss_end" "ram c3 = ram ?c2" by (simp_all add: c3_def)
  have bss: "start_code ! 20 = BGEU T0 T1 (20 + 4)" "start_code ! (20 + 1) = SW Zero 0 T0"
    "start_code ! (20 + 2) = ADDI T0 T0 4" "start_code ! (20 + 3) = J 20" by (simp_all add: start_code_def)
  obtain b0 where c4: "(start_step L ^^ (4 * ?nb + 1)) c3 =
      c3\<lparr>pc := 20 + 4, regs := (regs c3)(T0 := b0), ram := fill (L Bss_start) ?nb (read_reg Zero c3) (ram c3)\<rparr>"
    (is "_ = ?c4") using fill_loop [OF r3(1) _ bss, of ?nb L] linked_ends(2) [OF assms(1)] r3 by auto
  define c5 where "c5 = ?c4\<lparr>pc := 27, regs := (regs ?c4)(T0 := L Stack_bottom, T1 := L Stack_top, T2 := STACK_PAINT)\<rparr>"
  have c5: "(start_step L ^^ 3) ?c4 = c5" unfolding c5_def by (rule between_loops(2)) simp
  have r5: "pc c5 = 27" "regs c5 T0 = L Stack_bottom" "regs c5 T1 = L Stack_top" "ram c5 = ram ?c4"
    "read_reg T2 c5 = STACK_PAINT" by (simp_all add: c5_def read_reg_def)
  have paint: "start_code ! 27 = BGEU T0 T1 (27 + 4)" "start_code ! (27 + 1) = SW T2 0 T0"
    "start_code ! (27 + 2) = ADDI T0 T0 4" "start_code ! (27 + 3) = J 27" by (simp_all add: start_code_def)
  obtain e0 where c6: "(start_step L ^^ (4 * ?ns + 1)) c5 =
      c5\<lparr>pc := 27 + 4, regs := (regs c5)(T0 := e0), ram := fill (L Stack_bottom) ?ns STACK_PAINT (ram c5)\<rparr>"
    (is "_ = ?c6") using fill_loop [OF r5(1) _ paint, of ?ns L] linked_ends(3) [OF assms(1)] r5 by auto
  have n: "startup_steps L = 12 + ((6 * ?nd + 1) + (2 + ((4 * ?nb + 1) + (3 + (4 * ?ns + 1)))))"
    by (simp add: startup_steps_def)
  have "(start_step L ^^ startup_steps L) c = ?c6"
    unfolding n steps_add [of 12] c1_def [symmetric] steps_add [of "6 * ?nd + 1"] c2 steps_add [of 2] c3
      steps_add [of "4 * ?nb + 1"] c4 steps_add [of 3] c5 c6 by (rule refl)
  also have "?c6 = c\<lparr>pc := at_call,
      regs := (regs c)(Gp := L Global_pointer, Sp := L Stack_top, T0 := e0, T1 := L Stack_top, T2 := STACK_PAINT, T3 := t3),
      csrs := (csrs c)(Mscratch := L Fault_record, Mtvec := L Trap_entry, Mie := 0, Mip := 0),
      ram := fill (L Stack_bottom) ?ns STACK_PAINT (fill (L Bss_start) ?nb 0
          (copy (L Data_lma) (L Data_start) ?nd ((ram c)(L Fault_record + 24 := 0))))\<rparr>"
    unfolding r5(4) c5_def c3_def c1_def prologue [OF assms(2)]
    by (cases c) (simp add: fun_eq_iff read_reg_def)
  finally show thesis by (rule that)
qed

lemma startup_ram:
  assumes "linked L" and "pc c = 0"
  defines "m \<equiv> ram ((start_step L ^^ startup_steps L) c)"
  shows "i < words_in (L Data_start) (L Data_end) \<Longrightarrow> m (L Data_start + 4 * of_nat i) = ram c (L Data_lma + 4 * of_nat i)"
    "a \<in> bss_cells L \<Longrightarrow> m a = 0" "a \<in> stack_cells L \<Longrightarrow> m a = STACK_PAINT"
    "a \<notin> data_cells L \<union> bss_cells L \<union> stack_cells L \<Longrightarrow> m a = (if a = L Fault_record + 24 then 0 else ram c a)"
proof -
  let ?k = "words_in (L Data_start) (L Data_end)" and ?m = "(ram c)(L Fault_record + 24 := 0)"
  note o = linked_order [OF assms(1)] and b = section_bounds [OF assms(1)]
  have disjoint: "bss_cells L \<inter> stack_cells L = {}" "data_cells L \<inter> (bss_cells L \<union> stack_cells L) = {}"
    using b o by force+
  have "cells (L Data_lma) ?k \<inter> data_cells L = {}" using b(1,4) o(1) by force
  moreover have "?k \<le> 2 ^ 20" using linked_ends(1) [OF assms(1)] o by simp
  ultimately have cp: "(\<forall>i < ?k. copy (L Data_lma) (L Data_start) ?k ?m (L Data_start + 4 * of_nat i) = ?m (L Data_lma + 4 * of_nat i)) \<and>
    (\<forall>b. b \<notin> data_cells L \<longrightarrow> copy (L Data_lma) (L Data_start) ?k ?m b = ?m b)"
    unfolding data_cells_def by (rule copy_eq)
  have "m = fill (L Stack_bottom) (words_in (L Stack_bottom) (L Stack_top)) STACK_PAINT
        (fill (L Bss_start) (words_in (L Bss_start) (L Bss_end)) 0 (copy (L Data_lma) (L Data_start) ?k ?m))"
    unfolding m_def by (rule startup_run [OF assms(1,2)]) simp
  then have m: "m a = (if a \<in> stack_cells L then STACK_PAINT else if a \<in> bss_cells L then 0
      else copy (L Data_lma) (L Data_start) ?k ?m a)" for a
    by (simp add: fill_eq stack_cells_def bss_cells_def)
  show "a \<in> bss_cells L \<Longrightarrow> m a = 0" "a \<in> stack_cells L \<Longrightarrow> m a = STACK_PAINT" using disjoint(1) by (auto simp: m)
  show "a \<notin> data_cells L \<union> bss_cells L \<union> stack_cells L \<Longrightarrow> m a = (if a = L Fault_record + 24 then 0 else ram c a)"
    using cp by (simp add: m)
  assume i: "i < ?k"
  then have "L Data_start + 4 * of_nat i \<in> data_cells L" "L Data_lma + 4 * of_nat i \<in> cells (L Data_lma) ?k"
    by (auto simp: data_cells_def cells_def)
  moreover from this have "L Data_lma + 4 * of_nat i \<noteq> L Fault_record + 24"
    using b(4) record_cell(1) [OF assms(1), of 24] o by force
  ultimately show "m (L Data_start + 4 * of_nat i) = ram c (L Data_lma + 4 * of_nat i)"
    using cp i disjoint(2) by (auto simp: m)
qed

text \<open>The fault record, and everything else outside the three sections, survives the startup code.\<close>

lemma startup_keeps_record:
  assumes "linked L" and "pc c = 0"
  shows "record_at (L Fault_record) (ram ((start_step L ^^ startup_steps L) c)) =
    start_clears_in_handler (record_at (L Fault_record) (ram c))"
proof -
  have ne: "L Fault_record + off \<noteq> L Fault_record + 24" if "off \<noteq> 24" for off using that by simp
  have "ram ((start_step L ^^ startup_steps L) c) (L Fault_record + off) =
      (if off = 24 then 0 else ram c (L Fault_record + off))" if "off < 36" for off
    using startup_ram(4) [OF assms record_cell(2) [OF assms(1) that]] by simp
  from this [of 0] this [of 4] this [of 8] this [of 12] this [of 16] this [of 20] this [of 24] this [of 28] this [of 32]
  show ?thesis by (simp add: record_at_def start_clears_in_handler_def)
qed

section \<open>A trap in the startup code itself\<close>

text \<open>Where the stores of the three loops can point, by program counter.\<close>

definition pointers_ok :: "(linker_symbol \<Rightarrow> u32) \<Rightarrow> core \<Rightarrow> bool" where
  "pointers_ok L c \<longleftrightarrow>
     (pc c \<in> {12..17} \<longrightarrow> regs c T2 = L Data_end) \<and> (pc c \<in> {13, 14} \<longrightarrow> regs c T1 < L Data_end) \<and>
     (pc c \<in> {20..23} \<longrightarrow> regs c T1 = L Bss_end) \<and> (pc c = 21 \<longrightarrow> regs c T0 < L Bss_end) \<and>
     (pc c \<in> {25..30} \<longrightarrow> L Stack_bottom \<le> regs c T0) \<and> (pc c \<in> {26..30} \<longrightarrow> regs c T1 = L Stack_top) \<and>
     (pc c \<in> {28, 29} \<longrightarrow> regs c T0 < L Stack_top)"

definition armed :: "(linker_symbol \<Rightarrow> u32) \<Rightarrow> core \<Rightarrow> bool" where
  "armed L c \<longleftrightarrow> pc c \<in> {7..33} \<and> pointers_ok L c \<and>
     csrs c Mscratch = L Fault_record \<and> csrs c Mtvec = L Trap_entry \<and> ram c (L Fault_record + 24) = 0"

lemma stack_pointer_step:
  assumes "linked L" and "L Stack_bottom \<le> a" and "a < L Stack_top"
  shows "L Stack_bottom \<le> a + 4"
proof -
  have "unat a + 4 < 2 ^ 32" using assms(3) linked_order(5) [OF assms(1)] by (simp add: word_less_nat_alt)
  then have "unat (a + 4) = unat a + 4" by (simp add: unat_word_ariths)
  then show ?thesis using assms(2) by (simp add: word_le_nat_alt)
qed

lemma flag_untouched:
  assumes "linked L"
  shows "a < L Data_end \<Longrightarrow> a \<noteq> L Fault_record + 24" "a < L Bss_end \<Longrightarrow> a \<noteq> L Fault_record + 24"
    "L Stack_bottom \<le> a \<Longrightarrow> a \<noteq> L Fault_record + 24"
  using record_cell(1) [OF assms, of 24] linked_order [OF assms]
  by (auto simp: word_less_nat_alt word_le_nat_alt)

lemma armed_step:
  assumes "linked L" and "armed L c"
  shows "armed L (start_step L c)"
proof -
  have "7 \<le> pc c" "pc c \<le> 33" using assms(2) by (simp_all add: armed_def)
  then have p: "pc c \<in> {7, 8, 9, 10, 11, 12, 13, 14, 15, 16, 17, 18, 19, 20, 21, 22, 23, 24, 25, 26, 27, 28, 29, 30, 31, 32, 33}"
    unfolding insert_iff empty_iff by presburger
  note f = flag_untouched [OF assms(1)] and s = stack_pointer_step [OF assms(1)]
  have "L Stack_bottom \<le> L Stack_bottom" by simp
  then show ?thesis
    using p assms(2) f f [THEN not_sym] s
    by (elim insertE emptyE; simp add: armed_def pointers_ok_def start_sims not_le)
qed

lemma armed_from_seventh:
  assumes "linked L" and "pc c = 0" and "7 \<le> n"
  shows "armed L ((start_step L ^^ n) c)"
proof -
  have "armed L ((start_step L ^^ 7) c)"
    using assms(2) by (simp add: start_sims eval_nat_numeral OBC_FR_IN_HANDLER_def armed_def pointers_ok_def)
  moreover have "armed L ((start_step L ^^ k) d)" if "armed L d" for k d
    using that armed_step [OF assms(1)] by (induction k) simp_all
  ultimately show ?thesis using assms(3) steps_add [of 7 "n - 7" L c] by simp
qed

text \<open>The hart as the trap handler finds it, and as it is when the reset vector is next fetched.\<close>

definition trapped_hart :: "core \<Rightarrow> u32 \<Rightarrow> u32 \<Rightarrow> u32 \<Rightarrow> cpu" where
  "trapped_hart c cause epc tval =
     \<lparr>reg_t0 = regs c T0, reg_t1 = regs c T1, reg_t2 = regs c T2, reg_sp = regs c Sp,
      csr_mscratch = csrs c Mscratch, csr_mcause = cause, csr_mepc = epc, csr_mtval = tval, cpu_mem = ram c\<rparr>"

section \<open>Properties\<close>

text \<open>
  C14: the startup code establishes the environment the C code assumes, in a bounded number of
  instructions. From the reset vector, with every register, CSR and memory word arbitrary, it
  reaches the call of \<^verbatim>\<open>obc_main\<close> in at most 24596 steps with \<^verbatim>\<open>gp\<close>, \<^verbatim>\<open>sp\<close>, \<^verbatim>\<open>mscratch\<close> and
  \<^verbatim>\<open>mtvec\<close> set and interrupts masked, \<^verbatim>\<open>.data\<close> copied word for word from flash, \<^verbatim>\<open>.bss\<close> zero, the stack
  painted and the re-entry flag of the fault record clear; every other word of memory, the
  critical copies and the records of \<^verbatim>\<open>.noinit\<close> among them, is what it was.
\<close>

theorem startup_establishes_environment:
  assumes "linked L" and "pc c = 0"
  shows "\<exists>n \<le> 24596. let c' = (start_step L ^^ n) c in
    start_code ! pc c' = CALL \<and> regs c' Sp = L Stack_top \<and> regs c' Gp = L Global_pointer \<and>
    csrs c' Mscratch = L Fault_record \<and> csrs c' Mtvec = L Trap_entry \<and> csrs c' Mie = 0 \<and> csrs c' Mip = 0 \<and>
    (\<forall>i < words_in (L Data_start) (L Data_end).
       ram c' (L Data_start + 4 * of_nat i) = ram c (L Data_lma + 4 * of_nat i)) \<and>
    (\<forall>a \<in> bss_cells L. ram c' a = 0) \<and> (\<forall>a \<in> stack_cells L. ram c' a = STACK_PAINT) \<and>
    fr_in_handler (record_at (L Fault_record) (ram c')) = 0 \<and>
    (\<forall>a. a \<notin> data_cells L \<union> bss_cells L \<union> stack_cells L \<union> {L Fault_record + OBC_FR_IN_HANDLER} \<longrightarrow> ram c' a = ram c a)"
proof -
  let ?c = "(start_step L ^^ startup_steps L) c"
  have r: "start_code ! pc ?c = CALL \<and> regs ?c Sp = L Stack_top \<and> regs ?c Gp = L Global_pointer \<and>
    csrs ?c Mscratch = L Fault_record \<and> csrs ?c Mtvec = L Trap_entry \<and> csrs ?c Mie = 0 \<and> csrs ?c Mip = 0"
    by (rule startup_run [OF assms]) (simp add: start_code_def)
  have "fr_in_handler (record_at (L Fault_record) (ram ?c)) = 0"
    by (simp add: startup_keeps_record [OF assms] start_clears_in_handler_def)
  then show ?thesis
    using r startup_ram [OF assms] startup_steps_le [OF assms(1)]
    by (intro exI [of _ "startup_steps L"]) (simp add: Let_def OBC_FR_IN_HANDLER_def)
qed

text \<open>A layout like the linked image's, and a hart out of reset with noise in memory.\<close>

fun flight_symbols :: "linker_symbol \<Rightarrow> u32" where
  "flight_symbols Global_pointer = 0x80000800"
| "flight_symbols Stack_top = 0x80000D00"
| "flight_symbols Stack_bottom = 0x80000900"
| "flight_symbols Fault_record = 0x80000710"
| "flight_symbols Trap_entry = 0x20400080"
| "flight_symbols Data_lma = 0x20404000"
| "flight_symbols Data_start = 0x80000000"
| "flight_symbols Data_end = 0x80000010"
| "flight_symbols Bss_start = 0x80000018"
| "flight_symbols Bss_end = 0x80000700"

lemma flight_symbols_linked: "linked flight_symbols"
  by (simp add: linked_def dvd_def)

definition noisy_core :: core where
  "noisy_core = \<lparr>pc = 0, regs = (\<lambda>_. 0x55555555), csrs = (\<lambda>_. 0), ram = (\<lambda>a. a XOR 0xA5A5A5A5)\<rparr>"

theorem startup_establishes_environment_witness:
  "\<exists>n \<le> 24596. regs ((start_step flight_symbols ^^ n) noisy_core) Sp = 0x80000D00 \<and>
     ram ((start_step flight_symbols ^^ n) noisy_core) 0x80000000 = 0x20404000 XOR 0xA5A5A5A5"
proof -
  have "pc noisy_core = 0" by (simp add: noisy_core_def)
  from startup_establishes_environment [OF flight_symbols_linked this]
  obtain n where n: "n \<le> 24596" "regs ((start_step flight_symbols ^^ n) noisy_core) Sp = 0x80000D00"
    "\<forall>i < words_in (flight_symbols Data_start) (flight_symbols Data_end).
       ram ((start_step flight_symbols ^^ n) noisy_core) (flight_symbols Data_start + 4 * of_nat i) =
       ram noisy_core (flight_symbols Data_lma + 4 * of_nat i)" by (auto simp: Let_def)
  have "ram ((start_step flight_symbols ^^ n) noisy_core) 0x80000000 = 0x20404000 XOR 0xA5A5A5A5"
    using n(3) [rule_format, of 0] by (simp add: words_in_def noisy_core_def)
  then show ?thesis using n(1,2) by blast
qed

text \<open>
  C30: from the instruction that writes \<^verbatim>\<open>mtvec\<close> on, a trap anywhere in the startup code is
  recorded and read. After any number of steps from the seventh, the handler is the one
  installed, finds \<^verbatim>\<open>mscratch\<close> at the record and no trap in progress; whatever the registers
  hold, the record it leaves survives the reset and the whole startup code of the next
  boot, which validates it as a trap with the \<^verbatim>\<open>mcause\<close>, \<^verbatim>\<open>mepc\<close> and \<^verbatim>\<open>mtval\<close> of the fault.
\<close>

theorem startup_trap_reaches_next_boot:
  assumes "linked L" and "pc c = 0" and "7 \<le> n"
    and "t = trapped_hart ((start_step L ^^ n) c) cause epc tval"
    and "pc d = 0" and "ram d = cpu_mem (obc_trap_entry t)"
  defines "r \<equiv> record_at (L Fault_record) (ram ((start_step L ^^ startup_steps L) d))"
  shows "csrs ((start_step L ^^ n) c) Mtvec = L Trap_entry \<and>
    obc_fault_validate (Some x) r = (OBC_OK, Some OBC_RESET_TRAP) \<and>
    fr_cause r = cause \<and> fr_epc r = epc \<and> fr_tval r = tval"
proof -
  have a: "armed L ((start_step L ^^ n) c)" by (rule armed_from_seventh [OF assms(1-3)])
  have "csr_mscratch t = L Fault_record" "fr_in_handler (record_at (L Fault_record) (cpu_mem t)) = 0"
    using a by (simp_all add: assms(4) trapped_hart_def armed_def record_at_def)
  note rec = trap_entry_record [OF this]
  have r: "r = start_clears_in_handler (record_at (L Fault_record) (cpu_mem (obc_trap_entry t)))"
    unfolding r_def assms(6) [symmetric] by (rule startup_keeps_record [OF assms(1,5)])
  have "csr_mcause t = cause" "csr_mepc t = epc" "csr_mtval t = tval" by (simp_all add: assms(4) trapped_hart_def)
  then show ?thesis
    using a r [unfolded rec]
    by (simp add: armed_def start_clears_in_handler_def obc_fault_validate_def obc_fault_checksum_def)
qed

theorem startup_trap_reaches_next_boot_witness:
  "obc_fault_validate (Some 0) (record_at 0x80000710
     (ram ((start_step flight_symbols ^^ startup_steps flight_symbols)
       (noisy_core\<lparr>ram := cpu_mem (obc_trap_entry (trapped_hart ((start_step flight_symbols ^^ 13) noisy_core) 5 0x20400020 1))\<rparr>)))) =
   (OBC_OK, Some OBC_RESET_TRAP)"
proof -
  have "pc noisy_core = 0" "7 \<le> (13::nat)" by (simp_all add: noisy_core_def)
  from startup_trap_reaches_next_boot [OF flight_symbols_linked this refl,
      of "noisy_core\<lparr>ram := cpu_mem (obc_trap_entry (trapped_hart ((start_step flight_symbols ^^ 13) noisy_core) 5 0x20400020 1))\<rparr>" 5 "0x20400020" 1 0]
  show ?thesis by (simp add: noisy_core_def)
qed

text \<open>\<^verbatim>\<open>obc_main\<close> must not return; if it does, the core parks and touches nothing more.\<close>

lemma parked_forever:
  assumes "pc c = 32"
  shows "pc ((start_step L ^^ n) c) \<in> {32, 33} \<and> ram ((start_step L ^^ n) c) = ram c \<and> regs ((start_step L ^^ n) c) = regs c"
  by (induction n) (use assms in \<open>auto simp: start_sims\<close>)

end
