(* ===== verification/Steps.thy ===== *)
theory Steps
  imports BootMain
begin

text \<open>
  What holds of every step of the flight software holds of a window and of a boot. The locale
  \<open>executive_steps\<close> asks of a reflexive and transitive relation between states that each
  elementary store of the executive, each task and each subsystem reset respects it, and
  concludes it for every routine of \<^verbatim>\<open>core/sched.c\<close>, whether the routine returns or the machine
  is reset inside it. \<open>boot_steps\<close> adds the stores of a boot and concludes it for
  \<^verbatim>\<open>obc_main\<close>. A preorder rather than a predicate, so that one interpretation serves for an
  invariant (\<open>P s \<longrightarrow> P t\<close>) and for a frame (\<open>v t = v s\<close>) alike.
\<close>

section \<open>The executive\<close>

locale executive_steps =
  fixes table :: "('a sched_state_scheme) obc_task list"
    and R :: "'a sched_state_scheme \<Rightarrow> 'a sched_state_scheme \<Rightarrow> bool"
  assumes same: "R s s"
    and also_then: "R s t \<Longrightarrow> R t u \<Longrightarrow> R s u"
    and at_most_eight: "length table \<le> 8"
    and hw_step: "R s (s\<lparr>hw := h\<rparr>)"
    and unstable_step: "R s (s\<lparr>s_unstable_count := c\<rparr>)"
    and vote_step: "R s (snd (obc_mode_is_safe s))"
    and enter_step: "R s (obc_mode_enter_safe q s)"
    and suspend_step: "R s (s\<lparr>s_suspended_task := a, s_suspended_frame := b\<rparr>)"
    and log_step: "R s (log_suspension x y r s)"
    and push_step: "i < length table \<Longrightarrow> R s (trace_push i s)"
    and account_step: "R s (account i n m s)"
    and ticks_step: "R s (s\<lparr>obc_cmd_now_ticks := w\<rparr>)"
    and slack_step: "R s (s\<lparr>obc_slack_ticks_min := w\<rparr>)"
    and overrun_step: "R s (s\<lparr>obc_frame_overruns := w\<rparr>)"
    and frames_step: "R s (s\<lparr>obc_frames_run := w\<rparr>)"
    and start_step: "R s (s\<lparr>obc_window_start_ticks := w\<rparr>)"
    and end_step: "R s (s\<lparr>obc_window_end_ticks := w\<rparr>)"
    and entry_step: "R s (s\<lparr>obc_safe_entry_frame := w\<rparr>)"
    and task_step: "i < length table \<Longrightarrow> task_fn (table ! i) = Some f \<Longrightarrow> R s (f s)"
    and reset_step: "i < length table \<Longrightarrow> reset_fn (table ! i) = Some f \<Longrightarrow> R s (f s)"
begin

lemma then_hw: "R s t \<Longrightarrow> R s (t\<lparr>hw := h\<rparr>)"
  using also_then hw_step by blast

lemma then_say: "R s t \<Longrightarrow> R s (say msg t)"
  unfolding on_hw_def by (rule then_hw)

lemma mtime_steps: "R s (snd (snd (obc_mtime_read out s)))"
proof (cases "mtime_attempts MTIME_READ_ATTEMPTS (hw s)")
  case (Pair v h)
  have "R s (s\<lparr>hw := h, s_unstable_count := c\<rparr>)" for c
    using also_then [OF hw_step unstable_step] .
  then show ?thesis using Pair hw_step same by (simp add: obc_mtime_read_def split: option.splits)
qed

lemma minstret_steps: "R s (snd (minstret s))"
  using hw_step by (simp add: minstret_def split: prod.splits)

lemma watchdog_steps: "R s (obc_recover_feed_hardware s)" "R s (obc_recover_arm_hardware s)" "R s (obc_recover_disarm_hardware s)"
  by (simp_all add: obc_recover_feed_hardware_def obc_recover_arm_hardware_def obc_recover_disarm_hardware_def
      aon_write_def hw_step)

lemma sched_now_steps: "R s (snd (snd (sched_now x frame s)))"
proof -
  obtain st v s1 where m: "obc_mtime_read (Some x) s = (st, v, s1)" by (metis prod_cases3)
  have h1: "R s s1" using mtime_steps [of s "Some x"] m by simp
  obtain sf s2 where i: "obc_mode_is_safe s1 = (sf, s2)" by fastforce
  have h2: "R s s2" using also_then [OF h1] vote_step [of s1] i by simp
  have "R s (obc_mode_enter_safe OBC_SAFE_CLOCK (s2\<lparr>obc_safe_entry_frame := frame\<rparr>))"
    using also_then [OF h2] also_then [OF entry_step enter_step] by blast
  then show ?thesis using m i h1 h2 by (simp add: sched_now_def)
qed

lemma note_slack_steps: "R s (note_slack frame now deadline s)"
proof (cases "now \<ge> deadline")
  case True
  let ?s1 = "s\<lparr>obc_frame_overruns := obc_frame_overruns s + 1, obc_slack_ticks_min := 0\<rparr>"
  have h1: "R s ?s1" using also_then [OF overrun_step slack_step] by simp
  obtain sf s2 where i: "obc_mode_is_safe ?s1 = (sf, s2)" by fastforce
  have h2: "R s s2" using also_then [OF h1] vote_step [of ?s1] i by simp
  have "R s (obc_mode_enter_safe OBC_SAFE_FRAME_OVERRUN (s2\<lparr>obc_safe_entry_frame := frame\<rparr>))"
    using also_then [OF h2] also_then [OF entry_step enter_step] by blast
  then show ?thesis using True i h2 by (simp add: note_slack_def Let_def)
qed (simp add: note_slack_def Let_def same slack_step)

lemma idle_loop_steps: "R s (snd (snd (idle_loop frame deadline guard now s)))"
proof (induction frame deadline guard now s rule: idle_loop.induct)
  case (1 frame deadline guard now s)
  obtain st v s1 where m: "sched_now now frame s = (st, v, s1)" by (metis prod_cases3)
  have h: "R s s1" using sched_now_steps [of s now frame] m by simp
  show ?case
  proof (cases "guard < IDLE_GUARD \<and> st = OBC_OK \<and> \<not> deadline \<le> v")
    case True
    have "R s1 (snd (snd (idle_loop frame deadline (guard + 1) v s1)))"
      using "1.IH" [OF _ m [symmetric] refl] True by simp
    then show ?thesis using True m also_then [OF h] by (subst idle_loop.simps) simp
  next
    case False
    then show ?thesis using m h same by (subst idle_loop.simps) auto
  qed
qed

lemma escalate_steps:
  assumes "i < length table"
  shows "R s (snd (obc_recover_escalate table rung (of_nat i) frame s))"
proof -
  have n: "unat (of_nat i :: u32) = i"
    using assms at_most_eight by (simp add: unat_of_nat take_bit_nat_eq_self)
  have "R s (log_suspension x f r (s\<lparr>s_suspended_task := a, s_suspended_frame := b\<rparr>))" for x f r a b
    using also_then [OF suspend_step log_step] .
  moreover have "R s (g (say msg (log_suspension x f r s)))" if "reset_fn (table ! i) = Some g" for g msg x f r
    using also_then [OF then_say [OF log_step] reset_step [OF assms that]] .
  ultimately show ?thesis
    unfolding obc_recover_escalate_def n
    by (auto simp: Let_def same enter_step then_say then_hw split: option.splits prod.splits)
qed

lemma dispatch_steps:
  assumes "i < length table"
  shows "R s (snd (dispatch table i frame s))"
proof (cases "task_fn (table ! i)")
  case None
  then show ?thesis by (simp add: dispatch_def same)
next
  case (Some f)
  obtain before s1 where s1: "minstret (trace_push i s) = (before, s1)" by fastforce
  obtain after s2 where s2: "minstret (f s1) = (after, s2)" by fastforce
  have "R s s1" using also_then [OF push_step [OF assms] minstret_steps] s1 by (metis snd_conv)
  moreover have "R s1 s2" using also_then [OF task_step [OF assms Some] minstret_steps] s2 by (metis snd_conv)
  ultimately have b: "R s (account i (after - before) (budget_instr (table ! i)) s2)"
    using also_then account_step by blast
  show ?thesis
    using b also_then [OF b escalate_steps [OF assms]] by (simp add: dispatch_def Some s1 s2 Let_def)
qed

lemma dispatch_loop_steps:
  "\<forall>i \<in> set is. i < length table \<Longrightarrow> R s (snd (dispatch_loop table frame is d r s))"
proof (induction "is" arbitrary: d r s)
  case Nil
  then show ?case by (simp add: same)
next
  case (Cons i "is")
  obtain sf s1 where s1: "obc_mode_is_safe s = (sf, s1)" by fastforce
  have b1: "R s s1" using vote_step [of s] s1 by simp
  obtain f2 s2 where s2: "dispatch table i frame s1 = (f2, s2)" by fastforce
  have b2: "R s s2" using also_then [OF b1] dispatch_steps [of i s1 frame] s2 Cons.prems by simp
  have ih: "R t (snd (dispatch_loop table frame is d r t))" for d r t using Cons by simp
  show ?case
    using s1 s2 b2 ih also_then [OF b1 ih] also_then [OF b2 ih] by (simp split: flow.split)
qed

lemma frame_step_steps: "R s (snd (frame_step table frame start s))"
proof -
  let ?deadline = "start + ucast OBC_FRAME_TICKS"
  obtain f1 s1 where d: "dispatch_loop table frame [0..<length table] 0 0
      (s\<lparr>obc_cmd_now_ticks := ucast start\<rparr>) = (f1, s1)" by fastforce
  have "R (s\<lparr>obc_cmd_now_ticks := ucast start\<rparr>) s1"
    using dispatch_loop_steps [of "[0..<length table]" "s\<lparr>obc_cmd_now_ticks := ucast start\<rparr>" frame 0 0] d by simp
  then have h1: "R s s1" using also_then ticks_step by blast
  show ?thesis
  proof (cases f1)
    case Reset
    then show ?thesis using d h1 by (simp add: frame_step_def Let_def)
  next
    case (Ret dr)
    obtain nd nr where dr: "dr = (nd, nr)" by fastforce
    let ?sa = "feed_if_earned table frame nd nr s1"
    have ha: "R s ?sa" using h1 also_then [OF h1 watchdog_steps(1)] by (simp add: feed_if_earned_def)
    obtain st now s2 where n: "sched_now 0 frame ?sa = (st, now, s2)" by (metis prod_cases3)
    have h2: "R s s2" using also_then [OF ha] sched_now_steps [of ?sa 0 frame] n by simp
    let ?sb = "note_slack frame now ?deadline s2"
    obtain st' now' s3 where m: "idle_loop frame ?deadline 0 now ?sb = (st', now', s3)" by (metis prod_cases3)
    have h3: "R s s3"
      using also_then [OF also_then [OF h2 note_slack_steps] idle_loop_steps] m by (metis snd_conv)
    show ?thesis
      using d Ret dr n m h2 h3 also_then [OF h3 frames_step] by (simp add: frame_step_def Let_def)
  qed
qed

lemma frame_loop_steps: "R s (snd (frame_loop table k frame start s))"
proof (induction k arbitrary: frame start s)
  case 0
  then show ?case by (simp add: end_step)
next
  case (Suc k)
  obtain f1 s1 where f: "frame_step table frame start s = (f1, s1)" by fastforce
  have h: "R s s1" using frame_step_steps [of s frame start] f by simp
  show ?case using f h also_then [OF h Suc] by (simp split: flow.split)
qed

lemma run_window_steps: "R s (snd (run_window table frames s))"
proof (cases "table = [] \<or> length table > unat OBC_MAX_TASKS")
  case True
  then show ?thesis by (auto simp: run_window_def same)
next
  case False
  obtain st start s1 where n: "sched_now 0 0 s = (st, start, s1)" by (metis prod_cases3)
  have h1: "R s s1" using sched_now_steps [of s 0 0] n by simp
  let ?s2 = "s1\<lparr>obc_slack_ticks_min := OBC_FRAME_TICKS, obc_window_start_ticks := ucast start\<rparr>"
  have h2: "R s ?s2" using also_then [OF h1 also_then [OF slack_step start_step]] .
  obtain safe s3 where m: "obc_mode_is_safe ?s2 = (safe, s3)" by fastforce
  have h3: "R s s3" using also_then [OF h2 vote_step] m by (metis snd_conv)
  have "R s (if b then s3\<lparr>obc_safe_entry_frame := 0\<rparr> else s3)" for b
    using h3 also_then [OF h3 entry_step] by simp
  then have "R s (snd (frame_loop table k frame start' (if b then s3\<lparr>obc_safe_entry_frame := 0\<rparr> else s3)))" for k frame start' b
    using also_then frame_loop_steps by blast
  then show ?thesis using False n m h1 by (simp add: run_window_def Let_def)
qed

theorem sched_run_steps: "R s (snd (obc_sched_run table frames s))"
proof -
  obtain f1 s1 where w: "run_window table frames (obc_recover_arm_hardware s) = (f1, s1)" by fastforce
  have h: "R s s1" using also_then [OF watchdog_steps(2) run_window_steps] w by (metis snd_conv)
  show ?thesis using w h also_then [OF h watchdog_steps(3)] by (simp add: obc_sched_run_def split: flow.split)
qed

end

section \<open>A boot\<close>

text \<open>Everything in a boot but the two writes of the boot record, which frame it.\<close>

locale booting_steps = executive_steps "obc_task_table :: tasks_state obc_task list" R
  for R :: "tasks_state \<Rightarrow> tasks_state \<Rightarrow> bool" +
  assumes previous_step: "R s (s\<lparr>obc_reset_cause_previous := cause\<rparr>)"
    and fault_step: "R s (s\<lparr>obc_fault_record := fr\<rparr>)"
    and restore_step: "R s (obc_mode_restore cause s)"
    and tlm_init_step: "R s (snd (obc_tlm_init obc_tlm_fields s))"
    and cmd_init_step: "R s (snd (obc_cmd_init obc_cmd_fields obc_cmd_table s))"
begin

lemma bus_step: "bus_only s t \<Longrightarrow> R s t"
proof -
  assume "bus_only s t"
  then have "t = s\<lparr>hw := hw t, s_unstable_count := s_unstable_count t\<rparr>" by (simp add: bus_only_def)
  moreover have "R s (s\<lparr>hw := hw t, s_unstable_count := s_unstable_count t\<rparr>)"
    using also_then [OF hw_step unstable_step] .
  ultimately show ?thesis by simp
qed

lemma print_steps: "\<forall>f \<in> set fs. io_only f \<Longrightarrow> R s (snd r) \<Longrightarrow> R s (snd (chain fs r))"
  using bus_chain [of fs "snd r" r] bus_step also_then by fastforce

lemma boot_restore_steps: "R s (boot_restore s)"
  unfolding boot_restore_def Let_def
  using also_then [OF also_then [OF previous_step restore_step] fault_step] .

lemma boot_tlm_steps: "R (snd r) (snd (boot_tlm r))"
proof -
  obtain st s where r: "r = (st, s)" by fastforce
  obtain t s1 where i: "obc_tlm_init obc_tlm_fields s = (t, s1)" by fastforce
  have h: "R s s1" using tlm_init_step [of s] i by simp
  have p: "R s (snd (chain fs (st, s1)))" if "\<forall>f \<in> set fs. io_only f" for fs
    using print_steps [OF that, of s "(st, s1)"] h by simp
  have a: "R s (snd (chain [puts (''tlm    : LAYOUT AUDIT FAILED, not emitting'' @ crlf)] (st, s1)))"
    by (rule p) (simp add: io_calls)
  have b: "R s (snd (chain [puts ''tlm    : layout ok, frame '', print_u32 (of_nat OBC_TLM_FRAME_LEN),
      puts ('' bytes'' @ crlf)] (st, s1)))" by (rule p) (simp add: io_calls)
  show ?thesis
  proof (cases "t = OBC_OK")
    case True
    then show ?thesis using b unfolding boot_tlm_def r prod.case i snd_conv by simp
  next
    case False
    obtain st' s2 where c: "chain [puts (''tlm    : LAYOUT AUDIT FAILED, not emitting'' @ crlf)] (st, s1) = (st', s2)"
      by fastforce
    show ?thesis
      unfolding boot_tlm_def r prod.case i snd_conv c using False also_then [OF a [unfolded c snd_conv] enter_step] by simp
  qed
qed

lemma boot_cmd_steps: "R (snd r) (snd (boot_cmd r))"
proof -
  obtain st s where r: "r = (st, s)" by fastforce
  obtain t s1 where i: "obc_cmd_init obc_cmd_fields obc_cmd_table s = (t, s1)" by fastforce
  have h: "R s s1" using cmd_init_step [of s] i by simp
  show ?thesis
    unfolding boot_cmd_def r prod.case i snd_conv
    by (rule print_steps) (use h in \<open>simp_all add: io_calls\<close>)
qed

lemma prepare_after_count:
  assumes b: "obc_recover_boot_begins (s\<lparr>hw := obc_uart_init (hw s)\<rparr>) = (rung, s1)"
  shows "R s1 (snd (boot_prepare im s))"
proof -
  obtain st inv_st s2 where bb: "boot_banner im s1 = (st, inv_st, s2)" by (metis prod_cases3)
  have h2: "R s1 s2" by (rule bus_step [OF boot_banner_bus [OF bb]])
  have h3: "R s1 (boot_restore s2)" using also_then [OF h2 boot_restore_steps] .
  obtain st1 s4 where c: "chain [puts ''boots  : '', print_u32 (obc_recover_short_boots (boot_restore s2)),
      puts ('' consecutive short'' @ crlf)] (st, boot_restore s2) = (st1, s4)" by fastforce
  have "R s1 (snd (st1, s4))" unfolding c [symmetric] by (rule print_steps) (use h3 in \<open>simp_all add: io_calls\<close>)
  then have h4: "R s1 s4" by simp
  define r5 where "r5 = (if rung = OBC_RUNG_RESET_MACHINE
      then obc_recover_escalate obc_task_table OBC_RUNG_RESET_MACHINE 0 0 s4 else (Ret (), s4))"
  obtain f5 s5 where r5: "r5 = (f5, s5)" by fastforce
  have "R s4 (snd (obc_recover_escalate obc_task_table OBC_RUNG_RESET_MACHINE 0 0 s4))"
    using escalate_steps [of 0 s4 OBC_RUNG_RESET_MACHINE 0] by (simp add: obc_task_count_eq)
  then have "R s4 (snd r5)" by (simp add: r5_def same)
  then have h5: "R s1 s5" using also_then [OF h4] r5 by simp
  obtain st2 s6 where e: "boot_cmd (boot_tlm (st1, s5)) = (st2, s6)" by fastforce
  have h6: "R s1 s6"
    using also_then [OF h5 also_then [OF boot_tlm_steps [of "(st1, s5)", simplified] boot_cmd_steps]] e
    by (metis snd_conv)
  obtain t7 s7 where f: "and_then (print_tick_check s6) print_timebase_check = (t7, s7)" by fastforce
  have "bus_only s6 (snd (and_then (print_tick_check s6) print_timebase_check))"
    using io_and_then [OF tick_io timebase_io] unfolding io_only_def by (rule spec)
  then have h7: "R s1 s7" using also_then [OF h6 bus_step] f by simp
  show ?thesis
    unfolding boot_prepare_def b prod.case bb Let_def c r5_def [symmetric] r5
    using h5 h7 e f by (cases f5) simp_all
qed

lemma boot_run_steps: "R s (snd (boot_run st tick_st s))"
proof (cases "st = OBC_OK \<and> tick_st = OBC_OK")
  case False
  then show ?thesis by (auto simp: boot_run_def same)
next
  case True
  obtain f1 s1 where w: "obc_sched_run obc_task_table OBC_SCHED_WINDOW_FRAMES s = (f1, s1)" by fastforce
  have h1: "R s s1" using sched_run_steps [of s OBC_SCHED_WINDOW_FRAMES] w by simp
  have summary: "R s (snd (print_sched_summary sch s1))" for sch
  proof -
    obtain safe s2 where m: "obc_mode_is_safe s1 = (safe, s2)" by fastforce
    have h2: "R s s2" using also_then [OF h1 vote_step] m by (metis snd_conv)
    show ?thesis using also_then [OF h2] bus_step [OF summary_bus [of s1 sch]] m by simp
  qed
  show ?thesis
  proof (cases f1)
    case (Ret sch)
    obtain st' s2 where "print_sched_summary sch s1 = (st', s2)" by fastforce
    then show ?thesis using summary [of sch] True w Ret by (simp add: boot_run_def)
  qed (use True w h1 in \<open>simp add: boot_run_def\<close>)
qed

end

text \<open>With the boot record, a whole boot.\<close>

locale boot_steps = booting_steps R for R +
  assumes record_step: "R s (boot_record_write cnt short s)"
begin

lemma boot_prepare_steps: "R s (snd (boot_prepare im s))"
proof -
  let ?s0 = "s\<lparr>hw := obc_uart_init (hw s)\<rparr>"
  obtain rung s1 where b: "obc_recover_boot_begins ?s0 = (rung, s1)" by fastforce
  have "R ?s0 s1" using b record_step by (auto simp: obc_recover_boot_begins_def Let_def)
  then show ?thesis using also_then [OF also_then [OF hw_step] prepare_after_count [OF b]] by blast
qed

theorem main_steps: "R s (snd (obc_main im s))"
proof -
  obtain f1 s1 where p: "boot_prepare im s = (f1, s1)" by fastforce
  have h1: "R s s1" using boot_prepare_steps [of s im] p by simp
  show ?thesis
  proof (cases f1)
    case Reset
    then show ?thesis using p h1 by (simp add: obc_main_def)
  next
    case (Ret v)
    obtain st tick_st inv_st where v: "v = (st, tick_st, inv_st)" by (metis prod_cases3)
    obtain f2 s2 where r: "boot_run st tick_st s1 = (f2, s2)" by fastforce
    have h2: "R s s2" using also_then [OF h1 boot_run_steps] r by (metis snd_conv)
    have "R s2 (snd (obc_recover_boot_is_healthy n s2))" for n
      by (simp add: obc_recover_boot_is_healthy_def same record_step)
    then show ?thesis
      using p Ret v r h2 also_then [OF h2] then_say by (simp add: obc_main_def Let_def split: flow.split)
  qed
qed

end

end
