(* ===== verification/Cut.thy ===== *)
theory Cut
  imports Steps
begin

text \<open>
  A boot that does not reach its end. While the window runs the hardware watchdog is armed, and
  any instruction may trap; either way the machine starts again from a state inside the
  window. A cut is placed by three numbers: the frames completed, the table entries passed in
  the next frame, and the turns of its idle loop. What the locales of \<open>Steps\<close> and \<open>Sched\<close>
  conclude of a complete window holds at every cut.
\<close>

section \<open>Windows and boots that are cut\<close>

text \<open>A prefix of one frame: \<open>m\<close> entries of the table, and with the table done the frame's
  bookkeeping and at most \<open>turns\<close> turns of the idle loop.\<close>

definition frame_cut ::
  "('a sched_state_scheme) obc_task list \<Rightarrow> nat \<Rightarrow> u32 \<Rightarrow> u32 \<Rightarrow> u64 \<Rightarrow> 'a sched_state_scheme \<Rightarrow> 'a sched_state_scheme" where
  "frame_cut table m turns frame frame_start s =
     (let deadline = frame_start + ucast OBC_FRAME_TICKS;
          s0 = s\<lparr>obc_cmd_now_ticks := ucast frame_start\<rparr>
      in case dispatch_loop table frame (take m [0..<length table]) 0 0 s0 of
           (Reset, s1) \<Rightarrow> s1
         | (Ret (n_due, n_ran), s1) \<Rightarrow>
             if m \<le> length table then s1
             else (case sched_now 0 frame (feed_if_earned table frame n_due n_ran s1) of
                     (st, now, s2) \<Rightarrow>
                       if st \<noteq> OBC_OK then s2
                       else snd (snd (idle_loop frame deadline (IDLE_GUARD - turns) now
                              (note_slack frame now deadline s2)))))"

fun frames_cut ::
  "('a sched_state_scheme) obc_task list \<Rightarrow> nat \<Rightarrow> nat \<Rightarrow> u32 \<Rightarrow> u32 \<Rightarrow> u64 \<Rightarrow> 'a sched_state_scheme \<Rightarrow>
     'a sched_state_scheme" where
  "frames_cut table 0 m turns frame frame_start s = frame_cut table m turns frame frame_start s"
| "frames_cut table (Suc k) m turns frame frame_start s =
     (case frame_step table frame frame_start s of
        (Ret st, s1) \<Rightarrow>
          if st \<noteq> OBC_OK then s1
          else frames_cut table k m turns (frame + 1) (frame_start + ucast OBC_FRAME_TICKS) s1
      | (Reset, s1) \<Rightarrow> s1)"

definition run_cut ::
  "('a sched_state_scheme) obc_task list \<Rightarrow> nat \<Rightarrow> nat \<Rightarrow> u32 \<Rightarrow> 'a sched_state_scheme \<Rightarrow> 'a sched_state_scheme" where
  "run_cut table k m turns s =
     (let sa = obc_recover_arm_hardware s
      in if table = [] \<or> length table > unat OBC_MAX_TASKS then sa
         else (case sched_now 0 0 sa of
           (st, frame_start, s1) \<Rightarrow>
             if st \<noteq> OBC_OK then s1
             else (let s2 = s1\<lparr>obc_slack_ticks_min := OBC_FRAME_TICKS, obc_window_start_ticks := ucast frame_start\<rparr>
                   in case obc_mode_is_safe s2 of
                        (safe, s3) \<Rightarrow>
                          frames_cut table k m turns 0 frame_start
                            (if safe \<and> obc_safe_entry_frame s3 = OBC_SAFE_ENTRY_NONE
                             then s3\<lparr>obc_safe_entry_frame := 0\<rparr> else s3))))"

definition main_cut :: "image \<Rightarrow> nat \<Rightarrow> nat \<Rightarrow> u32 \<Rightarrow> tasks_state \<Rightarrow> tasks_state" where
  "main_cut im k m turns s =
     (case boot_prepare im s of
        (Reset, s1) \<Rightarrow> s1
      | (Ret (st, tick_st, inv_st), s1) \<Rightarrow>
          if st = OBC_OK \<and> tick_st = OBC_OK then run_cut obc_task_table k m turns s1 else s1)"

text \<open>
  A boot that does not reach its window, cut after \<open>p\<close> of the stages of \<^verbatim>\<open>obc_main\<close> before it: the
  ports, the boot record, the banner, the restore, the ladder, and the two audits.
\<close>

definition prepare_cut :: "image \<Rightarrow> nat \<Rightarrow> tasks_state \<Rightarrow> tasks_state" where
  "prepare_cut im p s =
     (let s0 = s\<lparr>hw := obc_uart_init (hw s)\<rparr>
      in if p = 0 then s0
         else (case obc_recover_boot_begins s0 of (boot_rung, s1) \<Rightarrow>
           if p = 1 then s1
           else (case boot_banner im s1 of (st, inv_st, s2) \<Rightarrow>
             if p = 2 then s2
             else if p = 3 then boot_restore s2
             else (case chain [puts ''boots  : '', print_u32 (obc_recover_short_boots (boot_restore s2)),
                          puts ('' consecutive short'' @ crlf)] (st, boot_restore s2) of (st1, s4) \<Rightarrow>
               let s5 = (if boot_rung = OBC_RUNG_RESET_MACHINE
                         then snd (obc_recover_escalate obc_task_table OBC_RUNG_RESET_MACHINE 0 0 s4) else s4)
               in if p = 4 then s5 else snd (boot_cmd (boot_tlm (st1, s5)))))))"

section \<open>Every step before the cut\<close>

context executive_steps
begin

lemma frame_cut_steps: "R s (frame_cut table m turns frame start s)"
proof -
  let ?is = "take m [0..<length table]" and ?deadline = "start + ucast OBC_FRAME_TICKS"
  obtain f1 s1 where d: "dispatch_loop table frame ?is 0 0 (s\<lparr>obc_cmd_now_ticks := ucast start\<rparr>) = (f1, s1)" by fastforce
  have ids: "\<forall>i \<in> set ?is. i < length table" by (auto dest: in_set_takeD)
  have h1: "R s s1"
    using also_then [OF ticks_step dispatch_loop_steps [OF ids]] d by (metis snd_conv)
  show ?thesis
  proof (cases f1)
    case Reset
    then show ?thesis using d h1 by (simp add: frame_cut_def Let_def)
  next
    case (Ret dr)
    obtain nd nr where dr: "dr = (nd, nr)" by fastforce
    let ?sa = "feed_if_earned table frame nd nr s1"
    have ha: "R s ?sa" using h1 also_then [OF h1 watchdog_steps(1)] by (simp add: feed_if_earned_def)
    obtain st now s2 where n: "sched_now 0 frame ?sa = (st, now, s2)" by (metis prod_cases3)
    have h2: "R s s2" using also_then [OF ha] sched_now_steps [of ?sa 0 frame] n by simp
    have "R s (snd (snd (idle_loop frame ?deadline g now (note_slack frame now ?deadline s2))))" for g
      using also_then [OF also_then [OF h2 note_slack_steps] idle_loop_steps] .
    then show ?thesis using d Ret dr n h1 h2 by (simp add: frame_cut_def Let_def)
  qed
qed

lemma frames_cut_steps: "R s (frames_cut table k m turns frame start s)"
proof (induction k arbitrary: frame start s)
  case 0
  then show ?case by (simp add: frame_cut_steps)
next
  case (Suc k)
  obtain f1 s1 where f: "frame_step table frame start s = (f1, s1)" by fastforce
  have h: "R s s1" using frame_step_steps [of s frame start] f by simp
  show ?case using f h also_then [OF h Suc] by (simp split: flow.split)
qed

lemma run_cut_steps: "R s (run_cut table k m turns s)"
proof (cases "table = [] \<or> length table > unat OBC_MAX_TASKS")
  case True
  then show ?thesis using watchdog_steps(2) by (auto simp: run_cut_def Let_def)
next
  case False
  obtain st start s1 where n: "sched_now 0 0 (obc_recover_arm_hardware s) = (st, start, s1)" by (metis prod_cases3)
  have h1: "R s s1" using also_then [OF watchdog_steps(2) sched_now_steps] n by (metis snd_conv)
  let ?s2 = "s1\<lparr>obc_slack_ticks_min := OBC_FRAME_TICKS, obc_window_start_ticks := ucast start\<rparr>"
  have h2: "R s ?s2" using also_then [OF h1 also_then [OF slack_step start_step]] .
  obtain safe s3 where m: "obc_mode_is_safe ?s2 = (safe, s3)" by fastforce
  have h3: "R s s3" using also_then [OF h2 vote_step] m by (metis snd_conv)
  have "R s (if b then s3\<lparr>obc_safe_entry_frame := 0\<rparr> else s3)" for b
    using h3 also_then [OF h3 entry_step] by simp
  then have "R s (frames_cut table k m turns frame start' (if b then s3\<lparr>obc_safe_entry_frame := 0\<rparr> else s3))" for frame start' b
    using also_then frames_cut_steps by blast
  then show ?thesis using False n m h1 by (simp add: run_cut_def Let_def)
qed

end

context booting_steps
begin

lemma main_cut_after_count:
  assumes b: "obc_recover_boot_begins (s\<lparr>hw := obc_uart_init (hw s)\<rparr>) = (rung, s1)"
  shows "R s1 (main_cut im k m turns s)"
proof -
  obtain f2 s2 where p: "boot_prepare im s = (f2, s2)" by fastforce
  have h: "R s1 s2" using prepare_after_count [OF b, of im] p by simp
  show ?thesis using p h also_then [OF h run_cut_steps] by (simp add: main_cut_def split: flow.split prod.split)
qed

lemma prepare_cut_after_count:
  assumes b: "obc_recover_boot_begins (s\<lparr>hw := obc_uart_init (hw s)\<rparr>) = (rung, s1)" and "0 < p"
  shows "R s1 (prepare_cut im p s)"
proof -
  obtain st inv_st s2 where bb: "boot_banner im s1 = (st, inv_st, s2)" by (metis prod_cases3)
  have h2: "R s1 s2" by (rule bus_step [OF boot_banner_bus [OF bb]])
  have h3: "R s1 (boot_restore s2)" using also_then [OF h2 boot_restore_steps] .
  obtain st1 s4 where c: "chain [puts ''boots  : '', print_u32 (obc_recover_short_boots (boot_restore s2)),
      puts ('' consecutive short'' @ crlf)] (st, boot_restore s2) = (st1, s4)" by fastforce
  have "R s1 (snd (st1, s4))" unfolding c [symmetric] by (rule print_steps) (use h3 in \<open>simp_all add: io_calls\<close>)
  then have h4: "R s1 s4" by simp
  define s5 where "s5 = (if rung = OBC_RUNG_RESET_MACHINE
      then snd (obc_recover_escalate obc_task_table OBC_RUNG_RESET_MACHINE 0 0 s4) else s4)"
  have "R s4 (snd (obc_recover_escalate obc_task_table OBC_RUNG_RESET_MACHINE 0 0 s4))"
    using escalate_steps [of 0 s4 OBC_RUNG_RESET_MACHINE 0] by (simp add: obc_task_count_eq)
  then have h5: "R s1 s5" using also_then [OF h4] h4 by (simp add: s5_def)
  have h6: "R s1 (snd (boot_cmd (boot_tlm (st1, s5))))"
    using also_then [OF h5 also_then [OF boot_tlm_steps [of "(st1, s5)", simplified] boot_cmd_steps]] .
  show ?thesis
    unfolding prepare_cut_def Let_def b prod.case bb c s5_def [symmetric]
    using assms(2) same h2 h3 h5 h6 by simp
qed

end

context boot_steps
begin

lemma begins_steps:
  "obc_recover_boot_begins (s\<lparr>hw := obc_uart_init (hw s)\<rparr>) = (rung, s1) \<Longrightarrow> R s s1"
  using also_then [OF hw_step record_step] by (auto simp: obc_recover_boot_begins_def Let_def)

lemma prepare_cut_steps: "R s (prepare_cut im p s)"
proof (cases "p = 0")
  case True
  then show ?thesis by (simp add: prepare_cut_def hw_step)
next
  case False
  obtain rung s1 where b: "obc_recover_boot_begins (s\<lparr>hw := obc_uart_init (hw s)\<rparr>) = (rung, s1)" by fastforce
  show ?thesis using also_then [OF begins_steps [OF b] prepare_cut_after_count [OF b]] False by simp
qed

lemma main_cut_steps: "R s (main_cut im k m turns s)"
proof -
  obtain rung s1 where b: "obc_recover_boot_begins (s\<lparr>hw := obc_uart_init (hw s)\<rparr>) = (rung, s1)" by fastforce
  show ?thesis using also_then [OF begins_steps [OF b] main_cut_after_count [OF b]] .
qed

end

section \<open>What a degraded window dispatched before the cut\<close>

context task_set
begin

definition essential_so_far :: "'a sched_state_scheme \<Rightarrow> 'a sched_state_scheme \<Rightarrow> bool" where
  "essential_so_far s t \<longleftrightarrow> degraded t \<and> wf_trace t \<and> essentials_after (recorded s) (recorded t)"

lemma so_far_follows:
  assumes "essential_so_far s t" and "follows t u"
  shows "essential_so_far s u"
  using assms follows_trace [OF assms(2)] by (simp add: essential_so_far_def follows_def)

lemma so_far_trans: "essential_so_far s t \<Longrightarrow> essential_so_far t u \<Longrightarrow> essential_so_far s u"
  unfolding essential_so_far_def using essentials_trans by blast

lemma frame_cut_essential:
  assumes "degraded s" and "wf_trace s"
  shows "essential_so_far s (frame_cut table m turns frame start s)"
proof -
  let ?is = "take m [0..<length table]" and ?deadline = "start + ucast OBC_FRAME_TICKS"
  obtain f1 s1 where d: "dispatch_loop table frame ?is 0 0 (s\<lparr>obc_cmd_now_ticks := ucast start\<rparr>) = (f1, s1)" by fastforce
  have ids: "\<forall>i \<in> set ?is. i < length table" by (auto dest: in_set_takeD)
  have h1: "essential_so_far s s1"
    using loop_spoiled(2) [OF ids d] loop_essential [OF ids d] assms by (simp add: start_of_frame essential_so_far_def)
  show ?thesis
  proof (cases f1)
    case Reset
    then show ?thesis using d h1 by (simp add: frame_cut_def Let_def)
  next
    case (Ret dr)
    obtain nd nr where dr: "dr = (nd, nr)" by fastforce
    let ?sa = "feed_if_earned table frame nd nr s1"
    have ha: "holds_on s1 ?sa" by (rule holds_on_same) (simp_all add: kept_feed)
    obtain st now s2 where n: "sched_now 0 frame ?sa = (st, now, s2)" by (metis prod_cases3)
    have h2: "holds_on s1 s2" using holds_on_trans [OF ha] sched_now_holds [of ?sa 0 frame] n by simp
    have h3: "holds_on s1 (snd (snd (idle_loop frame ?deadline g now (note_slack frame now ?deadline s2))))" for g
      using holds_on_trans [OF holds_on_trans [OF h2 note_slack_holds] idle_loop_holds] .
    show ?thesis
      using d Ret dr n h1 so_far_follows [OF h1 holds_on_follows [OF h2]] so_far_follows [OF h1 holds_on_follows [OF h3]]
      by (simp add: frame_cut_def Let_def)
  qed
qed

lemma frames_cut_essential:
  "degraded s \<Longrightarrow> wf_trace s \<Longrightarrow> essential_so_far s (frames_cut table k m turns frame start s)"
proof (induction k arbitrary: frame start s)
  case 0
  then show ?case by (simp add: frame_cut_essential)
next
  case (Suc k)
  obtain f1 s1 where f: "frame_step table frame start s = (f1, s1)" by fastforce
  obtain fd sd where d: "dispatch_loop table frame [0..<length table] 0 0
      (s\<lparr>obc_cmd_now_ticks := ucast start\<rparr>) = (fd, sd)" and fo: "follows sd s1"
    by (rule frame_step_parts [OF f])
  have ids: "\<forall>i \<in> set [0..<length table]. i < length table" by simp
  have h1: "essential_so_far s s1"
    using loop_essential [OF ids d] frame_step_spoiled(1) [OF f] Suc.prems follows_trace [OF fo]
    by (simp add: start_of_frame essential_so_far_def)
  then have "essential_so_far s1 (frames_cut table k m turns (frame + 1) (start + ucast OBC_FRAME_TICKS) s1)"
    using Suc.IH by (simp add: essential_so_far_def)
  then show ?case using f h1 so_far_trans [OF h1] by (simp split: flow.split)
qed

lemma run_cut_essential:
  assumes "degraded s" and "wf_trace s"
  shows "essential_so_far s (run_cut table k m turns s)"
proof -
  let ?sa = "obc_recover_arm_hardware s"
  have h0: "essential_so_far s t" if "follows s t" for t
    by (rule so_far_follows [OF _ that])
      (use assms essentials_refl [OF recorded_length] in \<open>simp add: essential_so_far_def\<close>)
  obtain st start s1 where n: "sched_now 0 0 ?sa = (st, start, s1)" by (metis prod_cases3)
  have "holds_on ?sa s1" using sched_now_holds [of ?sa 0 0] n by simp
  then have f1: "follows s s1" using follows_trans [OF watchdog_frame(1) holds_on_follows] by simp
  let ?s2 = "s1\<lparr>obc_slack_ticks_min := OBC_FRAME_TICKS, obc_window_start_ticks := ucast start\<rparr>"
  have f2: "follows s ?s2" by (rule follows_trans [OF f1]) (rule follows_same; simp add: quiet_def)
  obtain sf s3 where v: "obc_mode_is_safe ?s2 = (sf, s3)" by fastforce
  have f3: "follows s s3" using follows_trans [OF f2 holds_on_follows [OF holds_on_is_safe]] v by (metis snd_conv)
  let ?s4 = "if sf \<and> obc_safe_entry_frame s3 = OBC_SAFE_ENTRY_NONE
              then s3\<lparr>obc_safe_entry_frame := 0\<rparr> else s3"
  have "follows s3 ?s4" by (rule follows_same) (simp_all add: quiet_def)
  then have h4: "essential_so_far s ?s4" using h0 [OF follows_trans [OF f3]] by simp
  then have "essential_so_far ?s4 (frames_cut table k m turns 0 start ?s4)"
    by (intro frames_cut_essential) (simp_all add: essential_so_far_def)
  then have "essential_so_far s (frames_cut table k m turns 0 start ?s4)" by (rule so_far_trans [OF h4])
  then show ?thesis using n v h0 [OF watchdog_frame(1)] h0 [OF f1] by (simp add: run_cut_def Let_def)
qed

end

lemma cut_honoured:
  assumes "critical_good (crit s)" and "wf_trace s" and "boot_evidence s"
  shows "degraded (main_cut im k m turns s) \<and>
    (\<exists>ds. recorded (main_cut im k m turns s) = take 256 (recorded s @ map of_nat ds) \<and> set ds \<subseteq> {0, 1, 4})"
proof -
  let ?t = "main_cut im k m turns s"
  obtain f1 s1 where p: "boot_prepare im s = (f1, s1)" by fastforce
  note e = boot_prepare_effect [OF p assms(1)]
  have d1: "degraded s1" and t1: "recorded s1 = recorded s" "wf_trace s1"
    using e(5) [OF assms(3)] trace_cong [OF e(2)] assms(2) by simp_all
  have "flight.essential_so_far s1 s1"
    using d1 t1(2) flight.essentials_refl [OF flight.recorded_length] by (simp add: flight.essential_so_far_def)
  then have "flight.essential_so_far s1 ?t"
    using p flight.run_cut_essential [OF d1 t1(2)] by (simp add: main_cut_def split: flow.split prod.split)
  then obtain ds where ds: "degraded ?t" "recorded ?t = take 256 (recorded s @ map of_nat ds)"
    "\<forall>i \<in> set ds. i < length (obc_task_table :: tasks_state obc_task list) \<and>
       essential ((obc_task_table :: tasks_state obc_task list) ! i) \<noteq> 0"
    unfolding flight.essential_so_far_def flight.essentials_after_def t1(1) by blast
  then show ?thesis using flight_essential by blast
qed

end
