(* ===== verification/Memory.thy ===== *)
theory Memory
  imports Cut
begin

text \<open>
  The shape of the flight state. Every array of the program has a fixed number of cells and
  every count that later serves as an index has a bound; \<open>wf_flight\<close> collects them, and
  each elementary store, each task and each initialisation keeps them. Through \<open>boot_steps\<close> a
  whole boot does, so no list the model updates by index is ever updated or read outside its
  bounds on the way.
\<close>

section \<open>The type of the state\<close>

text \<open>Everything but the collector's buffer, whose index is in transit inside a poll.\<close>

definition wf_store :: "tasks_state \<Rightarrow> bool" where
  "wf_store s \<longleftrightarrow> critical_good (crit s) \<and> wf_log s \<and> wf_queue (cmd_q s) \<and>
     length (obc_cmd_rejected s) = OBC_CMD_REJECT_COUNT \<and> wf_trace s \<and>
     length (obc_task_state s) = unat OBC_MAX_TASKS \<and> wf_sensor (sensors s) \<and>
     length (obc_sensor_mock_raw (sensors s)) = OBC_SENSOR_COUNT \<and>
     length (obc_tlm_frame s) = OBC_TLM_FRAME_LEN"

definition wf_flight :: "tasks_state \<Rightarrow> bool" where
  "wf_flight s \<longleftrightarrow> wf_store s \<and> wf_rx s"

lemmas wf_shapes = wf_flight_def wf_store_def wf_rx_def wf_log_def wf_trace_def

section \<open>The elementary stores\<close>

lemma wf_untouched [simp]:
  "wf_store (s\<lparr>hw := h\<rparr>) = wf_store s" "wf_rx (t\<lparr>hw := h\<rparr>) = wf_rx t"
  "wf_store (on_hw f s) = wf_store s" "wf_rx (on_hw f t) = wf_rx t"
  "wf_store (s\<lparr>s_rx := b\<rparr>) = wf_store s" "wf_store (s\<lparr>s_fill := n\<rparr>) = wf_store s"
  "wf_store (s\<lparr>obc_cmd_examined := v\<rparr>) = wf_store s" "wf_store (count_examined s) = wf_store s"
  by (simp_all add: wf_shapes on_hw_def count_examined_def)

lemma length_vote:
  assumes "wf_critical c" and "n < length (obc_critical_items c)"
  shows "length (obc_critical_items (snd (snd (vote n out c)))) = length (obc_critical_items c)"
  using vote_resolved [OF wf_nth [OF assms]] vote_unresolved [of c n]
  by (cases "\<exists>v. majority (obc_critical_items c ! n) v") auto

lemma critical_good_vote:
  "critical_good c \<Longrightarrow> n < length (obc_critical_items c) \<Longrightarrow> critical_good (snd (snd (vote n out c)))"
  using wf_vote [of c n out] length_vote [of c n out] by (simp add: critical_good_def)

lemma critical_good_scrub: "critical_good c \<Longrightarrow> critical_good (snd (obc_critical_scrub c))"
proof -
  have "critical_good (snd (scrub_items ns w c))"
    if "critical_good c" "\<forall>n \<in> set ns. n < length (obc_critical_items c)" for ns w c
    using that
  proof (induction ns arbitrary: w c)
    case Nil
    then show ?case by simp
  next
    case (Cons n ns)
    obtain st x c' where v: "vote n None c = (st, x, c')" by (metis prod_cases3)
    have "length (obc_critical_items c') = length (obc_critical_items c)"
      using length_vote [of c n None] Cons.prems v by (simp add: critical_good_def)
    then show ?case using Cons.IH [of c'] critical_good_vote [of c n None] Cons.prems v by simp
  qed
  then show "critical_good c \<Longrightarrow> critical_good (snd (obc_critical_scrub c))"
    by (simp add: obc_critical_scrub_def)
qed

lemma critical_good_is_safe:
  "critical_good (crit s) \<Longrightarrow> critical_good (crit (snd (obc_mode_is_safe s)))"
  using mode_word.get_good [of "crit s" "Some OBC_MODE_SAFE"]
  by (auto simp: obc_mode_is_safe_def split: prod.splits)

lemma critical_good_set: "critical_good c \<Longrightarrow> critical_good (obc_critical_set (Some n) v c)"
  using wf_set [of c n v] by (simp add: critical_good_def obc_critical_set_def)

lemma wf_voted: "wf_flight s \<Longrightarrow> wf_flight (snd (obc_mode_is_safe s))"
proof -
  assume wf: "wf_flight s"
  obtain safe t where i: "obc_mode_is_safe s = (safe, t)" by fastforce
  obtain c m where "t = s\<lparr>crit := c, obc_mode := m\<rparr>" by (rule is_safe_keeps [OF i])
  moreover have "critical_good (crit t)"
    using critical_good_is_safe [of s] wf i by (simp add: wf_shapes)
  ultimately show ?thesis using wf i by (simp add: wf_shapes)
qed

lemma wf_enter: "wf_flight s \<Longrightarrow> wf_flight (obc_mode_enter_safe r s)"
  by (simp add: obc_mode_enter_safe_def Let_def wf_shapes on_hw_def critical_good_set)

lemma wf_logged: "wf_flight s \<Longrightarrow> wf_flight (log_suspension x y r s)"
  using log_suspension_log(1) [of s x y r]
  by (simp add: log_suspension_def wf_shapes split: if_splits)

lemma wf_pushed: "wf_flight s \<Longrightarrow> wf_flight (trace_push i s)"
  using trace_push_recorded(1) [of s i] by (simp add: trace_push_def wf_shapes split: if_splits)

lemma wf_accounted: "wf_flight s \<Longrightarrow> wf_flight (account i n m s)"
  by (simp add: account_def Let_def wf_shapes)

section \<open>The tasks\<close>

lemma queue_run_wf: "wf_queue q \<Longrightarrow> wf_queue (obc_cmd_queue_run obc_cmd_table now frame q)"
proof -
  have "wf_queue (run_passes n obc_cmd_table now frame q)" if "wf_queue q" for n q
    using that
  proof (induction n arbitrary: q)
    case 0
    then show ?case by simp
  next
    case (Suc n)
    let ?o = "oldest_due now q"
    show ?case
    proof (cases "?o = OBC_CMD_QUEUE_LEN")
      case True
      then show ?thesis using Suc.prems by simp
    next
      case False
      then have "?o \<in> set (held q)" using oldest_due_cases [of now q] by (auto simp: due_def)
      then have w: "wf_queue (take_slot ?o q)" by (rule take_slot_wf [OF Suc.prems])
      let ?r = "run_slot obc_cmd_table now frame (obc_cmd_queue q ! ?o) (take_slot ?o q)"
      have "obc_cmd_queue ?r = obc_cmd_queue (take_slot ?o q)" "obc_cmd_queued ?r = obc_cmd_queued (take_slot ?o q)"
        by (simp_all add: run_slot_queue [OF flight_table_leaves_queue])
      then have "wf_queue ?r" using w held_cong [of ?r "take_slot ?o q"] by (simp add: wf_queue_def)
      then show ?thesis using False Suc.IH by (simp add: Let_def)
    qed
  qed
  then show "wf_queue q \<Longrightarrow> wf_queue (obc_cmd_queue_run obc_cmd_table now frame q)"
    by (simp add: obc_cmd_queue_run_def)
qed

lemma queue_init_wf: "length (obc_cmd_queue q) = OBC_CMD_QUEUE_LEN \<Longrightarrow> wf_queue (obc_cmd_queue_init q)"
  by (auto simp: wf_queue_def obc_cmd_queue_init_def held_def empty_slot_def filter_empty_conv)

lemma queue_reinit_wf: "wf_queue q \<Longrightarrow> wf_queue (obc_cmd_queue_init q)"
  by (rule queue_init_wf) (simp add: wf_queue_def)

lemma queue_put_wf: "wf_queue q \<Longrightarrow> wf_queue (snd (obc_cmd_queue_put op w a c q))"
  using put_ok [of q op w a c] put_full [of q op w a c] held_le [of q] by (cases "length (held q) < OBC_CMD_QUEUE_LEN") auto

lemma wf_refused: "wf_store s \<Longrightarrow> wf_store (snd (snd (refuse r out s)))"
  by (simp add: refuse_def Let_def announce_once_def) (simp add: wf_shapes)

lemma wf_ingested:
  assumes "obc_cmd_ingest table fp len reason s = (st, reason', s')" and "wf_store s"
  shows "wf_store s'"
proof (cases "s_table_ok s = 0 \<or> fp = None")
  case True
  then show ?thesis using assms by (simp add: ingest_off)
next
  case False
  then obtain frame where f: "fp = Some frame" and ok: "s_table_ok s \<noteq> 0" by auto
  have "wf_store (accept_frame frame (count_examined s))"
    using assms(2) by (simp add: accept_frame_def count_examined_def wf_shapes queue_put_wf)
  moreover have "wf_store (snd (snd (refuse r reason (count_examined s))))" for r
    by (rule wf_refused) (simp add: assms(2))
  ultimately show ?thesis
    using assms(1) unfolding f ingest_eq [OF ok] Let_def by (metis snd_conv)
qed

lemma wf_polled:
  assumes "wf_flight s"
  shows "wf_flight (obc_cmd_poll table s)"
proof (cases "s_table_ok s = 0")
  case True
  then show ?thesis using assms by (simp add: obc_cmd_poll_def)
next
  case False
  obtain k s1 where p: "poll_loop OBC_CMD_RX_BYTES table 0 s = (k, s1)" by fastforce
  have "wf_store (snd (poll_loop OBC_CMD_RX_BYTES table 0 s))"
    by (rule poll_loop_keeps [of wf_store]) (use assms wf_ingested in \<open>simp_all add: wf_flight_def\<close>)
  moreover have rx: "wf_rx s1"
    using poll_loop_collects [OF _ False p] assms by (auto simp: wf_flight_def)
  moreover have "wf_rx (snd (snd (refuse r None (s1\<lparr>s_fill := 0, obc_cmd_examined := v\<rparr>))))" for r v
    using rx by (simp add: refuse_def Let_def announce_once_def on_hw_def wf_rx_def)
  ultimately show ?thesis
    using p wf_refused [of "s1\<lparr>s_fill := 0, obc_cmd_examined := v\<rparr>" for v] False
    by (simp add: obc_cmd_poll_def wf_flight_def)
qed

lemma wf_commanded: "wf_flight s \<Longrightarrow> wf_flight (task_command s)"
  using wf_polled [of s obc_cmd_table] by (simp add: task_command_def Let_def wf_shapes queue_run_wf)

lemma wf_scrubbed: "wf_flight s \<Longrightarrow> wf_flight (task_scrub s)"
  by (simp add: task_scrub_def wf_shapes critical_good_scrub)

lemma sensor_init_mock [simp]: "obc_sensor_mock_raw (obc_sensor_init x) = obc_sensor_mock_raw x"
  by (simp add: obc_sensor_init_def init_one_def)

lemma sample_one_mock: "obc_sensor_mock_raw (snd (sample_one i r)) = obc_sensor_mock_raw (snd r)"
  by (cases r) (simp add: sample_one_def Let_def)

lemma sensor_sample_wf:
  "wf_sensor x \<Longrightarrow> wf_sensor (snd (obc_sensor_sample x))"
  "obc_sensor_mock_raw (snd (obc_sensor_sample x)) = obc_sensor_mock_raw x"
proof -
  obtain w0 x0 where s0: "sample_one 0 (OBC_OK, x) = (w0, x0)" by fastforce
  obtain w1 x1 where s1: "sample_one (Suc 0) (w0, x0) = (w1, x1)" by fastforce
  have e: "snd (obc_sensor_sample x) = x1" by (simp add: obc_sensor_sample_def s0 s1)
  show "wf_sensor x \<Longrightarrow> wf_sensor (snd (obc_sensor_sample x))"
    using sample_one_wf [OF _ s0] sample_one_wf [OF _ s1] e by simp
  show "obc_sensor_mock_raw (snd (obc_sensor_sample x)) = obc_sensor_mock_raw x"
    using sample_one_mock [of 0 "(OBC_OK, x)"] sample_one_mock [of "Suc 0" "(w0, x0)"] s0 s1 e by simp
qed

lemma wf_emitted: "wf_flight s \<Longrightarrow> wf_flight (snd (obc_tlm_emit n s))"
proof (cases "s_layout_ok s = 0")
  case True
  then show "wf_flight s \<Longrightarrow> ?thesis" by (simp add: obc_tlm_emit_def)
next
  case False
  assume wf: "wf_flight s"
  obtain st now s1 where m: "obc_mtime_read (Some 0) s = (st, now, s1)" by (metis prod_cases3)
  obtain h c where s1: "s1 = s\<lparr>hw := h, s_unstable_count := c\<rparr>" by (rule mtime_keeps [OF m])
  define u where "u = (if st = OBC_OK then ucast (the now AND 0xFFFFFFFF) else 0xFFFFFFFF :: u32)"
  define s2 where "s2 = pack (puts_before_vote n u s1) s1"
  have w2: "wf_flight s2" using wf by (simp add: s2_def pack_image s1 wf_shapes)
  obtain safe s3 where v: "obc_mode_is_safe s2 = (safe, s3)" by fastforce
  have w3: "wf_flight s3" using wf_voted [OF w2] v by simp
  let ?s6 = "(pack [put_u16 OBC_TLM_O_SUM (frame_sum (obc_tlm_frame (pack (puts_after_vote safe s3) s3)))]
      (pack (puts_after_vote safe s3) s3))"
  have w6: "wf_flight (?s6\<lparr>obc_tlm_seq := q, hw := h\<rparr>)" for q h
    using w3 by (simp add: pack_image) (simp add: pack_def puts_are_put_le wf_shapes)
  have w7: "wf_flight (say msg (?s6\<lparr>obc_tlm_seq := q, hw := h, obc_tlm_drops := d, obc_tlm_drops_consecutive := e\<rparr>))"
    "wf_flight (?s6\<lparr>obc_tlm_seq := q, hw := h, obc_tlm_drops_consecutive := e\<rparr>)" for msg q h d e
    using w6 by (simp_all add: wf_shapes on_hw_def)
  obtain w h' where d: "obc_uart_downlink_write (Some (obc_tlm_frame (?s6\<lparr>obc_tlm_seq := obc_tlm_seq ?s6 + 1\<rparr>)))
      (of_nat OBC_TLM_FRAME_LEN) (hw (?s6\<lparr>obc_tlm_seq := obc_tlm_seq ?s6 + 1\<rparr>)) = (w, h')" by fastforce
  show ?thesis
    unfolding obc_tlm_emit_def if_not_P [OF False] m prod.case Let_def u_def [symmetric] s2_def [symmetric] v d
    using w7 by (simp only: split: if_split) simp
qed

lemma wf_telemetered: "wf_flight s \<Longrightarrow> wf_flight (task_telemetry n s)"
  unfolding task_telemetry_def
  by (rule wf_emitted) (simp add: wf_shapes sensor_sample_wf)

lemma wf_worked: "wf_flight s \<Longrightarrow> wf_flight (work n s)"
  by (simp add: work_def wf_shapes)

lemma wf_task:
  "i < length (obc_task_table :: tasks_state obc_task list) \<Longrightarrow>
   task_fn ((obc_task_table :: tasks_state obc_task list) ! i) = Some f \<Longrightarrow> wf_flight s \<Longrightarrow> wf_flight (f s)"
  by (auto simp: obc_task_table_def less_Suc_eq task_housekeeping_def task_audit_def
      wf_worked wf_telemetered wf_scrubbed wf_commanded)

lemma wf_reset:
  assumes "i < length (obc_task_table :: tasks_state obc_task list)"
    and "reset_fn ((obc_task_table :: tasks_state obc_task list) ! i) = Some f" and "wf_flight s"
  shows "wf_flight (f s)"
proof -
  have "wf_queue (obc_cmd_queue_init (cmd_q s))" "wf_sensor (obc_sensor_init (sensors s))"
    using assms(3) by (simp_all add: queue_reinit_wf wf_init wf_shapes)
  then have "wf_flight (s\<lparr>cmd_q := obc_cmd_queue_init (cmd_q s)\<rparr>)" "wf_flight (obc_tlm_subsystem_reset s)"
    using assms(3) by (simp_all add: obc_tlm_subsystem_reset_def wf_shapes)
  then show ?thesis using assms(1,2) by (auto simp: obc_task_table_def less_Suc_eq)
qed

section \<open>A whole boot\<close>

lemma wf_tlm_init: "wf_flight s \<Longrightarrow> wf_flight (snd (obc_tlm_init layout s))"
  by (simp add: obc_tlm_init_def wf_shapes wf_init)

lemma wf_cmd_init: "wf_flight s \<Longrightarrow> wf_flight (snd (obc_cmd_init layout table s))"
proof -
  assume wf: "wf_flight s"
  then have "wf_queue (obc_cmd_queue_init (cmd_q s))" by (simp add: queue_reinit_wf wf_shapes)
  then show ?thesis using wf by (simp add: obc_cmd_init_def wf_shapes cmd_layout)
qed

lemma wf_restored: "wf_flight s \<Longrightarrow> wf_flight (obc_mode_restore c s)"
proof -
  assume wf: "wf_flight s"
  let ?s1 = "s\<lparr>crit := obc_critical_set (Some obc_critical_mode) OBC_MODE_NOMINAL (crit s),
    obc_mode := OBC_MODE_NOMINAL, obc_safe_reason := OBC_SAFE_NONE, s_announced := 0\<rparr>"
  have "wf_flight ?s1" using wf by (simp add: wf_shapes critical_good_set)
  then show ?thesis by (simp add: obc_mode_restore_def Let_def wf_enter)
qed

lemma wf_restamped:
  "wf_flight s \<Longrightarrow> wf_flight (s\<lparr>hw := h, s_unstable_count := c\<rparr>)"
  "wf_flight s \<Longrightarrow> wf_flight (boot_record_write n p s)"
  by (simp_all add: boot_record_write_def wf_shapes)

interpretation shape: boot_steps "\<lambda>s t. wf_flight s \<longrightarrow> wf_flight t"
proof unfold_locales
  show "length (obc_task_table :: tasks_state obc_task list) \<le> 8" by (simp add: obc_task_count_eq)
qed (simp_all add: wf_voted wf_enter wf_logged wf_pushed wf_accounted wf_task wf_reset wf_tlm_init wf_cmd_init
    wf_restored wf_restamped del: init_flight, simp_all add: wf_shapes)

end
