(* ===== verification/Live.thy ===== *)
theory Live
  imports Tasks
begin

text \<open>
  Liveness of the executive, \<^verbatim>\<open>flight/core/sched.c\<close>: on a clock that advances, a window ends
  in \<open>OBC_OK\<close> or in the machine reset of rung 3, never in a clock error or a timeout of the
  idle guard; and on a machine that keeps to its budgets it dispatches exactly the table.
\<close>

section \<open>A clock that advances\<close>

text \<open>Up to the count \<open>L\<close>, the counter ticks at least once in 8192 accesses of the bus.\<close>

definition advances :: "nat \<Rightarrow> (io_event list \<Rightarrow> u64) \<Rightarrow> bool" where
  "advances L T \<longleftrightarrow> (\<forall>es t. 8192 \<le> length es \<longrightarrow> unat (T t) < L \<longrightarrow> T t < T (es @ t))"

lemma advances_by:
  assumes "advances L T" and "never_backwards T"
  shows "8192 * k \<le> length es \<Longrightarrow> L \<le> unat (T (es @ t)) \<or> unat (T t) + k \<le> unat (T (es @ t))"
proof (induction k arbitrary: es)
  case 0
  have "T t \<le> T (es @ t)" by (rule never_backwards_suffix [OF assms(2)]) (simp add: suffix_def)
  then show ?case by (simp add: word_le_nat_alt)
next
  case (Suc k)
  let ?new = "take 8192 es" and ?old = "drop 8192 es"
  have ih: "L \<le> unat (T (?old @ t)) \<or> unat (T t) + k \<le> unat (T (?old @ t))" using Suc by simp
  have es: "es @ t = ?new @ (?old @ t)" by (metis append.assoc append_take_drop_id)
  have "T (?old @ t) \<le> T (es @ t)"
    unfolding es by (rule never_backwards_suffix [OF assms(2)]) (simp add: suffix_def)
  moreover have "T (?old @ t) < T (es @ t)" if "unat (T (?old @ t)) < L"
    unfolding es using assms(1) that Suc.prems unfolding advances_def by simp
  ultimately show ?case
    using ih by (cases "unat (T (?old @ t)) < L") (auto simp: word_le_nat_alt word_less_nat_alt)
qed

lemma mtime_attempts_least: "length (io h) + 3 \<le> length (io (snd (mtime_attempts (Suc n) h)))"
proof -
  let ?h3 = "snd (bus_read MTIME_HI (snd (bus_read MTIME_LO (snd (bus_read MTIME_HI h)))))"
  have "length (io ?h3) = length (io h) + 3" by (simp add: bus_read_def Let_def)
  moreover have "length (io ?h3) \<le> length (io (snd (mtime_attempts n ?h3)))"
    by (rule hw_run_length) (rule hw_run_mtime_attempts)
  moreover have "snd (mtime_attempts (Suc n) h) \<in> {?h3, snd (mtime_attempts n ?h3)}"
    by (simp add: case_prod_beta Let_def)
  ultimately show ?thesis by auto
qed

text \<open>One read by the executive, on such a clock: it succeeds, and its value lies between
  the counts before and after it.\<close>

lemma mtime_reads:
  assumes "shows_counter T (hw s)" and "never_backwards T" and "slow_counter T"
  obtains v c h where "obc_mtime_read (Some x) s = (OBC_OK, Some v, s\<lparr>hw := h\<rparr>)" "hw_run (hw s) h"
    "T (io (hw s)) \<le> v" "v \<le> T (io h)" "length (io (hw s)) + 3 \<le> length (io h)" "length (io h) \<le> length (io (hw s)) + 6"
    "v = T c" "suffix (io (hw s)) c" "suffix c (io h)"
proof -
  have n: "MTIME_READ_ATTEMPTS = Suc (Suc 2)" by (simp add: MTIME_READ_ATTEMPTS_def)
  obtain v h where m: "mtime_attempts MTIME_READ_ATTEMPTS (hw s) = (Some v, h)"
    and l: "length (io h) \<le> length (io (hw s)) + 6"
    using mtime_attempts_two [OF assms, of 2] unfolding n by blast
  obtain t where t: "v = T t" "suffix (io (hw s)) t" "suffix t (io h)"
    using mtime_attempts_exact [OF assms(1,2) m] by blast
  have run: "hw_run (hw s) h" using hw_run_mtime_attempts [of "hw s" MTIME_READ_ATTEMPTS] m by simp
  have "length (io (hw s)) + 3 \<le> length (io h)"
    using mtime_attempts_least [of "hw s" "Suc 2"] m unfolding n by simp
  then show thesis
    using that [of v h t] m l run t never_backwards_suffix [OF assms(2)]
    by (simp add: obc_mtime_read_def)
qed

section \<open>The contract, on the bus\<close>

text \<open>What a task does outside the memory of the executive: it only continues the bus, and
  it leaves the boot record alone.\<close>

definition disciplined :: "('a sched_state_scheme \<Rightarrow> 'a sched_state_scheme) \<Rightarrow> bool" where
  "disciplined f \<longleftrightarrow> (\<forall>s. hw_run (hw s) (hw (f s)) \<and> obc_boot_record (f s) = obc_boot_record s)"

text \<open>The same of a step of the executive.\<close>

definition on_bus :: "'a sched_state_scheme \<Rightarrow> 'a sched_state_scheme \<Rightarrow> bool" where
  "on_bus s t \<longleftrightarrow> hw_run (hw s) (hw t) \<and> obc_boot_record t = obc_boot_record s"

lemma on_bus_refl [simp]: "on_bus s s"
  by (simp add: on_bus_def)

lemma on_bus_trans: "on_bus s t \<Longrightarrow> on_bus t u \<Longrightarrow> on_bus s u"
  unfolding on_bus_def using hw_run_trans by metis

named_theorems bus_steps \<open>steps of the executive that stay on the bus\<close>

lemma disciplined_bus [bus_steps]: "disciplined f \<Longrightarrow> on_bus s (f s)"
  by (simp add: disciplined_def on_bus_def)

lemma is_safe_bus [bus_steps]: "on_bus s (snd (obc_mode_is_safe s))"
proof -
  have "obc_boot_record (snd (obc_mode_is_safe s)) = obc_boot_record s"
    by (simp add: obc_mode_is_safe_def split: prod.splits)
  then show ?thesis by (simp add: on_bus_def is_safe_frame)
qed

lemma say_bus [bus_steps]: "on_bus s (say text s)"
  by (simp add: on_bus_def on_hw_def hw_run_puts)

lemma enter_safe_bus [bus_steps]: "on_bus s (obc_mode_enter_safe r s)"
proof (cases "s_announced s = 0")
  case True
  let ?s1 = "s\<lparr>s_announced := 1, crit := obc_critical_set (Some obc_critical_mode) OBC_MODE_SAFE (crit s),
    obc_mode := OBC_MODE_SAFE, obc_safe_reason := r, obc_mode_record := run_stores (mode_stores r) (obc_mode_record s)\<rparr>"
  have "on_bus s ?s1" by (simp add: on_bus_def)
  then have "on_bus s (say crlf (say (reason_text r) (say ''mode   : SAFE, '' ?s1)))"
    using on_bus_trans say_bus by blast
  then show ?thesis using True by (simp add: obc_mode_enter_safe_def Let_def)
qed (simp add: obc_mode_enter_safe_def)

lemma plain_bus [bus_steps]:
  "on_bus s (trace_push i s)" "on_bus s (account i u b s)" "on_bus s (log_suspension x f r s)"
  "on_bus s (s\<lparr>obc_cmd_now_ticks := w\<rparr>)"
  by (simp_all add: on_bus_def trace_push_def account_def log_suspension_def Let_def)

lemma minstret_bus [bus_steps]: "on_bus s (snd (minstret s))"
  using hw_run_read_minstret [of "hw s"] by (cases "read_minstret (hw s)") (simp add: on_bus_def minstret_def)

lemma mtime_bus [bus_steps]: "on_bus s (snd (snd (obc_mtime_read (Some v) s)))"
  using hw_run_mtime_attempts [of "hw s" MTIME_READ_ATTEMPTS]
  by (cases "mtime_attempts MTIME_READ_ATTEMPTS (hw s)")
     (simp add: on_bus_def obc_mtime_read_def split: option.splits)

lemma watchdog_bus [bus_steps]:
  "on_bus s (aon_write off v s)" "on_bus s (obc_recover_feed_hardware s)" "on_bus s (feed_if_earned t f d r s)"
proof -
  show w: "on_bus s (aon_write off v s)" for off v and s :: "'a sched_state_scheme"
    by (simp add: on_bus_def aon_write_def)
  show f: "on_bus s (obc_recover_feed_hardware s)"
    unfolding obc_recover_feed_hardware_def using on_bus_trans w by blast
  then show "on_bus s (feed_if_earned t f d r s)" by (simp add: feed_if_earned_def)
qed

lemma arm_bus [bus_steps]:
  "on_bus s (obc_recover_arm_hardware s)" "length (io (hw (obc_recover_arm_hardware s))) = length (io (hw s)) + 6"
  by (auto simp: on_bus_def obc_recover_arm_hardware_def aon_write_def bus_write_def hw_run_def suffix_ConsI2)

lemma note_slack_bus [bus_steps]: "on_bus s (note_slack frame now deadline s)"
proof (cases "now \<ge> deadline")
  case True
  let ?s1 = "s\<lparr>obc_frame_overruns := obc_frame_overruns s + 1, obc_slack_ticks_min := 0\<rparr>"
  obtain safe s2 where m: "obc_mode_is_safe ?s1 = (safe, s2)" by fastforce
  have "on_bus s ?s1" by (simp add: on_bus_def)
  then have h2: "on_bus s s2" using on_bus_trans is_safe_bus [of ?s1] m by fastforce
  have "on_bus s2 (s2\<lparr>obc_safe_entry_frame := frame\<rparr>)" by (simp add: on_bus_def)
  then have "on_bus s (obc_mode_enter_safe OBC_SAFE_FRAME_OVERRUN (s2\<lparr>obc_safe_entry_frame := frame\<rparr>))"
    using h2 on_bus_trans enter_safe_bus by blast
  then show ?thesis using True m h2 by (simp add: note_slack_def Let_def)
qed (simp add: note_slack_def Let_def on_bus_def)

section \<open>A window on a clock that advances\<close>

definition good_clock :: "nat \<Rightarrow> (io_event list \<Rightarrow> u64) \<Rightarrow> 'a machine_scheme \<Rightarrow> bool" where
  "good_clock L T s \<longleftrightarrow> shows_counter T (hw s) \<and> never_backwards T \<and> slow_counter T \<and> advances L T"

lemma good_clock_bus: "on_bus s t \<Longrightarrow> good_clock L T t = good_clock L T s"
  using shows_counter_run [of "hw s" "hw t" T] by (simp add: good_clock_def on_bus_def)

lemma count_bus: "good_clock L T s \<Longrightarrow> on_bus s t \<Longrightarrow> T (io (hw s)) \<le> T (io (hw t))"
  by (simp add: good_clock_def on_bus_def hw_run_def never_backwards_suffix)

lemma sched_now_good:
  assumes "good_clock L T s"
  obtains v h where "sched_now x frame s = (OBC_OK, v, s\<lparr>hw := h\<rparr>)" "on_bus s (s\<lparr>hw := h\<rparr>)"
    "T (io (hw s)) \<le> v" "v \<le> T (io h)" "length (io (hw s)) + 3 \<le> length (io h)"
    "length (io h) \<le> length (io (hw s)) + 6"
proof -
  obtain v c h where "obc_mtime_read (Some x) s = (OBC_OK, Some v, s\<lparr>hw := h\<rparr>)" "hw_run (hw s) h"
    "T (io (hw s)) \<le> v" "v \<le> T (io h)" "length (io (hw s)) + 3 \<le> length (io h)" "length (io h) \<le> length (io (hw s)) + 6"
    by (rule mtime_reads [of T s x]) (use assms in \<open>auto simp: good_clock_def\<close>)
  then show thesis using that [of v h] by (simp add: sched_now_def on_bus_def)
qed

text \<open>
  The idle loop. Since the history \<open>t0\<close> the guard has counted reads of at least three
  accesses each; 1024 ticks therefore pass before 2796203 of its 8388608 rounds.
\<close>

lemma idle_guard_enough:
  assumes "good_clock L T s" and "suffix t0 (io (hw s))" and "length t0 + 3 * g \<le> length (io (hw s))"
    and "unat deadline \<le> L" and "unat deadline \<le> unat (T t0) + 1024" and "2796203 \<le> g"
  shows "deadline \<le> T (io (hw s))"
proof -
  obtain es where es: "io (hw s) = es @ t0" using assms(2) by (auto simp: suffix_def)
  have "8192 * 1024 \<le> length es" using assms(3,6) es by simp
  moreover have "advances L T" "never_backwards T" using assms(1) by (simp_all add: good_clock_def)
  ultimately have "L \<le> unat (T (es @ t0)) \<or> unat (T t0) + 1024 \<le> unat (T (es @ t0))"
    using advances_by by blast
  then show ?thesis using assms(4,5) es by (auto simp: word_le_nat_alt)
qed

lemma idle_loop_ends:
  assumes "good_clock L T s" and "suffix t0 (io (hw s))" and "length t0 + 3 * unat guard \<le> length (io (hw s))"
    and "unat deadline \<le> L" and "unat deadline \<le> unat (T t0) + 1024" and "unat guard \<le> 2796203"
  shows "\<exists>v s'. idle_loop frame deadline guard now s = (OBC_OK, v, s') \<and> on_bus s s' \<and>
    deadline \<le> v \<and> v \<le> T (io (hw s'))"
  using assms
proof (induction frame deadline guard now s rule: idle_loop.induct)
  case (1 frame deadline guard now s)
  have g: "guard < IDLE_GUARD" "unat (guard + 1) = unat guard + 1"
    using "1.prems"(6) by (simp_all add: IDLE_GUARD_def OBC_FRAME_TICKS_def word_less_nat_alt unat_word_ariths)
  obtain v h where n: "sched_now now frame s = (OBC_OK, v, s\<lparr>hw := h\<rparr>)" and b: "on_bus s (s\<lparr>hw := h\<rparr>)"
    and v: "T (io (hw s)) \<le> v" "v \<le> T (io h)" and l: "length (io (hw s)) + 3 \<le> length (io h)"
    by (rule sched_now_good [OF "1.prems"(1)])
  show ?case
  proof (cases "v \<ge> deadline")
    case True
    then show ?thesis using g(1) n v b by (subst idle_loop.simps) simp
  next
    case False
    have "\<not> deadline \<le> T (io (hw s))" using False v(1) by auto
    then have "unat guard + 1 \<le> 2796203"
      using idle_guard_enough [OF "1.prems"(1,2,3,4,5)] by (cases "2796203 \<le> unat guard") auto
    moreover have "good_clock L T (s\<lparr>hw := h\<rparr>)" using good_clock_bus [OF b] "1.prems"(1) by simp
    moreover have "suffix t0 (io h)"
      using "1.prems"(2) b suffix_order.trans unfolding on_bus_def hw_run_def by auto
    ultimately obtain v' s' where r: "idle_loop frame deadline (guard + 1) v (s\<lparr>hw := h\<rparr>) = (OBC_OK, v', s')"
      "on_bus (s\<lparr>hw := h\<rparr>) s'" "deadline \<le> v'" "v' \<le> T (io (hw s'))"
      using "1.IH" [OF g(1) n [symmetric] refl] False l "1.prems"(3-5) g(2) by auto
    then show ?thesis
      using g(1) n False on_bus_trans [OF b r(2)] by (subst idle_loop.simps) simp
  qed
qed

section \<open>The executive over disciplined tasks\<close>

definition out_of_resets :: "'a recover_state_scheme \<Rightarrow> bool" where
  "out_of_resets s \<longleftrightarrow> OBC_SHORT_BOOT_LIMIT \<le> obc_recover_short_boots s"

lemma out_of_resets_bus: "on_bus s t \<Longrightarrow> out_of_resets t = out_of_resets s"
  by (simp add: on_bus_def out_of_resets_def obc_recover_short_boots_def boot_record_is_intact_def)

locale live_task_set = task_set table for table :: "('a sched_state_scheme) obc_task list" +
  assumes some_task: "table \<noteq> []"
    and disciplined_task: "i < length table \<Longrightarrow> task_fn (table ! i) = Some f \<Longrightarrow> disciplined f"
    and disciplined_reset: "i < length table \<Longrightarrow> reset_fn (table ! i) = Some f \<Longrightarrow> disciplined f"
begin

lemma escalate_bus:
  assumes "i < length table" and "obc_recover_escalate table rung (of_nat i) frame s = (fl, s')"
  shows "fl = Ret () \<Longrightarrow> on_bus s s'" "out_of_resets s \<Longrightarrow> fl = Ret ()"
proof -
  note e = assms(2) [unfolded obc_recover_escalate_def index_nat [OF assms(1)]]
  have fr: "on_bus s (g (say msg (log_suspension x f r s)))" if "reset_fn (table ! i) = Some g" for g msg x f r
    using disciplined_bus [OF disciplined_reset [OF assms(1) that]] say_bus plain_bus(3) on_bus_trans by blast
  have sus: "on_bus s (log_suspension x f r (s\<lparr>s_suspended_task := y, s_suspended_frame := z\<rparr>))" for x f r y z
    by (simp add: on_bus_def log_suspension_def)
  show "fl = Ret () \<Longrightarrow> on_bus s s'"
    using e fr sus enter_safe_bus
    by (auto simp: Let_def obc_reset_now_def split: if_splits option.splits prod.splits)
  show "out_of_resets s \<Longrightarrow> fl = Ret ()"
    using e by (auto simp: out_of_resets_def Let_def split: if_splits option.splits)
qed

lemma dispatch_bus:
  assumes "i < length table" and "dispatch table i frame s = (fl, s')"
  shows "fl = Ret () \<Longrightarrow> on_bus s s'" "out_of_resets s \<Longrightarrow> fl = Ret ()"
proof -
  obtain f where f: "task_fn (table ! i) = Some f" using has_function [OF assms(1)] by auto
  obtain before s1 where s1: "minstret (trace_push i s) = (before, s1)" by fastforce
  obtain after s2 where s2: "minstret (f s1) = (after, s2)" by fastforce
  let ?s3 = "account i (after - before) (budget_instr (table ! i)) s2"
  let ?esc = "obc_recover_escalate table (overrun_rung (table ! i) (ts_overruns (obc_task_state ?s3 ! i))) (of_nat i) frame ?s3"
  have "on_bus s s1" using on_bus_trans [OF plain_bus(1) minstret_bus] s1 by (metis snd_conv)
  moreover have "on_bus s1 s2"
    using on_bus_trans [OF disciplined_bus [OF disciplined_task [OF assms(1) f]] minstret_bus] s2 by (metis snd_conv)
  ultimately have b: "on_bus s ?s3" using plain_bus(2) on_bus_trans by blast
  have d: "(fl, s') = (if after - before > budget_instr (table ! i) then ?esc else (Ret (), ?s3))"
    using assms(2) by (simp add: dispatch_def f s1 s2 Let_def)
  obtain f3 s4 where e: "?esc = (f3, s4)" by fastforce
  show "fl = Ret () \<Longrightarrow> on_bus s s'" "out_of_resets s \<Longrightarrow> fl = Ret ()"
    using d b on_bus_trans [OF b] escalate_bus [OF assms(1) e] out_of_resets_bus [OF b] e
    by (auto split: if_splits)
qed

lemma loop_bus:
  assumes "\<forall>i \<in> set is. i < length table" and "dispatch_loop table frame is d r s = (fl, s')"
  shows "fl \<noteq> Reset \<Longrightarrow> on_bus s s'" "out_of_resets s \<Longrightarrow> fl \<noteq> Reset"
proof -
  have "(fl \<noteq> Reset \<longrightarrow> on_bus s s') \<and> (out_of_resets s \<longrightarrow> fl \<noteq> Reset)"
    using assms
  proof (induction "is" arbitrary: d r s)
    case Nil
    then show ?case by auto
  next
    case (Cons i "is")
    have i: "i < length table" and rest: "\<forall>i \<in> set is. i < length table" using Cons.prems(1) by simp_all
    obtain sf s1 where s1: "obc_mode_is_safe s = (sf, s1)" by fastforce
    have b1: "on_bus s s1" using is_safe_bus [of s] s1 by simp
    obtain f2 s2 where s2: "dispatch table i frame s1 = (f2, s2)" by fastforce
    note d2 = dispatch_bus [OF i s2]
    consider d' r' t where "dispatch_loop table frame is d' r' t = (fl, s')" "on_bus s t"
      | "fl = Reset" "f2 = Reset"
      | "f2 = Ret ()" "dispatch_loop table frame is (d + 1) (r + 1) s2 = (fl, s')"
      using Cons.prems(2) s1 s2 b1 by (auto split: if_splits flow.splits)
    then show ?case
    proof cases
      case 1
      then show ?thesis using Cons.IH [OF rest 1(1)] on_bus_trans out_of_resets_bus by blast
    next
      case 2
      then show ?thesis using d2(2) out_of_resets_bus [OF b1] by auto
    next
      case 3
      have "on_bus s s2" using on_bus_trans [OF b1] d2(1) 3(1) by blast
      then show ?thesis using Cons.IH [OF rest 3(2)] on_bus_trans out_of_resets_bus by blast
    qed
  qed
  then show "fl \<noteq> Reset \<Longrightarrow> on_bus s s'" "out_of_resets s \<Longrightarrow> fl \<noteq> Reset" by blast+
qed

text \<open>One frame: begun after its boundary, it ends after the next one.\<close>

lemma frame_step_ends:
  assumes "good_clock L T s" and "start \<le> T (io (hw s))" and "unat start + 1024 \<le> L" and "L < 2 ^ 64"
    and "frame_step table frame start s = (fl, s')"
  shows "fl \<noteq> Reset \<Longrightarrow> fl = Ret OBC_OK \<and> on_bus s s' \<and> start + ucast OBC_FRAME_TICKS \<le> T (io (hw s'))"
    "out_of_resets s \<Longrightarrow> fl \<noteq> Reset"
proof -
  let ?s0 = "s\<lparr>obc_cmd_now_ticks := ucast start\<rparr>" and ?dl = "start + ucast OBC_FRAME_TICKS"
  have b0: "on_bus s ?s0" by (rule plain_bus(4))
  have dl: "unat ?dl = unat start + 1024"
    using assms(3,4) by (simp add: OBC_FRAME_TICKS_def unat_word_ariths)
  obtain f1 s1 where d: "dispatch_loop table frame [0..<length table] 0 0 ?s0 = (f1, s1)" by fastforce
  have ids: "\<forall>i \<in> set [0..<length table]. i < length table" by simp
  note l = loop_bus [OF ids d]
  have fl: "fl = Ret OBC_OK \<and> on_bus s s' \<and> ?dl \<le> T (io (hw s'))" if f1: "f1 = Ret (nd, nr)" for nd nr
  proof -
    have b1: "on_bus s s1" using on_bus_trans [OF b0] l(1) f1 by simp
    let ?sa = "feed_if_earned table frame nd nr s1"
    have ba: "on_bus s ?sa" using on_bus_trans [OF b1 watchdog_bus(3)] .
    have ga: "good_clock L T ?sa" using good_clock_bus [OF ba] assms(1) by simp
    obtain v h where n: "sched_now 0 frame ?sa = (OBC_OK, v, ?sa\<lparr>hw := h\<rparr>)" and b2: "on_bus ?sa (?sa\<lparr>hw := h\<rparr>)"
      by (rule sched_now_good [OF ga])
    let ?sb = "note_slack frame v ?dl (?sa\<lparr>hw := h\<rparr>)"
    have bb: "on_bus s ?sb" using on_bus_trans [OF on_bus_trans [OF ba b2] note_slack_bus] .
    have gb: "good_clock L T ?sb" using good_clock_bus [OF bb] assms(1) by simp
    have "start \<le> T (io (hw ?sb))" using count_bus [OF assms(1) bb] assms(2) by auto
    then have "unat ?dl \<le> unat (T (io (hw ?sb))) + 1024" using dl by (simp add: word_le_nat_alt)
    from idle_loop_ends [OF gb _ _ _ this, of 0 frame v] obtain v' s3
      where i: "idle_loop frame ?dl 0 v ?sb = (OBC_OK, v', s3)" "on_bus ?sb s3" "?dl \<le> v'" "v' \<le> T (io (hw s3))"
      using dl assms(3) by auto
    have "fl = Ret OBC_OK" "s' = s3\<lparr>obc_frames_run := obc_frames_run s3 + 1\<rparr>"
      using assms(5) d f1 n i(1) linorder_not_less [THEN iffD2, OF i(3)] by (simp_all add: frame_step_def Let_def)
    moreover have "on_bus s3 (s3\<lparr>obc_frames_run := obc_frames_run s3 + 1\<rparr>)" by (simp add: on_bus_def)
    ultimately show ?thesis using on_bus_trans [OF on_bus_trans [OF bb i(2)]] i(3,4) by auto
  qed
  have reset: "fl = Reset" if "f1 = Reset" using assms(5) d that by (simp add: frame_step_def Let_def)
  show "fl \<noteq> Reset \<Longrightarrow> fl = Ret OBC_OK \<and> on_bus s s' \<and> ?dl \<le> T (io (hw s'))"
    using fl reset by (cases f1) auto
  show "out_of_resets s \<Longrightarrow> fl \<noteq> Reset"
    using fl l(2) out_of_resets_bus [OF b0] by (cases f1) auto
qed

lemma frame_loop_ends:
  assumes "good_clock L T s" and "start \<le> T (io (hw s))" and "unat start + 1024 * k \<le> L" and "L < 2 ^ 64"
    and "frame_loop table k frame start s = (fl, s')"
  shows "fl \<in> {Ret OBC_OK, Reset} \<and> (out_of_resets s \<longrightarrow> fl = Ret OBC_OK)"
  using assms(1-3,5)
proof (induction k arbitrary: frame start s)
  case 0
  then show ?case by simp
next
  case (Suc k)
  obtain f1 s1 where f: "frame_step table frame start s = (f1, s1)" by fastforce
  have room: "unat start + 1024 \<le> L" using Suc.prems(3) by simp
  note e = frame_step_ends [OF Suc.prems(1,2) room assms(4) f]
  show ?case
  proof (cases "f1 = Reset")
    case True
    then show ?thesis using Suc.prems(4) f e(2) by auto
  next
    case False
    let ?dl = "start + ucast OBC_FRAME_TICKS"
    note e1 = e(1) [OF False]
    have dl: "unat ?dl = unat start + 1024"
      using room assms(4) by (simp add: OBC_FRAME_TICKS_def unat_word_ariths)
    have g1: "good_clock L T s1" using e1 good_clock_bus Suc.prems(1) by blast
    have "frame_loop table k (frame + 1) ?dl s1 = (fl, s')" using Suc.prems(4) f e1 by simp
    from Suc.IH [OF g1 _ _ this] show ?thesis
      using e1 dl Suc.prems(3) out_of_resets_bus [of s s1] by simp
  qed
qed

lemma run_ends:
  assumes "good_clock L T s" and "unat (T (io (hw s))) + 2 ^ 33 + 1024 * unat frames \<le> L" and "L < 2 ^ 64"
    and "obc_sched_run table frames s = (fl, s')"
  shows "fl \<in> {Ret OBC_OK, Reset} \<and> (out_of_resets s \<longrightarrow> fl = Ret OBC_OK)"
proof -
  let ?a = "obc_recover_arm_hardware s"
  have slow: "unat (T (io (hw t))) < unat (T (io (hw r))) + 2 ^ 32"
    if "on_bus r t" "length (io (hw t)) \<le> length (io (hw r)) + 6" for r t :: "'a sched_state_scheme"
    using that assms(1) unfolding on_bus_def hw_run_def suffix_def good_clock_def slow_counter_def by force
  have ga: "good_clock L T ?a" using good_clock_bus [OF arm_bus(1)] assms(1) by blast
  obtain start h where n: "sched_now 0 0 ?a = (OBC_OK, start, ?a\<lparr>hw := h\<rparr>)" and b1: "on_bus ?a (?a\<lparr>hw := h\<rparr>)"
    and v: "start \<le> T (io h)" and l: "length (io h) \<le> length (io (hw ?a)) + 6"
    by (rule sched_now_good [OF ga])
  have "unat start < unat (T (io (hw s))) + 2 ^ 33"
    using v slow [OF b1] l slow [OF arm_bus(1) [of s]] arm_bus(2) [of s] by (simp add: word_le_nat_alt)
  then have room: "unat start + 1024 * unat frames \<le> L" using assms(2) by simp
  let ?s2 = "?a\<lparr>hw := h, obc_slack_ticks_min := OBC_FRAME_TICKS, obc_window_start_ticks := ucast start\<rparr>"
  obtain safe s3 where m: "obc_mode_is_safe ?s2 = (safe, s3)" by fastforce
  let ?s4 = "if safe \<and> obc_safe_entry_frame s3 = OBC_SAFE_ENTRY_NONE then s3\<lparr>obc_safe_entry_frame := 0\<rparr> else s3"
  have b2: "on_bus (?a\<lparr>hw := h\<rparr>) ?s2" by (simp add: on_bus_def)
  have b3: "on_bus ?s2 s3" using is_safe_bus [of ?s2] m by simp
  have b4: "on_bus s3 ?s4" by (simp add: on_bus_def)
  have h4: "on_bus (?a\<lparr>hw := h\<rparr>) ?s4" using on_bus_trans [OF b2 on_bus_trans [OF b3 b4]] .
  have b: "on_bus s ?s4" using on_bus_trans [OF on_bus_trans [OF arm_bus(1) b1] h4] .
  have g4: "good_clock L T ?s4" using good_clock_bus [OF b] assms(1) by blast
  have t4: "start \<le> T (io (hw ?s4))"
    using v count_bus [of L T "?a\<lparr>hw := h\<rparr>" ?s4] good_clock_bus [OF b1] ga h4 by fastforce
  have nonempty: "\<not> (table = [] \<or> unat OBC_MAX_TASKS < length table)"
    using some_task small by (simp add: OBC_MAX_TASKS_def)
  obtain f1 s1 where w: "frame_loop table (unat frames) 0 start ?s4 = (f1, s1)" by fastforce
  have "run_window table frames ?a = (f1, s1)"
    using nonempty n m w by (simp add: run_window_def Let_def)
  then have "fl = f1" using assms(4) by (cases f1) (auto simp: obc_sched_run_def)
  then show ?thesis
    using frame_loop_ends [OF g4 t4 room assms(3) w] out_of_resets_bus [OF b] by simp
qed

end

section \<open>The flight tasks are disciplined\<close>

lemma disciplined_memory: "(\<And>s. hw (f s) = hw s \<and> obc_boot_record (f s) = obc_boot_record s) \<Longrightarrow> disciplined f"
  by (simp add: disciplined_def)

lemma memory_tasks_disciplined:
  "disciplined task_housekeeping" "disciplined task_audit" "disciplined task_scrub"
  "disciplined obc_tlm_subsystem_reset" "disciplined (\<lambda>s. s\<lparr>cmd_q := obc_cmd_queue_init (cmd_q s)\<rparr>)"
  by (rule disciplined_memory; simp add: task_housekeeping_def task_audit_def work_def task_scrub_def
      obc_tlm_subsystem_reset_def)+

lemma emit_bus: "on_bus s (snd (obc_tlm_emit n s))" for s :: "'a tlm_state_scheme"
proof (cases "s_layout_ok s = 0")
  case True
  then show ?thesis by (simp add: obc_tlm_emit_def)
next
  case False
  obtain st now s1 where m: "obc_mtime_read (Some 0) s = (st, now, s1)" by (metis prod_cases3)
  have b1: "on_bus s s1" using mtime_bus [of s 0] m by simp
  define u where "u = (if st = OBC_OK then ucast (the now AND 0xFFFFFFFF) else 0xFFFFFFFF :: u32)"
  define s2 where "s2 = pack (puts_before_vote n u s1) s1"
  obtain safe s3 where v: "obc_mode_is_safe s2 = (safe, s3)" by fastforce
  have p: "on_bus t (pack ps t)" for ps and t :: "'a tlm_state_scheme" by (simp add: on_bus_def pack_def)
  have b3: "on_bus s s3" using on_bus_trans [OF on_bus_trans [OF b1 p]] is_safe_bus [of s2] v s2_def by fastforce
  define s6 where "s6 = (let s4 = pack (puts_after_vote safe s3) s3;
      s5 = pack [put_u16 OBC_TLM_O_SUM (frame_sum (obc_tlm_frame s4))] s4 in s5\<lparr>obc_tlm_seq := obc_tlm_seq s5 + 1\<rparr>)"
  have "on_bus s3 s6" using on_bus_trans [OF p p] by (simp add: s6_def Let_def on_bus_def)
  then have b6: "on_bus s s6" using on_bus_trans [OF b3] by blast
  obtain w h where d: "obc_uart_downlink_write (Some (obc_tlm_frame s6)) (of_nat OBC_TLM_FRAME_LEN) (hw s6) = (w, h)"
    by fastforce
  have "hw_run (hw s6) h" using hw_run_downlink_write [of "hw s6"] d by (metis snd_conv)
  then have b7: "on_bus s (s6\<lparr>hw := h, obc_tlm_drops := a, obc_tlm_drops_consecutive := b\<rparr>)"
    "on_bus s (s6\<lparr>hw := h, obc_tlm_drops_consecutive := b\<rparr>)" for a b
    using on_bus_trans [OF b6, of "s6\<lparr>hw := h, obc_tlm_drops := a, obc_tlm_drops_consecutive := b\<rparr>"]
      on_bus_trans [OF b6, of "s6\<lparr>hw := h, obc_tlm_drops_consecutive := b\<rparr>"]
    by (simp_all add: on_bus_def)
  show ?thesis
    unfolding obc_tlm_emit_def if_not_P [OF False] m prod.case Let_def u_def [symmetric] s2_def [symmetric] v
    using d b7 on_bus_trans [OF b7(1) say_bus] unfolding s6_def Let_def by (simp split: prod.split)
qed

lemma telemetry_disciplined: "disciplined (task_telemetry n)"
proof -
  have "on_bus s (task_telemetry n s)" for s :: "'a tasks_state_scheme"
  proof -
    have "on_bus s (s\<lparr>sensors := snd (obc_sensor_sample (sensors s))\<rparr>)" by (simp add: on_bus_def)
    then show ?thesis unfolding task_telemetry_def using on_bus_trans emit_bus by blast
  qed
  then show ?thesis by (simp add: disciplined_def on_bus_def)
qed

lemma refuse_bus: "on_bus s (snd (snd (refuse r out s)))"
proof -
  define t where "t = s\<lparr>obc_cmd_rejected := (obc_cmd_rejected s)[r := sat_inc (obc_cmd_rejected s ! r)]\<rparr>"
  have t: "on_bus s t" "on_bus s (t\<lparr>obc_cmd_announced := m\<rparr>)" for m by (simp_all add: t_def on_bus_def)
  have "on_bus s (say crlf (say (s_reason_name ! r) (say ''cmd    : rejected, first '' (t\<lparr>obc_cmd_announced := m\<rparr>))))" for m
    using t(2) [of m] say_bus on_bus_trans by blast
  then show ?thesis using t(1) by (simp add: refuse_def Let_def announce_once_def t_def [symmetric])
qed

lemma ingest_bus:
  assumes "obc_cmd_ingest table fp len reason s = (st, reason', s')"
  shows "on_bus s s'"
proof (cases "s_table_ok s = 0 \<or> fp = None")
  case True
  then show ?thesis using assms ingest_off [OF True] by simp
next
  case False
  then obtain frame where fp: "fp = Some frame" and ok: "s_table_ok s \<noteq> 0" by auto
  have c: "on_bus s (count_examined s)" by (simp add: on_bus_def count_examined_def)
  have a: "on_bus s (accept_frame frame (count_examined s))" by (simp add: on_bus_def count_examined_def accept_frame_def)
  have r: "on_bus s (snd (snd (refuse v reason (count_examined s))))" for v
    using on_bus_trans [OF c refuse_bus] .
  show ?thesis
    using assms a r [of "verdict table frame len s"] unfolding fp ingest_eq [OF ok] Let_def by (auto split: if_splits)
qed

lemma getc_bus: "obc_uart_uplink_getc (Some 0) (hw s) = (st, b, h) \<Longrightarrow> on_bus s (s\<lparr>hw := h\<rparr>)"
  using hw_run_uplink_getc [of "hw s" "Some 0"] by (simp add: on_bus_def)

lemma poll_loop_bus: "on_bus s (snd (poll_loop n table k s))"
proof (induction n arbitrary: k s)
  case 0
  then show ?case by simp
next
  case (Suc n)
  have b: "on_bus s (collected b h s)" if "obc_uart_uplink_getc (Some 0) (hw s) = (st, b, h)" for st b h
    using getc_bus [OF that] by (simp add: on_bus_def collected_def)
  show ?case
  proof (cases rule: poll_loop_turn [of s n table k])
    case (empty st byte h)
    then show ?thesis using getc_bus by simp
  next
    case (byte byte h)
    then show ?thesis using on_bus_trans [OF b [OF byte(1)] Suc.IH] by simp
  next
    case (frame byte h st reason s2)
    have "on_bus s (s2\<lparr>s_fill := 0\<rparr>)"
      using on_bus_trans [OF b [OF frame(1)] ingest_bus [OF frame(3)]] by (simp add: on_bus_def)
    from on_bus_trans [OF this Suc.IH] show ?thesis using frame(4) by simp
  qed
qed

lemma poll_bus: "on_bus s (obc_cmd_poll table s)"
proof -
  obtain k s1 where p: "poll_loop OBC_CMD_RX_BYTES table 0 s = (k, s1)" by fastforce
  have b1: "on_bus s s1" using poll_loop_bus [of s OBC_CMD_RX_BYTES table 0] p by simp
  have "on_bus s (s1\<lparr>s_fill := 0, obc_cmd_examined := sat_inc (obc_cmd_examined s1)\<rparr>)"
    using b1 by (simp add: on_bus_def)
  then show ?thesis using b1 on_bus_trans refuse_bus by (auto simp: obc_cmd_poll_def p) blast
qed

lemma command_disciplined: "disciplined task_command"
proof -
  have "on_bus s (task_command s)" for s :: "'a tasks_state_scheme"
    using poll_bus [of s obc_cmd_table] by (simp add: task_command_def Let_def on_bus_def)
  then show ?thesis by (simp add: disciplined_def on_bus_def)
qed

interpretation live: live_task_set "obc_task_table :: tasks_state obc_task list"
proof unfold_locales
  fix i f
  assume i: "i < length (obc_task_table :: tasks_state obc_task list)"
  then have cases: "i = 0 \<or> i = 1 \<or> i = 2 \<or> i = 3 \<or> i = 4" by (auto simp: obc_task_count_eq)
  show "disciplined f" if "task_fn ((obc_task_table :: tasks_state obc_task list) ! i) = Some f"
    using cases that memory_tasks_disciplined telemetry_disciplined command_disciplined
    by (auto simp: obc_task_table_def)
  show "disciplined f" if "reset_fn ((obc_task_table :: tasks_state obc_task list) ! i) = Some f"
    using cases that memory_tasks_disciplined by (auto simp: obc_task_table_def)
qed (simp add: obc_task_table_def)

section \<open>A steady machine\<close>

text \<open>One tick in eight accesses, up to \<open>2 ^ 40\<close>; ports that take every byte, no uplink.\<close>

definition steady_count :: "io_event list \<Rightarrow> u64" where
  "steady_count es = of_nat (min (length es div 8) (2 ^ 40))"

definition steady_hw :: hw where
  "steady_hw =
     \<lparr>dev = (\<lambda>es a. if a = MTIME_LO then ucast (steady_count es)
                   else if a = MTIME_HI then ucast (drop_bit 32 (steady_count es))
                   else if a = UART1_BASE + UART_RXDATA then UART_RXDATA_EMPTY else 0),
      instret = (\<lambda>_. 0), io = []\<rparr>"

definition steady_tasks :: tasks_state where
  "steady_tasks = ready_tasks\<lparr>hw := steady_hw\<rparr>"

lemma steady_unat: "unat (steady_count es) = min (length es div 8) (2 ^ 40)"
  by (simp add: steady_count_def unat_of_nat take_bit_nat_eq_self)

lemma steady_clock:
  "shows_counter steady_count steady_hw" "never_backwards steady_count" "slow_counter steady_count"
  "advances (2 ^ 40) steady_count"
  by (auto simp: shows_counter_def steady_hw_def MTIME_HI_def MTIME_LO_def never_backwards_def
      slow_counter_def advances_def word_le_nat_alt word_less_nat_alt steady_unat)

lemma steady_tasks_good: "nominal steady_tasks" "wf_trace steady_tasks" "recorded steady_tasks = []"
proof -
  have "kept steady_tasks = kept ready_tasks" by (simp add: steady_tasks_def)
  then show "nominal steady_tasks" "wf_trace steady_tasks" "recorded steady_tasks = []"
    using ready_tasks_good trace_cong [of steady_tasks ready_tasks] by (simp_all add: steady_tasks_def nominal_def)
qed

text \<open>
  C11: a window ends. On a clock that advances at least once in 8192 accesses of the bus,
  with room in the counter, a window of any number of frames ends in \<open>OBC_OK\<close> or in a
  deliberate machine reset, whatever the tasks cost and whatever the other devices answer:
  never in a clock error, and the guard of the idle loop never runs out. Once the count of
  short boots has reached its limit no reset happens either, so the window completes. A
  window that completes ran every frame, and its end is exactly that many frame periods
  after its start.
\<close>

theorem window_completes:
  fixes s :: tasks_state
  assumes "shows_counter T (hw s)" and "never_backwards T" and "slow_counter T"
    and "advances L T" and "L < 2 ^ 64" and "unat (T (io (hw s))) + 2 ^ 33 + 1024 * unat frames \<le> L"
    and "obc_sched_run obc_task_table frames s = (fl, s')"
  shows "fl \<in> {Ret OBC_OK, Reset} \<and>
    (OBC_SHORT_BOOT_LIMIT \<le> obc_recover_short_boots s \<longrightarrow> fl = Ret OBC_OK) \<and>
    (fl = Ret OBC_OK \<longrightarrow> obc_frames_run s' = obc_frames_run s + frames \<and>
       obc_window_end_ticks s' - obc_window_start_ticks s' = frames * 1024)"
proof -
  have g: "good_clock L T s" using assms(1-4) by (simp add: good_clock_def)
  have "obc_frames_run s' = obc_frames_run s + frames \<and>
       obc_window_end_ticks s' - obc_window_start_ticks s' = frames * 1024" if "fl = Ret OBC_OK"
    using flight.run_cadence assms(7) that by (simp add: OBC_FRAME_TICKS_def)
  then show ?thesis
    using live.run_ends [OF g assms(6,5,7)] by (simp add: out_of_resets_def)
qed

theorem window_completes_witness:
  "fst (obc_sched_run obc_task_table 16 steady_tasks) \<in> {Ret OBC_OK, Reset}"
proof -
  have c: "shows_counter steady_count (hw steady_tasks)"
    using steady_clock(1) by (simp add: steady_tasks_def)
  have "unat (steady_count (io (hw steady_tasks))) + 2 ^ 33 + 1024 * unat (16 :: u32) \<le> 2 ^ 40"
    by (simp add: steady_tasks_def steady_hw_def steady_unat)
  from window_completes [OF c steady_clock(2-4) _ this surjective_pairing] show ?thesis by simp
qed

end
