(* ===== verification/Nominal.thy ===== *)
theory Nominal
  imports Live
begin

text \<open>
  The nominal run: on a machine whose ports are calm, whose clock is steady and whose tasks
  keep to their instruction budgets, the executive never degrades, never suspends a task
  and dispatches exactly what the table dictates.
\<close>

section \<open>Calm ports\<close>

definition calm :: "hw \<Rightarrow> bool" where
  "calm h \<longleftrightarrow> port_ready UART0_BASE h \<and> port_ready UART1_BASE h \<and>
     (\<forall>t. dev h t (UART1_BASE + UART_RXDATA) AND UART_RXDATA_EMPTY \<noteq> 0)"

lemma calm_run: "hw_run h h' \<Longrightarrow> calm h \<Longrightarrow> calm h'"
  using port_ready_run [of h h'] by (simp add: calm_def hw_run_def)

text \<open>A step that stays on the bus and spends at most so many accesses.\<close>

definition within :: "nat \<Rightarrow> 'a sched_state_scheme \<Rightarrow> 'a sched_state_scheme \<Rightarrow> bool" where
  "within n s t \<longleftrightarrow> on_bus s t \<and> length (io (hw t)) \<le> length (io (hw s)) + n"

lemma within_trans: "within m s t \<Longrightarrow> within n t u \<Longrightarrow> within (m + n) s u"
  using on_bus_trans by (auto simp: within_def)

lemma within_mono: "within m s t \<Longrightarrow> m \<le> n \<Longrightarrow> within n s t"
  by (simp add: within_def)

lemma within_0: "on_bus s t \<Longrightarrow> io (hw t) = io (hw s) \<Longrightarrow> within 0 s t"
  by (simp add: within_def)

section \<open>What the drivers spend on a calm machine\<close>

lemma port_putc_spends:
  assumes "port_ready base h"
  obtains h' where "port_putc base byte a h = (OBC_OK, a, h')" "length (io h') = length (io h) + 2"
  using assms that by (subst (asm) port_putc_unfold)
    (simp add: port_ready_def bus_read_def bus_write_def Let_def)

lemma downlink_spends:
  "port_ready UART1_BASE h \<Longrightarrow>
   \<exists>h'. downlink_loop bs a h = (OBC_OK, h') \<and> length (io h') = length (io h) + 2 * length bs"
proof (induction bs arbitrary: h)
  case Nil
  then show ?case by simp
next
  case (Cons b bs)
  obtain h1 where p: "port_putc UART1_BASE b a h = (OBC_OK, a, h1)" "length (io h1) = length (io h) + 2"
    by (rule port_putc_spends [OF Cons.prems])
  have "port_ready UART1_BASE h1"
    using port_ready_run [OF hw_run_port_putc [of h UART1_BASE b a]] Cons.prems p(1) by simp
  from Cons.IH [OF this] p show ?case by auto
qed

lemma puts_loop_spends:
  "port_ready UART0_BASE h \<Longrightarrow> length (io (snd (puts_loop i cs h))) \<le> length (io h) + 2 * length cs"
proof (induction cs arbitrary: i h)
  case Nil
  then show ?case by simp
next
  case (Cons c cs)
  obtain h1 where p: "port_putc UART0_BASE (of_char c) OBC_UART_TX_RETRY_TOTAL h = (OBC_OK, OBC_UART_TX_RETRY_TOTAL, h1)"
    "length (io h1) = length (io h) + 2"
    by (rule port_putc_spends [OF Cons.prems])
  have "port_ready UART0_BASE h1"
    using port_ready_run [OF hw_run_port_putc [of h UART0_BASE "of_char c" OBC_UART_TX_RETRY_TOTAL]] Cons.prems p(1)
    by simp
  from Cons.IH [OF this, of "i + 1"] p show ?case by (simp add: obc_uart_putc_def)
qed

lemma say_within: "calm (hw s) \<Longrightarrow> within (2 * length msg) s (say msg s)"
  using puts_loop_spends [of "hw s" 0 msg] say_bus [of s msg]
  by (simp add: within_def calm_def obc_uart_puts_def)

lemma mtime_within: "within 12 s (snd (snd (obc_mtime_read (Some v) s)))"
  using mtime_attempts_length [of MTIME_READ_ATTEMPTS "hw s"] mtime_bus [of s v]
  by (cases "mtime_attempts MTIME_READ_ATTEMPTS (hw s)")
     (auto simp: within_def obc_mtime_read_def MTIME_READ_ATTEMPTS_def split: option.splits)

section \<open>What the tasks spend\<close>

lemma emit_within:
  fixes s :: "'a tlm_state_scheme"
  assumes "calm (hw s)"
  shows "within 194 s (snd (obc_tlm_emit n s))"
proof (cases "s_layout_ok s = 0")
  case True
  then show ?thesis by (simp add: obc_tlm_emit_def within_def)
next
  case False
  obtain st now s1 where m: "obc_mtime_read (Some 0) s = (st, now, s1)" by (metis prod_cases3)
  have b1: "within 12 s s1" using mtime_within [of s 0] m by simp
  define u where "u = (if st = OBC_OK then ucast (the now AND 0xFFFFFFFF) else 0xFFFFFFFF :: u32)"
  define s2 where "s2 = pack (puts_before_vote n u s1) s1"
  obtain safe s3 where v: "obc_mode_is_safe s2 = (safe, s3)" by fastforce
  define s6 where "s6 = (let s4 = pack (puts_after_vote safe s3) s3;
      s5 = pack [put_u16 OBC_TLM_O_SUM (frame_sum (obc_tlm_frame s4))] s4 in s5\<lparr>obc_tlm_seq := obc_tlm_seq s5 + 1\<rparr>)"
  have "hw s3 = hw s2" using is_safe_frame(1) [of s2] v by simp
  then have h6: "hw s6 = hw s1" by (simp add: s6_def s2_def Let_def pack_def)
  have "calm (hw s1)" using b1 calm_run assms by (auto simp: within_def on_bus_def)
  moreover have "unat (of_nat OBC_TLM_FRAME_LEN :: u32) = 91" by code_simp
  ultimately obtain h where d: "obc_uart_downlink_write (Some (obc_tlm_frame s6)) (of_nat OBC_TLM_FRAME_LEN) (hw s6) = (OBC_OK, h)"
    and l: "length (io h) \<le> length (io (hw s1)) + 2 * 91"
    using downlink_spends [of "hw s1" "take (unat (of_nat OBC_TLM_FRAME_LEN :: u32)) (obc_tlm_frame s6)" OBC_UART_TX_RETRY_TOTAL]
    by (auto simp: obc_uart_downlink_write_def h6 calm_def)
  have "hw (snd (obc_tlm_emit n s)) = h"
    unfolding obc_tlm_emit_def if_not_P [OF False] m prod.case Let_def u_def [symmetric] s2_def [symmetric] v
    using d unfolding s6_def Let_def by simp
  then show ?thesis using l b1 emit_bus [of s n] by (simp add: within_def)
qed

lemma telemetry_within: "calm (hw s) \<Longrightarrow> within 194 s (task_telemetry n s)" for s :: "'a tasks_state_scheme"
proof -
  assume c: "calm (hw s)"
  let ?t = "s\<lparr>sensors := snd (obc_sensor_sample (sensors s))\<rparr>"
  have "within 0 s ?t" by (simp add: within_def on_bus_def)
  moreover have "within 194 ?t (snd (obc_tlm_emit n ?t))" using emit_within [of ?t n] c by simp
  ultimately show ?thesis using within_trans [of 0 s ?t 194] by (simp add: task_telemetry_def)
qed

lemma refuse_length_within: "calm (hw s) \<Longrightarrow> within 72 s (snd (snd (refuse OBC_CMD_REJECT_LENGTH out s)))"
proof -
  assume c: "calm (hw s)"
  define t where "t = s\<lparr>obc_cmd_rejected := (obc_cmd_rejected s)[OBC_CMD_REJECT_LENGTH := sat_inc (obc_cmd_rejected s ! OBC_CMD_REJECT_LENGTH)]\<rparr>"
  define t1 where "t1 = t\<lparr>obc_cmd_announced := obc_cmd_announced t OR push_bit OBC_CMD_REJECT_LENGTH 1\<rparr>"
  define t2 where "t2 = say ''cmd    : rejected, first '' t1"
  define t3 where "t3 = say (s_reason_name ! OBC_CMD_REJECT_LENGTH) t2"
  have c1: "within 0 s t" "within 0 s t1" "calm (hw t1)" using c by (simp_all add: within_def on_bus_def t_def t1_def)
  have w2: "within 50 t1 t2" using say_within [OF c1(3), of "''cmd    : rejected, first ''"] by (simp add: t2_def within_def)
  then have c2: "calm (hw t2)" using c1(3) calm_run by (auto simp: within_def on_bus_def)
  have w3: "within 12 t2 t3"
    using say_within [OF c2, of "s_reason_name ! OBC_CMD_REJECT_LENGTH"]
    by (simp add: t3_def within_def s_reason_name_def OBC_CMD_REJECT_LENGTH_def)
  then have c3: "calm (hw t3)" using c2 calm_run by (auto simp: within_def on_bus_def)
  have w4: "within 4 t3 (say crlf t3)" using say_within [OF c3, of crlf] by (simp add: crlf_def)
  have "within (0 + 50 + 12 + 4) s (say crlf t3)"
    using within_trans [OF within_trans [OF within_trans [OF c1(2) w2] w3] w4] .
  then have "within 72 s (say crlf t3)" "within 72 s t" using c1(1) by (simp_all add: within_def)
  then show ?thesis
    unfolding refuse_def Let_def announce_once_def snd_conv t_def [symmetric] t1_def [symmetric] t2_def [symmetric] t3_def [symmetric]
    by simp
qed

lemma poll_within: "calm (hw s) \<Longrightarrow> within 73 s (obc_cmd_poll table s)"
proof -
  assume c: "calm (hw s)"
  obtain h where g: "obc_uart_uplink_getc (Some 0) (hw s) = (OBC_ERR_TIMEOUT, Some 0, h)" "length (io h) = length (io (hw s)) + 1"
    using c by (auto simp: obc_uart_uplink_getc_def calm_def bus_read_def Let_def)
  have n: "OBC_CMD_RX_BYTES = Suc 159" by code_simp
  have p: "poll_loop OBC_CMD_RX_BYTES table 0 s = (0, s\<lparr>hw := h\<rparr>)" unfolding n poll_loop.simps(2) g(1) prod.case by simp
  have b: "on_bus s (s\<lparr>hw := h\<rparr>)" by (rule getc_bus [OF g(1)])
  let ?t = "s\<lparr>hw := h, s_fill := 0, obc_cmd_examined := sat_inc (obc_cmd_examined s)\<rparr>"
  have w: "within 1 s (s\<lparr>hw := h\<rparr>)" "within 1 s ?t" using b g(2) by (simp_all add: within_def on_bus_def)
  have "calm (hw ?t)" using calm_run [of "hw s" h] b c by (simp add: on_bus_def)
  from within_trans [OF w(2) refuse_length_within [OF this]]
  have "within 73 s (snd (snd (refuse OBC_CMD_REJECT_LENGTH None ?t)))" by simp
  then show ?thesis using w(1) within_mono by (auto simp: obc_cmd_poll_def p within_def)
qed

lemma command_within: "calm (hw s) \<Longrightarrow> within 73 s (task_command s)" for s :: "'a tasks_state_scheme"
  using poll_within [of s obc_cmd_table] by (simp add: task_command_def Let_def within_def on_bus_def)

lemma memory_within:
  "within 0 s (task_housekeeping s)" "within 0 s (task_scrub s)" "within 0 s (task_audit s)"
  for s :: "'a tasks_state_scheme"
  by (simp_all add: within_def on_bus_def task_housekeeping_def task_scrub_def task_audit_def work_def)

section \<open>A steady clock and the budgets\<close>

text \<open>At most one tick in four accesses, and 64 ticks of computing between any two of them.\<close>

definition steady :: "(io_event list \<Rightarrow> u64) \<Rightarrow> bool" where
  "steady T \<longleftrightarrow> (\<forall>es t. unat (T (es @ t)) \<le> unat (T t) + length es div 4 + 64)"

lemma steady_slow: "steady T \<Longrightarrow> slow_counter T"
  unfolding steady_def slow_counter_def
proof (intro allI impI)
  fix t es :: "io_event list"
  assume a: "\<forall>es t. unat (T (es @ t)) \<le> unat (T t) + length es div 4 + 64" and "length es \<le> 6"
  then have "unat (T (es @ t)) \<le> unat (T t) + length es div 4 + 64" "length es div 4 \<le> 1" by auto
  then show "unat (T (es @ t)) < unat (T t) + 2 ^ 32" by simp
qed

lemma steady_within:
  assumes "steady T" and "on_bus s t" and "length (io (hw t)) \<le> length (io (hw s)) + n"
  shows "unat (T (io (hw t))) \<le> unat (T (io (hw s))) + n div 4 + 64"
proof -
  obtain es where es: "io (hw t) = es @ io (hw s)" using assms(2) by (auto simp: on_bus_def hw_run_def suffix_def)
  have "unat (T (es @ io (hw s))) \<le> unat (T (io (hw s))) + length es div 4 + 64"
    using assms(1) unfolding steady_def by blast
  moreover have "length es div 4 \<le> n div 4" using assms(3) es by (simp add: div_le_mono)
  ultimately show ?thesis unfolding es by simp
qed

text \<open>The instructions a task retires, as a dispatch measures them, are within its budget.\<close>

definition in_budget :: "('a sched_state_scheme) obc_task \<Rightarrow> 'a sched_state_scheme \<Rightarrow> bool" where
  "in_budget task s \<longleftrightarrow>
     (case task_fn task of
        None \<Rightarrow> True
      | Some f \<Rightarrow>
          (case minstret s of
             (before, s1) \<Rightarrow> fst (minstret (f s1)) - before \<le> budget_instr task))"

definition budgets_kept :: "('a sched_state_scheme) obc_task list \<Rightarrow> hw \<Rightarrow> bool" where
  "budgets_kept table h \<longleftrightarrow> (\<forall>task \<in> set table. \<forall>t. hw_run h (hw t) \<longrightarrow> in_budget task t)"

lemma budgets_run: "hw_run h h' \<Longrightarrow> budgets_kept table h \<Longrightarrow> budgets_kept table h'"
  unfolding budgets_kept_def using hw_run_trans by blast

lemma minstret_within: "within 1 s (snd (minstret s))"
  using minstret_bus [of s] by (cases "read_minstret (hw s)")
    (auto simp: within_def minstret_def read_minstret_def Let_def)

text \<open>How many dispatches were pushed, those the trace had no room for included, and how many
  frames overran.\<close>

definition counts :: "'a sched_state_scheme \<Rightarrow> u32 \<times> u32" where
  "counts s = (obc_trace_len s + obc_trace_overflow s, obc_frame_overruns s)"

lemma counts_memory [simp]:
  "counts (s\<lparr>hw := h\<rparr>) = counts s" "counts (s\<lparr>obc_cmd_now_ticks := w\<rparr>) = counts s"
  "counts (account i u b s) = counts s" "counts (trace_push i s) = (fst (counts s) + 1, snd (counts s))"
  by (simp_all add: counts_def account_def Let_def trace_push_def)

lemma counts_minstret [simp]: "counts (snd (minstret s)) = counts s"
  by (cases "read_minstret (hw s)") (simp add: minstret_def)

lemma counts_is_safe [simp]: "counts (snd (obc_mode_is_safe s)) = counts s"
  unfolding counts_def outside_faults(2,3)
  using arg_cong [OF kept_is_safe(1) [of s], of "\<lambda>k. fst (snd k)"] by (simp only: kept_def fst_conv snd_conv)

lemma counts_feed [simp]: "counts (feed_if_earned t f d r s) = counts s"
  by (simp add: feed_if_earned_def obc_recover_feed_hardware_def aon_write_def)

locale calm_task_set = live_task_set table for table :: "('a sched_state_scheme) obc_task list" +
  fixes cost :: nat
  assumes task_cost: "i < length table \<Longrightarrow> task_fn (table ! i) = Some f \<Longrightarrow> calm (hw s) \<Longrightarrow> within cost s (f s)"
    and cost_fits: "cost \<le> 200"
    and task_faults: "i < length table \<Longrightarrow> task_fn (table ! i) = Some f \<Longrightarrow>
      obc_trace_overflow (f s) = obc_trace_overflow s \<and> obc_frame_overruns (f s) = obc_frame_overruns s"
begin

definition settled :: "'a sched_state_scheme \<Rightarrow> bool" where
  "settled s \<longleftrightarrow> nominal s \<and> unsuspended s \<and> calm (hw s) \<and> budgets_kept table (hw s) \<and> wf_trace s"

lemma settled_step:
  assumes "settled s" and "on_bus s t" and "nominal t" and "quiet t = quiet s" and "wf_trace t"
  shows "settled t"
  using assms calm_run budgets_run unsuspended_cong [OF assms(4)] by (auto simp: settled_def on_bus_def)

lemma dispatch_nominal:
  assumes "i < length table" and "settled s"
  obtains s' where "dispatch table i frame s = (Ret (), s')" "nominal s'" "quiet s' = quiet s" "within (cost + 2) s s'"
    "wf_trace s'" "counts s' = (fst (counts s) + 1, snd (counts s))"
proof -
  obtain f where f: "task_fn (table ! i) = Some f" using has_function [OF assms(1)] by auto
  have wb: "well_behaved f" by (rule task_behaves [OF assms(1) f])
  obtain before s1 where s1: "minstret (trace_push i s) = (before, s1)" by fastforce
  obtain after s2 where s2: "minstret (f s1) = (after, s2)" by fastforce
  let ?s3 = "account i (after - before) (budget_instr (table ! i)) s2"
  have p: "hw_run (hw s) (hw (trace_push i s))" using plain_bus(1) [of s i] by (simp add: on_bus_def)
  have "in_budget (table ! i) (trace_push i s)"
    using assms p unfolding settled_def budgets_kept_def by simp
  then have "\<not> budget_instr (table ! i) < after - before" using f s1 s2 by (simp add: in_budget_def not_less)
  then have d: "dispatch table i frame s = (Ret (), ?s3)" by (simp add: dispatch_def f s1 s2 Let_def)
  have w0: "within 0 s (trace_push i s)" by (rule within_0 [OF plain_bus(1)]) (simp add: trace_push_def)
  have w1: "within 1 (trace_push i s) s1" using minstret_within [of "trace_push i s"] s1 by simp
  have "calm (hw s1)"
    using calm_run assms(2) within_trans [OF w0 w1] by (auto simp: settled_def within_def on_bus_def)
  then have w2: "within cost s1 (f s1)" by (rule task_cost [OF assms(1) f])
  have w3: "within 1 (f s1) s2" using minstret_within [of "f s1"] s2 by simp
  have w4: "within 0 s2 ?s3" by (rule within_0 [OF plain_bus(2)]) (simp add: account_def Let_def)
  have w: "within (cost + 2) s ?s3"
    using within_trans [OF within_trans [OF within_trans [OF within_trans [OF w0 w1] w2] w3] w4]
    by (simp add: add.commute)
  have k1: "quiet s1 = quiet s" "crit s1 = crit s" "s_announced s1 = s_announced s"
    using kept_minstret [of "trace_push i s"] s1 by simp_all
  have k2: "quiet s2 = quiet (f s1)" "crit s2 = crit (f s1)" "s_announced s2 = s_announced (f s1)"
    using kept_minstret [of "f s1"] s2 by simp_all
  have "nominal s1" using mode_cong(1) [of s1 s] k1 assms(2) by (simp add: settled_def)
  then have n: "nominal (f s1)" "quiet (f s1) = quiet s1" using wb by (simp_all add: well_behaved_def)
  have "nominal ?s3" using mode_cong(1) [of ?s3 "f s1"] k2 n(1) by simp
  moreover have "kept ?s3 = kept (trace_push i s)" by (rule dispatch_effect(1) [OF assms(1) d])
  then have "wf_trace ?s3"
    using trace_cong trace_push_recorded(1) assms(2) unfolding settled_def by blast
  moreover have "obc_trace_len (f s1) = obc_trace_len s1" using wb by (simp add: well_behaved_def kept_def)
  then have "counts (f s1) = counts s1" using task_faults [OF assms(1) f, of s1] by (simp add: counts_def)
  then have "counts ?s3 = (fst (counts s) + 1, snd (counts s))"
    using counts_minstret [of "trace_push i s"] counts_minstret [of "f s1"] s1 s2 by simp
  ultimately show thesis using that [OF d _ _ w] k1 k2 n(2) by simp
qed

lemma loop_nominal:
  assumes "\<forall>i \<in> set is. i < length table" and "settled s"
  shows "\<exists>dr s'. dispatch_loop table frame is d r s = (Ret dr, s') \<and> nominal s' \<and> quiet s' = quiet s \<and>
    within (length is * (cost + 2)) s s' \<and> wf_trace s' \<and>
    counts s' = (fst (counts s) + of_nat (length (expected frame is)), snd (counts s))"
  using assms
proof (induction "is" arbitrary: d r s)
  case Nil
  then show ?case by (simp add: settled_def within_def expected_def)
next
  case (Cons i "is")
  have i: "i < length table" and rest: "\<forall>i \<in> set is. i < length table" using Cons.prems(1) by simp_all
  have n: "nominal s" "unsuspended s" using Cons.prems(2) by (simp_all add: settled_def)
  obtain s1 where s1: "nominal s1" "quiet s1 = quiet s" "kept s1 = kept s" "s1 = s \<or> s1 = snd (obc_mode_is_safe s)"
    and turn: "dispatch_loop table frame (i # is) d r s =
      (if task_due table frame i
       then (case dispatch table i frame s1 of
               (Reset, s2) \<Rightarrow> (Reset, s2) | (Ret _, s2) \<Rightarrow> dispatch_loop table frame is (d + 1) (r + 1) s2)
       else dispatch_loop table frame is d r s1)"
    by (rule loop_turn [OF i n]) blast
  have w1: "within 0 s s1" using s1(4) is_safe_bus [of s] is_safe_frame(1) [of s] by (auto simp: within_def)
  have "wf_trace s1" using trace_cong [OF s1(3)] Cons.prems(2) by (simp add: settled_def)
  then have t1: "settled s1" using settled_step [OF Cons.prems(2) _ s1(1,2)] w1 by (simp add: within_def)
  have c1: "counts s1 = counts s" using s1(4) counts_is_safe [of s] by auto
  obtain s2 where s2: "dispatch table i frame s1 = (Ret (), s2)" "nominal s2" "quiet s2 = quiet s1" "within (cost + 2) s1 s2"
    "wf_trace s2" "counts s2 = (fst (counts s1) + 1, snd (counts s1))"
    by (rule dispatch_nominal [OF i t1])
  have t2: "settled s2" using settled_step [OF t1 _ s2(2,3,5)] s2(4) by (simp add: within_def)
  have w2: "within (cost + 2) s s2" using within_trans [OF w1 s2(4)] by simp
  obtain t d' r' where l: "dispatch_loop table frame (i # is) d r s = dispatch_loop table frame is d' r' t"
    and t: "settled t" "quiet t = quiet s" and w: "within (cost + 2) s t"
    and c: "counts t = (fst (counts s) + of_nat (length (expected frame [i])), snd (counts s))"
  proof (cases "task_due table frame i")
    case True
    then have "dispatch_loop table frame (i # is) d r s = dispatch_loop table frame is (d + 1) (r + 1) s2"
      using turn s2(1) by simp
    then show thesis using that t2 s2(3,6) s1(2) w2 c1 True by (simp add: expected_def)
  next
    case False
    then show thesis using that [of d r s1] turn t1 s1(2) w1 c1 by (simp add: within_def expected_def)
  qed
  from Cons.IH [OF rest t(1), of d' r'] obtain dr s' where r: "dispatch_loop table frame is d' r' t = (Ret dr, s')"
    "nominal s'" "quiet s' = quiet t" "within (length is * (cost + 2)) t s'" "wf_trace s'"
    "counts s' = (fst (counts t) + of_nat (length (expected frame is)), snd (counts t))" by blast
  have e: "length (expected frame (i # is)) = length (expected frame [i]) + length (expected frame is)"
    by (simp add: expected_def)
  have "within (length (i # is) * (cost + 2)) s s'" using within_trans [OF w r(4)] by (simp add: algebra_simps)
  moreover have "counts s' = (fst (counts s) + of_nat (length (expected frame (i # is))), snd (counts s))"
    unfolding e r(6) c by simp
  ultimately show ?case unfolding l r(1) using r(2,3,5) t(2) by simp
qed

text \<open>The idle loop reads the clock and nothing else, and stops soon after the boundary.\<close>

lemma idle_loop_nominal:
  assumes "good_clock L T s" and "steady T" and "unat (T (io (hw s))) \<le> unat deadline + 65"
    and "idle_loop frame deadline guard now s = (OBC_OK, v, s')"
  shows "s' = s\<lparr>hw := hw s'\<rparr> \<and> on_bus s s' \<and> unat (T (io (hw s'))) \<le> unat deadline + 130"
  using assms
proof (induction frame deadline guard now s rule: idle_loop.induct)
  case (1 frame deadline guard now s)
  show ?case
  proof (cases "guard < IDLE_GUARD")
    case False
    then show ?thesis using "1.prems"(3,4) by (subst (asm) idle_loop.simps) auto
  next
    case True
    obtain w h where n: "sched_now now frame s = (OBC_OK, w, s\<lparr>hw := h\<rparr>)" and b: "on_bus s (s\<lparr>hw := h\<rparr>)"
      and w: "T (io (hw s)) \<le> w" "w \<le> T (io h)" and l: "length (io h) \<le> length (io (hw s)) + 6"
      by (rule sched_now_good [OF "1.prems"(1)])
    have t: "unat (T (io h)) \<le> unat (T (io (hw s))) + 65"
      using steady_within [OF "1.prems"(2) b, of 6] l by simp
    show ?thesis
    proof (cases "deadline \<le> w")
      case past: True
      then show ?thesis using "1.prems"(3,4) True n b t by (subst (asm) idle_loop.simps) auto
    next
      case False
      then have "idle_loop frame deadline (guard + 1) w (s\<lparr>hw := h\<rparr>) = (OBC_OK, v, s')"
        using "1.prems"(4) True n by (subst (asm) idle_loop.simps) auto
      moreover have "unat (T (io h)) \<le> unat deadline + 65"
        using t w False by (auto simp: word_le_nat_alt)
      moreover have "good_clock L T (s\<lparr>hw := h\<rparr>)" using good_clock_bus [OF b] "1.prems"(1) by simp
      ultimately have "s' = s\<lparr>hw := h\<rparr>\<lparr>hw := hw s'\<rparr> \<and> on_bus (s\<lparr>hw := h\<rparr>) s' \<and> unat (T (io (hw s'))) \<le> unat deadline + 130"
        using "1.IH" [OF True n [symmetric] refl _ False] "1.prems"(2) by simp
      then show ?thesis using on_bus_trans [OF b] by simp
    qed
  qed
qed

text \<open>The busy part of a nominal frame: dispatches, feed, clock and slack, done well before the deadline.\<close>

lemma frame_work_nominal:
  assumes "good_clock L T s" and "steady T" and "unat (T (io (hw s))) \<le> unat start + 130"
    and "unat start + 1024 \<le> L" and "L < 2 ^ 64" and "settled s"
  obtains nd nr s1 v h sb where
    "dispatch_loop table frame [0..<length table] 0 0 (s\<lparr>obc_cmd_now_ticks := ucast start\<rparr>) = (Ret (nd, nr), s1)"
    "sched_now 0 frame (feed_if_earned table frame nd nr s1) =
      (OBC_OK, v, (feed_if_earned table frame nd nr s1)\<lparr>hw := h\<rparr>)"
    "sb = note_slack frame v (start + ucast OBC_FRAME_TICKS) ((feed_if_earned table frame nd nr s1)\<lparr>hw := h\<rparr>)"
    "on_bus s sb" "nominal sb" "quiet sb = quiet s" "wf_trace sb"
    "counts sb = (fst (counts s) + of_nat (length (expected frame [0..<length table])), snd (counts s))"
    "unat (T (io (hw sb))) \<le> unat (start + ucast OBC_FRAME_TICKS) + 65"
proof -
  let ?s0 = "s\<lparr>obc_cmd_now_ticks := ucast start\<rparr>" and ?dl = "start + ucast OBC_FRAME_TICKS"
  have dl: "unat ?dl = unat start + 1024"
    using assms(4,5) by (simp add: OBC_FRAME_TICKS_def unat_word_ariths)
  have w0: "within 0 s ?s0" by (rule within_0 [OF plain_bus(4)]) simp
  have set0: "settled ?s0"
    using settled_step [OF assms(6) plain_bus(4)] assms(6) by (simp add: settled_def start_of_frame)
  have ids: "\<forall>i \<in> set [0..<length table]. i < length table" by simp
  obtain dr s1 where d: "dispatch_loop table frame [0..<length table] 0 0 ?s0 = (Ret dr, s1)"
    and s1: "nominal s1" "quiet s1 = quiet ?s0" "wf_trace s1"
      "counts s1 = (fst (counts ?s0) + of_nat (length (expected frame [0..<length table])), snd (counts ?s0))"
    and w1: "within (length [0..<length table] * (cost + 2)) ?s0 s1"
    using loop_nominal [OF ids set0] by blast
  obtain nd nr where dr: "dr = (nd, nr)" by fastforce
  have "length table * (cost + 2) \<le> 8 * 202" by (rule mult_le_mono) (use small cost_fits in simp_all)
  then have w1: "within 1616 s s1" using within_mono [OF within_trans [OF w0 w1], of 1616] by simp
  let ?sa = "feed_if_earned table frame nd nr s1"
  have "length (io (hw ?sa)) \<le> length (io (hw s1)) + 2"
    by (simp add: feed_if_earned_def obc_recover_feed_hardware_def aon_write_def bus_write_def)
  then have "within 2 s1 ?sa" unfolding within_def using watchdog_bus(3) by blast
  then have wa: "within 1618 s ?sa" using within_trans [OF w1] by fastforce
  have ga: "good_clock L T ?sa" using good_clock_bus wa assms(1) by (auto simp: within_def)
  have ta: "unat (T (io (hw ?sa))) \<le> unat start + 598"
    using steady_within [OF assms(2), of s ?sa 1618] wa assms(3) by (simp add: within_def)
  obtain v h where n: "sched_now 0 frame ?sa = (OBC_OK, v, ?sa\<lparr>hw := h\<rparr>)" and b2: "on_bus ?sa (?sa\<lparr>hw := h\<rparr>)"
    and v: "T (io (hw ?sa)) \<le> v" "v \<le> T (io h)" and l: "length (io h) \<le> length (io (hw ?sa)) + 6"
    by (rule sched_now_good [OF ga])
  have th: "unat (T (io h)) \<le> unat start + 663"
    using steady_within [OF assms(2) b2, of 6] l ta by simp
  then have early: "\<not> ?dl \<le> v" using v(2) dl by (simp add: word_le_nat_alt)
  define sb where "sb = note_slack frame v ?dl (?sa\<lparr>hw := h\<rparr>)"
  have same: "quiet sb = quiet ?sa" "crit sb = crit s1" "s_announced sb = s_announced s1" "hw sb = h" "counts sb = counts ?sa"
    using early by (simp_all add: sb_def note_slack_def Let_def quiet_def counts_def)
  have "holds_on (?sa\<lparr>hw := h\<rparr>) sb" unfolding sb_def by (rule note_slack_holds)
  then have "kept sb = kept s1" by (simp add: holds_on_def)
  then have tb: "wf_trace sb" using trace_cong s1(3) by blast
  have bs: "on_bus s ?sa" using wa by (simp add: within_def)
  have bsb: "on_bus s sb" unfolding sb_def using on_bus_trans [OF on_bus_trans [OF bs b2] note_slack_bus] .
  show thesis
    by (rule that [OF d [unfolded dr] n sb_def bsb _ _ tb])
      (use same s1 mode_cong(1) [of sb s1] th dl in \<open>simp_all add: start_of_frame\<close>)
qed

lemma frame_step_nominal:
  assumes "good_clock L T s" and "steady T" and "start \<le> T (io (hw s))" and "unat (T (io (hw s))) \<le> unat start + 130"
    and "unat start + 1024 \<le> L" and "L < 2 ^ 64" and "settled s"
  obtains s' where "frame_step table frame start s = (Ret OBC_OK, s')" "settled s'" "quiet s' = quiet s" "on_bus s s'"
    "start + ucast OBC_FRAME_TICKS \<le> T (io (hw s'))" "unat (T (io (hw s'))) \<le> unat (start + ucast OBC_FRAME_TICKS) + 130"
    "counts s' = (fst (counts s) + of_nat (length (expected frame [0..<length table])), snd (counts s))"
proof -
  let ?dl = "start + ucast OBC_FRAME_TICKS"
  obtain nd nr s1 v h sb where
    d: "dispatch_loop table frame [0..<length table] 0 0 (s\<lparr>obc_cmd_now_ticks := ucast start\<rparr>) = (Ret (nd, nr), s1)"
    and n: "sched_now 0 frame (feed_if_earned table frame nd nr s1) =
      (OBC_OK, v, (feed_if_earned table frame nd nr s1)\<lparr>hw := h\<rparr>)"
    and sb_def: "sb = note_slack frame v ?dl ((feed_if_earned table frame nd nr s1)\<lparr>hw := h\<rparr>)"
    and bsb: "on_bus s sb" and sb: "nominal sb" "quiet sb = quiet s" "wf_trace sb"
      "counts sb = (fst (counts s) + of_nat (length (expected frame [0..<length table])), snd (counts s))"
    and tb: "unat (T (io (hw sb))) \<le> unat ?dl + 65"
    by (rule frame_work_nominal [OF assms(1,2,4-7)])
  have gb: "good_clock L T sb" using good_clock_bus [OF bsb] assms(1) by simp
  obtain fl s' where f: "frame_step table frame start s = (fl, s')" by fastforce
  have fs: "(fl, s') = (case idle_loop frame ?dl 0 v sb of (st', now', s3) \<Rightarrow>
      if st' \<noteq> OBC_OK then (Ret st', s3) else if now' < ?dl then (Ret OBC_ERR_TIMEOUT, s3)
      else (Ret OBC_OK, s3\<lparr>obc_frames_run := obc_frames_run s3 + 1\<rparr>))"
    using f d n by (simp add: frame_step_def Let_def sb_def)
  then have "fl \<noteq> Reset" by (auto split: prod.splits if_splits)
  from frame_step_ends(1) [OF assms(1,3,5,6) f this]
  have ok: "fl = Ret OBC_OK" "on_bus s s'" "?dl \<le> T (io (hw s'))" by simp_all
  obtain v' s3 where i: "idle_loop frame ?dl 0 v sb = (OBC_OK, v', s3)" "s' = s3\<lparr>obc_frames_run := obc_frames_run s3 + 1\<rparr>"
    using fs ok(1) by (auto split: prod.splits if_splits)
  note e = idle_loop_nominal [OF gb assms(2) tb i(1)]
  have s3: "s3 = sb\<lparr>hw := hw s3\<rparr>" using e by blast
  have "nominal s3 = nominal sb" "quiet s3 = quiet sb" "counts s3 = counts sb" "wf_trace s3 = wf_trace sb"
    by (subst s3, simp add: nominal_def) (subst s3, simp, subst s3, simp, subst s3, simp add: wf_trace_def)
  then have "nominal s'" "quiet s' = quiet s" "wf_trace s'" "counts s' = counts sb"
    using sb mode_cong(1) [of s' s3] i(2) by (simp_all add: quiet_def wf_trace_def counts_def)
  then show thesis
    using that [of s'] f ok e i(2) sb(4) settled_step [OF assms(7) ok(2)] by simp
qed

lemma frame_loop_nominal:
  assumes "good_clock L T s" and "steady T" and "start \<le> T (io (hw s))" and "unat (T (io (hw s))) \<le> unat start + 130"
    and "unat start + 1024 * k \<le> L" and "L < 2 ^ 64" and "settled s"
  shows "\<exists>s'. frame_loop table k frame start s = (Ret OBC_OK, s') \<and> settled s' \<and> quiet s' = quiet s \<and>
    counts s' = (fst (counts s) + of_nat (length (schedule k frame)), snd (counts s))"
  using assms
proof (induction k arbitrary: frame start s)
  case 0
  let ?t = "s\<lparr>obc_window_end_ticks := ucast start\<rparr>"
  have "settled ?t"
    by (rule settled_step [OF 0(7)]) (use 0(7) in \<open>simp_all add: on_bus_def settled_def end_of_window quiet_def wf_trace_def\<close>)
  then show ?case by (simp add: quiet_def counts_def schedule_def)
next
  case (Suc k)
  have room: "unat start + 1024 \<le> L" using Suc.prems(5) by simp
  obtain s1 where f: "frame_step table frame start s = (Ret OBC_OK, s1)" "settled s1" "quiet s1 = quiet s" "on_bus s s1"
    "start + ucast OBC_FRAME_TICKS \<le> T (io (hw s1))" "unat (T (io (hw s1))) \<le> unat (start + ucast OBC_FRAME_TICKS) + 130"
    "counts s1 = (fst (counts s) + of_nat (length (expected frame [0..<length table])), snd (counts s))"
    by (rule frame_step_nominal [OF Suc.prems(1-4) room Suc.prems(6,7)])
  have dl: "unat (start + ucast OBC_FRAME_TICKS) = unat start + 1024"
    using room Suc.prems(6) by (simp add: OBC_FRAME_TICKS_def unat_word_ariths)
  have "good_clock L T s1" using good_clock_bus [OF f(4)] Suc.prems(1) by simp
  from Suc.IH [OF this Suc.prems(2) f(5,6) _ Suc.prems(6) f(2), of "frame + 1"] show ?case
    using f(1,3,7) dl Suc.prems(5) by (auto simp: schedule_Suc add.assoc)
qed

lemma run_nominal:
  assumes "good_clock L T s" and "steady T" and "unat (T (io (hw s))) + 2 ^ 33 + 1024 * unat frames \<le> L" and "L < 2 ^ 64"
    and "settled s"
  shows "\<exists>s'. obc_sched_run table frames s = (Ret OBC_OK, s') \<and> settled s' \<and> quiet s' = quiet s \<and>
    counts s' = (fst (counts s) + of_nat (length (schedule (unat frames) 0)), snd (counts s))"
proof -
  let ?a = "obc_recover_arm_hardware s"
  have na: "nominal ?a" "quiet ?a = quiet s" "wf_trace ?a" "counts ?a = counts s"
    using assms(5) mode_cong(1) [of ?a s] trace_cong [OF watchdog_frame(3) [of s]]
    by (auto simp: settled_def obc_recover_arm_hardware_def aon_write_def)
  have sa: "settled ?a" by (rule settled_step [OF assms(5) arm_bus(1) na(1-3)])
  have ga: "good_clock L T ?a" using good_clock_bus [OF arm_bus(1)] assms(1) by blast
  obtain start h where n: "sched_now 0 0 ?a = (OBC_OK, start, ?a\<lparr>hw := h\<rparr>)" and b1: "on_bus ?a (?a\<lparr>hw := h\<rparr>)"
    and v: "T (io (hw ?a)) \<le> start" "start \<le> T (io h)" and l: "length (io h) \<le> length (io (hw ?a)) + 6"
    by (rule sched_now_good [OF ga])
  have t: "unat (T (io h)) \<le> unat (T (io (hw ?a))) + 65" using steady_within [OF assms(2) b1, of 6] l by simp
  have "unat (T (io (hw ?a))) \<le> unat (T (io (hw s))) + 65"
    using steady_within [OF assms(2) arm_bus(1) [of s], of 6] arm_bus(2) [of s] by simp
  then have room: "unat start + 1024 * unat frames \<le> L"
    using assms(3) t v(2) by (simp add: word_le_nat_alt)
  let ?s2 = "?a\<lparr>hw := h, obc_slack_ticks_min := OBC_FRAME_TICKS, obc_window_start_ticks := ucast start\<rparr>"
  have n2: "nominal ?s2" "quiet ?s2 = quiet ?a" "wf_trace ?s2" "counts ?s2 = counts ?a"
    using na(1,3) by (simp_all add: nominal_def quiet_def wf_trace_def counts_def)
  obtain safe s3 where m: "obc_mode_is_safe ?s2 = (safe, s3)" by fastforce
  have m3: "\<not> safe" "nominal s3" "quiet s3 = quiet ?s2" "hw s3 = h" "wf_trace s3" "counts s3 = counts ?s2"
    using nominal_is_safe [OF n2(1)] kept_is_safe(2) [of ?s2] is_safe_frame(1) [of ?s2]
      trace_cong [OF kept_is_safe(1) [of ?s2]] counts_is_safe [of ?s2] n2(3) m by simp_all
  have "on_bus ?s2 s3" using is_safe_bus [of ?s2] m by simp
  moreover have "on_bus ?a ?s2" using b1 by (simp add: on_bus_def)
  ultimately have b3: "on_bus ?a s3" by (rule on_bus_trans [rotated])
  have s3: "settled s3" using settled_step [OF sa b3 m3(2) _ m3(5)] m3(3) n2(2) by simp
  have g3: "good_clock L T s3" using good_clock_bus [OF b3] ga by simp
  have t3: "start \<le> T (io (hw s3))" "unat (T (io (hw s3))) \<le> unat start + 130"
    using v t m3(4) by (simp_all add: word_le_nat_alt)
  obtain s4 where w: "frame_loop table (unat frames) 0 start s3 = (Ret OBC_OK, s4)" "settled s4" "quiet s4 = quiet s3"
    "counts s4 = (fst (counts s3) + of_nat (length (schedule (unat frames) 0)), snd (counts s3))"
    using frame_loop_nominal [OF g3 assms(2) t3 room assms(4) s3] by blast
  have nonempty: "\<not> (table = [] \<or> unat OBC_MAX_TASKS < length table)"
    using some_task small by (simp add: OBC_MAX_TASKS_def)
  have r: "run_window table frames ?a = (Ret OBC_OK, s4)"
    using nonempty n m w m3(1) by (simp add: run_window_def Let_def)
  let ?d = "obc_recover_disarm_hardware s4"
  have d: "on_bus s4 ?d" "nominal ?d" "quiet ?d = quiet s4" "wf_trace ?d" "counts ?d = counts s4"
    using w(2) mode_cong(1) [of ?d s4] trace_cong [OF watchdog_frame(4) [of s4]]
    by (auto simp: settled_def obc_recover_disarm_hardware_def aon_write_def on_bus_def bus_write_def hw_run_def suffix_ConsI2)
  have "settled ?d" by (rule settled_step [OF w(2) d(1-4)])
  then show ?thesis using r w(3,4) m3(3,6) n2(2,4) na(2,4) d(3,5) by (simp add: obc_sched_run_def)
qed

text \<open>And therefore dispatches exactly the schedule.\<close>

lemma run_exact:
  assumes "good_clock L T s" and "steady T" and "unat (T (io (hw s))) + 2 ^ 33 + 1024 * unat frames \<le> L" and "L < 2 ^ 64"
    and "settled s" and "obc_suspension_count s = 0"
  shows "\<exists>s'. obc_sched_run table frames s = (Ret OBC_OK, s') \<and> settled s' \<and> quiet s' = quiet s \<and>
    recorded s' = take 256 (recorded s @ schedule (unat frames) 0) \<and>
    counts s' = (fst (counts s) + of_nat (length (schedule (unat frames) 0)), snd (counts s))"
proof -
  obtain s' where r: "obc_sched_run table frames s = (Ret OBC_OK, s')" "settled s'" "quiet s' = quiet s"
    "counts s' = (fst (counts s) + of_nat (length (schedule (unat frames) 0)), snd (counts s))"
    using run_nominal [OF assms(1-5)] by blast
  have n: "nominal s'" using r(2) by (simp add: settled_def)
  have c: "obc_suspension_count s' = 0" using r(3) assms(6) by (simp add: quiet_def)
  have "\<not> spoiled s'" using n c nominal_is_safe [of s'] degraded_is_safe [of s'] by (auto simp: spoiled_def)
  from run_conforms [OF r(1) _ _ _ this] show ?thesis
    using assms(5) r by (auto simp: settled_def)
qed

end

section \<open>The flight run\<close>

interpretation nominal_flight: calm_task_set "obc_task_table :: tasks_state obc_task list" 194
proof unfold_locales
  fix i f and s :: tasks_state
  assume i: "i < length (obc_task_table :: tasks_state obc_task list)" and c: "calm (hw s)"
    and f: "task_fn ((obc_task_table :: tasks_state obc_task list) ! i) = Some f"
  have "i = 0 \<or> i = 1 \<or> i = 2 \<or> i = 3 \<or> i = 4" using i by (auto simp: obc_task_count_eq)
  then have "f = task_housekeeping \<or> f = task_telemetry 5 \<or> f = task_scrub \<or> f = task_audit \<or> f = task_command"
    using f by (auto simp: obc_task_table_def)
  then show "within 194 s (f s)"
    using memory_within [of s] telemetry_within [OF c] command_within [OF c]
    by (auto simp: within_def)
next
  fix i f and s :: tasks_state
  assume i: "i < length (obc_task_table :: tasks_state obc_task list)"
    and f: "task_fn ((obc_task_table :: tasks_state obc_task list) ! i) = Some f"
  have "i = 0 \<or> i = 1 \<or> i = 2 \<or> i = 3 \<or> i = 4" using i by (auto simp: obc_task_count_eq)
  then have "f = task_housekeeping \<or> f = task_telemetry 5 \<or> f = task_scrub \<or> f = task_audit \<or> f = task_command"
    using f by (auto simp: obc_task_table_def)
  then show "obc_trace_overflow (f s) = obc_trace_overflow s \<and> obc_frame_overruns (f s) = obc_frame_overruns s"
    using telemetry_faults [of 5 s] outside_faults(1) [OF command_outside [of s]]
    by (auto simp: task_housekeeping_def task_scrub_def task_audit_def work_def)
qed simp

text \<open>
  C10: the nominal window is the table. On a machine whose clock is steady (at most one tick
  in four accesses and 64 ticks of computing between any two, at least one in 8192), whose
  ports take every byte and whose uplink is silent, whose tasks keep to their instruction
  budgets, a window that starts nominal with nothing suspended returns \<open>OBC_OK\<close>, is still
  nominal, has suspended nothing and overrun no frame, and has appended to the trace exactly the dispatches of
  the table, in table order, frame by frame: housekeeping and command in every frame,
  telemetry in every second, scrub in every fourth, audit in every eighth.
\<close>

theorem nominal_window_is_the_table:
  fixes s :: tasks_state
  assumes "shows_counter T (hw s)" and "never_backwards T" and "steady T" and "advances L T" and "L < 2 ^ 64"
    and "unat (T (io (hw s))) + 2 ^ 33 + 1024 * unat frames \<le> L"
    and "calm (hw s)" and "budgets_kept (obc_task_table :: tasks_state obc_task list) (hw s)"
    and "nominal s" and "\<forall>i < 5. s_suspended_task s \<noteq> of_nat i" and "obc_suspension_count s = 0" and "wf_trace s"
  shows "\<exists>s'. obc_sched_run obc_task_table frames s = (Ret OBC_OK, s') \<and>
    \<not> fst (obc_mode_is_safe s') \<and> obc_suspension_count s' = 0 \<and>
    obc_frames_run s' = obc_frames_run s + frames \<and> obc_frame_overruns s' = obc_frame_overruns s \<and>
    recorded s' = take 256 (recorded s @ concat (map due_in_frame [0..<unat frames]))"
proof -
  have g: "good_clock L T s" using assms(1-4) steady_slow by (simp add: good_clock_def)
  have "nominal_flight.settled s"
    unfolding nominal_flight.settled_def flight.unsuspended_def using assms(7-10,12) by (simp add: obc_task_count_eq)
  from nominal_flight.run_exact [OF g assms(3,6,5) this assms(11)] obtain s'
    where r: "obc_sched_run obc_task_table frames s = (Ret OBC_OK, s')" "nominal s'" "quiet s' = quiet s"
      "recorded s' = take 256 (recorded s @ flight.schedule (unat frames) 0)"
      "counts s' = (fst (counts s) + of_nat (length (flight.schedule (unat frames) 0)), snd (counts s))"
    unfolding nominal_flight.settled_def by blast
  then show ?thesis
    using nominal_is_safe [OF r(2)] flight.run_cadence [OF r(1)] assms(11)
    by (simp add: flight_schedule quiet_def counts_def)
qed

lemma steady_steady: "steady steady_count"
  unfolding steady_def
proof (intro allI)
  fix es t :: "io_event list"
  have "length (es @ t) div 8 \<le> length t div 8 + length es div 8 + 1" by simp
  moreover have "length es div 8 \<le> length es div 4" by (rule div_le_mono2) simp_all
  moreover have "min a m \<le> min b m + d + 64" if "a \<le> b + c + 1" "c \<le> d" for a b c d m :: nat
    using that by linarith
  ultimately show "unat (steady_count (es @ t)) \<le> unat (steady_count t) + length es div 4 + 64"
    unfolding steady_unat by blast
qed

lemma steady_calm: "calm steady_hw"
  by (simp add: calm_def port_ready_def steady_hw_def MTIME_LO_def MTIME_HI_def UART0_BASE_def UART1_BASE_def
      UART_TXDATA_def UART_RXDATA_def UART_RXDATA_EMPTY_def)

text \<open>No instruction is retired on it, as far as the counter shows, so no budget is overrun.\<close>

lemma still_budgets:
  assumes "instret h = (\<lambda>_. 0)"
  shows "budgets_kept (obc_task_table :: tasks_state obc_task list) h"
  unfolding budgets_kept_def
proof (intro ballI allI impI)
  fix task :: "tasks_state obc_task" and t :: tasks_state
  assume task: "task \<in> set obc_task_table" and run: "hw_run h (hw t)"
  then obtain i where i: "i < length (obc_task_table :: tasks_state obc_task list)" "task = obc_task_table ! i"
    unfolding in_set_conv_nth by auto
  have zero: "fst (minstret u) = 0" if "hw_run h (hw u)" for u :: tasks_state
  proof -
    have "instret (hw u) = (\<lambda>_. 0)" using that assms by (simp add: hw_run_def)
    then show ?thesis by (simp add: minstret_def read_minstret_def Let_def)
  qed
  show "in_budget task t"
  proof (cases "task_fn task")
    case None
    then show ?thesis by (simp add: in_budget_def)
  next
    case (Some f)
    obtain b s1 where m: "minstret t = (b, s1)" by fastforce
    have "hw_run (hw t) (hw s1)" using minstret_bus [of t] m by (simp add: on_bus_def)
    moreover have "hw_run (hw s1) (hw (f s1))"
      using live.disciplined_task [of i f] i Some by (simp add: disciplined_def)
    ultimately have "hw_run h (hw (f s1))" using run hw_run_trans by blast
    then show ?thesis using zero [of "f s1"] zero [OF run] m Some by (simp add: in_budget_def)
  qed
qed

lemma steady_budgets: "budgets_kept (obc_task_table :: tasks_state obc_task list) steady_hw"
  by (rule still_budgets) (simp add: steady_hw_def)

lemma steady_unsuspended: "\<forall>i < 5. s_suspended_task steady_tasks \<noteq> of_nat i" "obc_suspension_count steady_tasks = 0"
proof -
  let ?s = "tlm_state.extend ready_tlm (tasks_state.fields 0)"
  have q: "quiet (obc_mode_restore c s) = quiet s" for c and s :: "'b sched_state_scheme"
    by (simp add: obc_mode_restore_def Let_def) (simp add: quiet_def)
  have "quiet steady_tasks = quiet ?s" using q [of 3 ?s] by (simp add: steady_tasks_def ready_tasks_def)
  moreover have "quiet ?s = (0xFFFFFFFF, 0xFFFFFFFF, 0)"
    by (simp add: quiet_def tlm_state.defs tasks_state.defs ready_tlm_def cold_tlm_def cold_sched_def sched_state.defs
        cmd_state.defs ready_cmd_def cold_cmd_def cold_recover_def recover_state.defs mode_state.defs cold_machine_def obc_cmd_init_def)
  ultimately have s: "s_suspended_task steady_tasks = 0xFFFFFFFF" and c: "obc_suspension_count steady_tasks = 0"
    by (simp_all add: quiet_def)
  have "unat (of_nat i :: u32) = i" if "i < 5" for i using that by (simp add: unat_of_nat take_bit_nat_eq_self)
  then show "\<forall>i < 5. s_suspended_task steady_tasks \<noteq> of_nat i" unfolding s by (auto dest!: arg_cong [of _ _ unat])
  show "obc_suspension_count steady_tasks = 0" by (rule c)
qed

theorem nominal_window_is_the_table_witness:
  "\<exists>s'. obc_sched_run obc_task_table 16 steady_tasks = (Ret OBC_OK, s') \<and>
     recorded s' = concat (map due_in_frame [0..<16]) \<and> length (recorded s') = 46"
proof -
  have h: "hw steady_tasks = steady_hw" by (simp add: steady_tasks_def)
  have room: "unat (steady_count (io (hw steady_tasks))) + 2 ^ 33 + 1024 * unat (16 :: u32) \<le> 2 ^ 40"
    by (simp add: h steady_hw_def steady_unat)
  note w = window_dispatches
  from nominal_window_is_the_table [OF _ steady_clock(2) steady_steady steady_clock(4) _ room _ _
      steady_tasks_good(1) steady_unsuspended steady_tasks_good(2)]
  show ?thesis using steady_clock(1) steady_calm steady_budgets steady_tasks_good(3) w by (auto simp: h)
qed

end
