(* ===== verification/Boot.thy ===== *)
theory Boot
  imports BootMain Nominal
begin

text \<open>
  The nominal boot, end to end: a machine that carries no evidence of a fault, on calm ports
  and a steady clock, boots nominal, runs exactly the window of the table and says so.
\<close>

section \<open>Printing on a calm machine\<close>

text \<open>A call that prints at most \<open>n\<close> strings: it succeeds and moves nothing but the bus.\<close>

definition prints :: "nat \<Rightarrow> ('a machine_scheme \<Rightarrow> obc_status \<times> 'a machine_scheme) \<Rightarrow> bool" where
  "prints n f \<longleftrightarrow> (\<forall>s. calm (hw s) \<longrightarrow> (\<exists>h. f s = (OBC_OK, s\<lparr>hw := h\<rparr>) \<and> hw_run (hw s) h \<and>
     length (io h) \<le> length (io (hw s)) + 8192 * n))"

definition clean :: "string \<Rightarrow> bool" where
  "clean msg \<longleftrightarrow> CHR 0x00 \<notin> set msg \<and> length msg < 4096"

named_theorems printing \<open>calls that only print\<close>

lemma prints_console:
  assumes "\<And>h. calm h \<Longrightarrow> fst (f h) = OBC_OK \<and> hw_run h (snd (f h)) \<and> length (io (snd (f h))) \<le> length (io h) + 8192 * n"
  shows "prints n (console f)"
  unfolding prints_def console_def
proof (intro allI impI)
  fix s :: "'a machine_scheme"
  assume c: "calm (hw s)"
  obtain st h where "f (hw s) = (st, h)" by fastforce
  then show "\<exists>h. (case f (hw s) of (st, h) \<Rightarrow> (st, s\<lparr>hw := h\<rparr>)) = (OBC_OK, s\<lparr>hw := h\<rparr>) \<and> hw_run (hw s) h \<and>
      length (io h) \<le> length (io (hw s)) + 8192 * n"
    using assms [OF c] by (intro exI [of _ h]) simp
qed

lemma puts_calm:
  assumes "calm h" and "clean msg"
  shows "fst (obc_uart_puts (Some msg) h) = OBC_OK"
    "length (io (snd (obc_uart_puts (Some msg) h))) \<le> length (io h) + 2 * length msg"
  using assms puts_loop_ready [of h msg 0] puts_loop_spends [of h 0 msg]
  by (auto simp: calm_def clean_def obc_uart_puts_def)

lemma prints_puts [printing]: "clean msg \<Longrightarrow> prints 1 (puts msg)"
  by (rule prints_console) (use puts_calm hw_run_puts in \<open>fastforce simp: clean_def\<close>)

lemma put_chars_spends:
  "port_ready UART0_BASE h \<Longrightarrow>
   fst (put_chars cs h) = OBC_OK \<and> length (io (snd (put_chars cs h))) = length (io h) + 2 * length cs"
proof (induction cs arbitrary: h)
  case Nil
  then show ?case by simp
next
  case (Cons c cs)
  obtain h1 where p: "port_putc UART0_BASE (of_char c) OBC_UART_TX_RETRY_TOTAL h = (OBC_OK, OBC_UART_TX_RETRY_TOTAL, h1)"
    "length (io h1) = length (io h) + 2"
    by (rule port_putc_spends [OF Cons.prems])
  have "port_ready UART0_BASE h1"
    using port_ready_run [OF hw_run_port_putc [of h UART0_BASE "of_char c" OBC_UART_TX_RETRY_TOTAL]] Cons.prems p(1)
    by simp
  from Cons.IH [OF this] p show ?case by (simp add: obc_uart_putc_def)
qed

lemma prints_u32 [printing]: "prints 1 (print_u32 v)"
proof (rule prints_console)
  fix h
  assume c: "calm h"
  then have r: "port_ready UART0_BASE h" by (simp add: calm_def)
  have "obc_uart_put_u32 v h = put_chars (if v = 0 then [CHR ''0''] else rev (u32_digits v 0)) h"
    by (cases "obc_uart_putc (CHR ''0'') h") (auto simp: obc_uart_put_u32_def)
  moreover have "length (if v = 0 then [CHR ''0''] else rev (u32_digits v 0)) \<le> 10"
    using u32_digits_length [of v 0] by simp
  ultimately show "fst (obc_uart_put_u32 v h) = OBC_OK \<and> hw_run h (snd (obc_uart_put_u32 v h)) \<and>
      length (io (snd (obc_uart_put_u32 v h))) \<le> length (io h) + 8192 * 1"
    using put_chars_spends [OF r, of "if v = 0 then [CHR ''0''] else rev (u32_digits v 0)"] hw_run_put_u32 [of h v]
    by simp
qed

lemma prints_hex [printing]: "prints 1 (print_hex v)"
proof (rule prints_console)
  fix h
  assume c: "calm h"
  let ?h1 = "snd (obc_uart_puts (Some ''0x'') h)"
  have p: "fst (obc_uart_puts (Some ''0x'') h) = OBC_OK" "length (io ?h1) \<le> length (io h) + 4"
    using puts_calm [OF c, of "''0x''"] by (simp_all add: clean_def)
  have "calm ?h1" using calm_run [OF hw_run_puts c] .
  then have "port_ready UART0_BASE ?h1" by (simp add: calm_def)
  note q = put_chars_spends [OF this]
  define ds where "ds = map (\<lambda>shift. hex_digit (drop_bit shift v AND 0xF)) [28, 24, 20, 16, 12, 8, 4, 0]"
  have "obc_uart_put_hex32 v h = put_chars ds ?h1"
    using p(1) by (cases "obc_uart_puts (Some ''0x'') h") (simp add: obc_uart_put_hex32_def ds_def)
  moreover have "length ds = 8" by (simp add: ds_def)
  ultimately show "fst (obc_uart_put_hex32 v h) = OBC_OK \<and> hw_run h (snd (obc_uart_put_hex32 v h)) \<and>
      length (io (snd (obc_uart_put_hex32 v h))) \<le> length (io h) + 8192 * 1"
    using p(2) q [of ds] hw_run_put_hex32 [of h v] by simp
qed

text \<open>Composition.\<close>

lemma prints_mono: "prints m f \<Longrightarrow> m \<le> n \<Longrightarrow> prints n f"
  unfolding prints_def by (meson add_left_mono le_trans mult_le_mono2)

lemma prints_then:
  assumes "prints m f" and "prints n g" and "calm (hw s)"
  shows "\<exists>h. and_then (f s) g = (OBC_OK, s\<lparr>hw := h\<rparr>) \<and> hw_run (hw s) h \<and>
     length (io h) \<le> length (io (hw s)) + 8192 * (m + n)"
proof -
  obtain h1 where f: "f s = (OBC_OK, s\<lparr>hw := h1\<rparr>)" "hw_run (hw s) h1" "length (io h1) \<le> length (io (hw s)) + 8192 * m"
    using assms(1,3) unfolding prints_def by blast
  have "calm (hw (s\<lparr>hw := h1\<rparr>))" using calm_run [OF f(2) assms(3)] by simp
  then obtain h2 where "g (s\<lparr>hw := h1\<rparr>) = (OBC_OK, s\<lparr>hw := h1\<rparr>\<lparr>hw := h2\<rparr>)" "hw_run h1 h2"
    "length (io h2) \<le> length (io h1) + 8192 * n"
    using assms(2) unfolding prints_def by fastforce
  then show ?thesis using f hw_run_trans [OF f(2)] by (intro exI [of _ h2]) simp
qed

lemma prints_if [printing]: "prints n f \<Longrightarrow> prints n g \<Longrightarrow> prints n (\<lambda>s. if b then f s else g s)"
  by (simp add: prints_def)

lemma prints_and_then: "prints m f \<Longrightarrow> prints n g \<Longrightarrow> prints (m + n) (\<lambda>s. and_then (f s) g)"
  unfolding prints_def [of "m + n"] using prints_then by blast

lemma prints_chain:
  "\<forall>f \<in> set fs. prints m f \<Longrightarrow> prints (length fs * m) (\<lambda>s. chain fs (OBC_OK, s))"
proof (induction fs)
  case Nil
  have "s\<lparr>hw := hw s\<rparr> = s" for s :: "'a machine_scheme" by simp
  then show ?case unfolding prints_def by (auto intro!: exI [of _ "hw _"])
next
  case (Cons f fs)
  have f: "prints m f" and fs: "prints (length fs * m) (\<lambda>s. chain fs (OBC_OK, s))" using Cons by simp_all
  have c: "chain (f # fs) (OBC_OK, s) = and_then (f s) (\<lambda>s. chain fs (OBC_OK, s))" if "calm (hw s)" for s
    using f that unfolding prints_def by (auto simp: chain_simps)
  show ?case
    unfolding prints_def using c prints_then [OF f fs] by simp
qed

lemma prints_texts [printing]: "\<forall>f \<in> set fs. prints 1 f \<Longrightarrow> length fs \<le> n \<Longrightarrow> prints n (\<lambda>s. chain fs (OBC_OK, s))"
  using prints_chain [of fs 1] prints_mono [of "length fs"] by simp

lemma clean_texts [simp]: "clean []" "clean (c # cs) \<longleftrightarrow> c \<noteq> CHR 0x00 \<and> CHR 0x00 \<notin> set cs \<and> length cs < 4095"
  "clean crlf"
  by (auto simp: clean_def crlf_def)

lemmas texts = prints_puts prints_u32 prints_hex crlf_def

section \<open>The banner\<close>

lemma prints_ram [printing]: "prints 10 (print_ram_usage im)"
  unfolding print_ram_usage_def
  by (rule prints_texts) (simp_all add: texts del: One_nat_def)

lemma prints_stack [printing]: "prints 10 (print_stack_usage im)"
  unfolding print_stack_usage_def
  by (rule prints_texts) (simp_all add: texts del: One_nat_def)

lemma prints_mscratch:
  assumes "mscratch im = fault_record_addr im"
  shows "prints 3 (print_mscratch_invariant im)"
proof -
  have a: "prints 2 (\<lambda>s. chain [puts ''mscratch: '', print_hex (mscratch im)] (OBC_OK, s))"
    by (rule prints_texts) (simp_all add: texts del: One_nat_def)
  have b: "prints 1 (puts ('' ok'' @ crlf))" by (rule prints_puts) (simp add: crlf_def)
  show ?thesis
    using prints_and_then [OF a b] assms by (simp add: print_mscratch_invariant_def [abs_def] del: chain_simps)
qed

lemma prints_reset_cause: "prints 10 (print_reset_cause :: tasks_state \<Rightarrow> obc_status \<times> tasks_state)"
proof -
  have t: "prints 9 (puts msg)" if "clean msg" for msg
    using prints_mono [OF prints_puts [OF that], of 9] by simp
  have d: "prints 9 (\<lambda>s1 :: tasks_state. chain [puts ''trap mcause='', print_hex (fr_cause (obc_fault_record s1)),
            puts (if obc_mcause_is_interrupt (fr_cause (obc_fault_record s1)) then '' (interrupt '' else '' (exception ''),
            print_u32 (obc_mcause_code (fr_cause (obc_fault_record s1))), puts '') epc='', print_hex (fr_epc (obc_fault_record s1)),
            puts '' tval='', print_hex (fr_tval (obc_fault_record s1)), puts crlf] (OBC_OK, s1))"
    unfolding prints_def
  proof (intro allI)
    fix s1 :: tasks_state
    let ?fs = "[puts ''trap mcause='', print_hex (fr_cause (obc_fault_record s1)),
            puts (if obc_mcause_is_interrupt (fr_cause (obc_fault_record s1)) then '' (interrupt '' else '' (exception ''),
            print_u32 (obc_mcause_code (fr_cause (obc_fault_record s1))), puts '') epc='', print_hex (fr_epc (obc_fault_record s1)),
            puts '' tval='', print_hex (fr_tval (obc_fault_record s1)), puts crlf]"
    have "prints 9 (\<lambda>s :: tasks_state. chain ?fs (OBC_OK, s))"
      by (rule prints_texts) (simp_all add: texts del: One_nat_def)
    then show "calm (hw s1) \<longrightarrow> (\<exists>h. chain ?fs (OBC_OK, s1) = (OBC_OK, s1\<lparr>hw := h\<rparr>) \<and> hw_run (hw s1) h \<and>
        length (io h) \<le> length (io (hw s1)) + 8192 * 9)"
      unfolding prints_def by blast
  qed
  show ?thesis
    unfolding prints_def
  proof (intro allI impI)
    fix s :: tasks_state
    assume c: "calm (hw s)"
    obtain v out where v: "obc_fault_validate (Some OBC_RESET_UNKNOWN) (obc_fault_record s) = (v, out)" by fastforce
    have "\<exists>h. print_reset_cause s = (OBC_OK, s\<lparr>hw := h\<rparr>) \<and> hw_run (hw s) h \<and> length (io h) \<le> length (io (hw s)) + 8192 * (1 + 9)"
      unfolding print_reset_cause_def v prod.case Let_def
      by (rule prints_then [OF prints_puts _ c], simp) (intro prints_if t d; simp add: crlf_def)
    then show "\<exists>h. print_reset_cause s = (OBC_OK, s\<lparr>hw := h\<rparr>) \<and> hw_run (hw s) h \<and> length (io h) \<le> length (io (hw s)) + 8192 * 10"
      by simp
  qed
qed

lemma prints_at:
  assumes "prints n f" and "calm (hw s)"
  obtains h where "f s = (OBC_OK, s\<lparr>hw := h\<rparr>)" "hw_run (hw s) h" "length (io h) \<le> length (io (hw s)) + 8192 * n" "calm h"
  using assms calm_run unfolding prints_def by blast

lemma banner_calm:
  assumes "calm (hw s)" and "clean (build_hash im)" and "mscratch im = fault_record_addr im"
  obtains h where "boot_banner im s = (OBC_OK, OBC_OK, s\<lparr>hw := h\<rparr>)" "hw_run (hw s) h"
    "length (io h) \<le> length (io (hw s)) + 8192 * 120" "calm h"
proof -
  let ?fs = "[puts (crlf @ ''=== OBC-Zero ==='' @ crlf), puts ''build  : '', puts (build_hash im), puts crlf,
             puts (''board  : sifive_e'' @ crlf), puts ''entry  : '', print_hex (main_addr im), puts crlf,
             print_ram_usage im, print_stack_usage im] :: (tasks_state \<Rightarrow> obc_status \<times> tasks_state) list"
  have m: "prints 10 f" if "prints 1 f" for f :: "tasks_state \<Rightarrow> obc_status \<times> tasks_state"
    using prints_mono [OF that, of 10] by simp
  have "\<forall>f \<in> set ?fs. prints 10 f"
    using assms(2) by (simp add: m texts prints_ram prints_stack del: One_nat_def)
  from prints_chain [OF this] have "prints 100 (\<lambda>s. chain ?fs (OBC_OK, s))" by simp
  from prints_at [OF this assms(1)] obtain h1 where c1: "chain ?fs (OBC_OK, s) = (OBC_OK, s\<lparr>hw := h1\<rparr>)" "hw_run (hw s) h1"
    "length (io h1) \<le> length (io (hw s)) + 8192 * 100" "calm h1" by blast
  from prints_at [OF prints_mscratch [OF assms(3)], of "s\<lparr>hw := h1\<rparr>"] c1(4) obtain h2
    where c2: "print_mscratch_invariant im (s\<lparr>hw := h1\<rparr>) = (OBC_OK, s\<lparr>hw := h2\<rparr>)" "hw_run h1 h2"
      "length (io h2) \<le> length (io h1) + 8192 * 3" "calm h2" by auto
  from prints_at [OF prints_reset_cause, of "s\<lparr>hw := h2\<rparr>"] c2(4) obtain h3
    where c3: "print_reset_cause (s\<lparr>hw := h2\<rparr>) = (OBC_OK, s\<lparr>hw := h3\<rparr>)" "hw_run h2 h3"
      "length (io h3) \<le> length (io h2) + 8192 * 10" "calm h3" by auto
  have "boot_banner im s = (OBC_OK, OBC_OK, s\<lparr>hw := h3\<rparr>)"
    unfolding boot_banner_def c1(1) prod.case c2(1) by (simp add: c3(1))
  moreover have "hw_run (hw s) h3" using hw_run_trans [OF hw_run_trans [OF c1(2) c2(2)] c3(2)] .
  ultimately show thesis using that c1(3) c2(3) c3(3,4) by simp
qed

section \<open>The clock checks\<close>

lemma tick_loop_steady:
  fixes s :: tasks_state
  assumes "good_clock L T s" and "steady T" and "previous \<le> T (io (hw s))" and "unat (T (io (hw s))) \<le> unat previous + 65"
  shows "\<exists>d sp h. tick_loop n first previous dmax s = (OBC_OK, d, sp, s\<lparr>hw := h\<rparr>) \<and> hw_run (hw s) h \<and>
    length (io h) \<le> length (io (hw s)) + 6 * n"
  using assms
proof (induction n arbitrary: previous dmax s)
  case 0
  have "s = s\<lparr>hw := hw s\<rparr>" by simp
  then show ?case by (auto intro!: exI [of _ "hw s"])
next
  case (Suc n)
  obtain v c h where m: "obc_mtime_read (Some 0) s = (OBC_OK, Some v, s\<lparr>hw := h\<rparr>)" "hw_run (hw s) h"
    "T (io (hw s)) \<le> v" "v \<le> T (io h)" "length (io h) \<le> length (io (hw s)) + 6"
    by (rule mtime_reads [of T s 0]) (use Suc.prems(1) in \<open>auto simp: good_clock_def\<close>)
  have b: "on_bus s (s\<lparr>hw := h\<rparr>)" using m(2) by (simp add: on_bus_def)
  have t: "unat (T (io h)) \<le> unat (T (io (hw s))) + 65" using steady_within [OF Suc.prems(2) b, of 6] m(5) by simp
  have ge: "previous \<le> v" using Suc.prems(3) m(3) by simp
  have "unat (v - previous) = unat v - unat previous" using ge by (rule unat_sub)
  also have "\<dots> < 32768" using t m(4) Suc.prems(4) by (simp add: word_le_nat_alt)
  finally have small: "\<not> TICK_DELTA_MAX \<le> v - previous"
    by (simp add: TICK_DELTA_MAX_def OBC_MTIME_HZ_def word_le_nat_alt)
  have g: "good_clock L T (s\<lparr>hw := h\<rparr>)" using good_clock_bus [OF b] Suc.prems(1) by simp
  have "unat (T (io h)) \<le> unat v + 65" using t m(3) by (simp add: word_le_nat_alt)
  then obtain d sp h' where r: "tick_loop n first v (if v - previous > dmax then v - previous else dmax) (s\<lparr>hw := h\<rparr>) =
      (OBC_OK, d, sp, s\<lparr>hw := h'\<rparr>)" "hw_run h h'" "length (io h') \<le> length (io h) + 6 * n"
    using Suc.IH [OF g Suc.prems(2), of v "if v - previous > dmax then v - previous else dmax"] m(4) by auto
  show ?case
    using m(1,5) r ge small hw_run_trans [OF m(2) r(2)] by (auto simp: Let_def not_less)
qed

lemma tick_check_steady:
  fixes s :: tasks_state
  assumes "good_clock L T s" and "steady T" and "calm (hw s)"
  obtains h where "print_tick_check s = (OBC_OK, s\<lparr>hw := h\<rparr>)" "hw_run (hw s) h"
    "length (io h) \<le> length (io (hw s)) + 8192 * 12" "calm h"
proof -
  obtain v c h1 where m: "obc_mtime_read (Some 0) s = (OBC_OK, Some v, s\<lparr>hw := h1\<rparr>)" "hw_run (hw s) h1"
    "T (io (hw s)) \<le> v" "v \<le> T (io h1)" "length (io h1) \<le> length (io (hw s)) + 6"
    by (rule mtime_reads [of T s 0]) (use assms(1) in \<open>auto simp: good_clock_def\<close>)
  have b: "on_bus s (s\<lparr>hw := h1\<rparr>)" using m(2) by (simp add: on_bus_def)
  have t: "unat (T (io h1)) \<le> unat (T (io (hw s))) + 65" using steady_within [OF assms(2) b, of 6] m(5) by simp
  have g: "good_clock L T (s\<lparr>hw := h1\<rparr>)" using good_clock_bus [OF b] assms(1) by simp
  have "unat (T (io h1)) \<le> unat v + 65" using t m(3) by (simp add: word_le_nat_alt)
  then obtain d sp h2 where l: "tick_loop (unat TICK_CHECK_READS) v v 0 (s\<lparr>hw := h1\<rparr>) = (OBC_OK, d, sp, s\<lparr>hw := h2\<rparr>)"
    "hw_run h1 h2" "length (io h2) \<le> length (io h1) + 6 * unat TICK_CHECK_READS"
    using tick_loop_steady [OF g assms(2), of v "unat TICK_CHECK_READS" v 0] m(4) by auto
  have check: "check_tick_counter s = (OBC_OK, d, sp, s\<lparr>hw := h2\<rparr>)" by (simp add: check_tick_counter_def m(1) l(1))
  let ?fs = "[puts ''tick   : '', puts (tick_verdict OBC_OK),
                 print_hex (ucast (drop_bit 32 d)), puts '':'', print_hex (ucast d),
                 puts ('' ticks'' @ crlf), puts ''reads  : '', print_u32 TICK_CHECK_READS,
                 puts '' covering '', print_u32 (ucast sp), puts ('' ticks'' @ crlf)] ::
      (tasks_state \<Rightarrow> obc_status \<times> tasks_state) list"
  have p: "prints 11 (\<lambda>s :: tasks_state. chain ?fs (OBC_OK, s))"
    by (rule prints_texts) (simp_all add: texts tick_verdict_def del: One_nat_def)
  have r: "hw_run (hw s) h2" using hw_run_trans [OF m(2) l(2)] .
  from prints_at [OF p, of "s\<lparr>hw := h2\<rparr>"] calm_run [OF r assms(3)] obtain h
    where c: "chain ?fs (OBC_OK, s\<lparr>hw := h2\<rparr>) = (OBC_OK, s\<lparr>hw := h\<rparr>)" "hw_run h2 h"
      "length (io h) \<le> length (io h2) + 8192 * 11" "calm h" by auto
  have "print_tick_check s = (OBC_OK, s\<lparr>hw := h\<rparr>)"
    unfolding print_tick_check_def check prod.case c(1) by simp
  then show thesis
    using that [OF _ hw_run_trans [OF r c(2)]] m(5) l(3) c(3,4) by (simp add: TICK_CHECK_READS_def)
qed

text \<open>
  The instruction counter keeps step with the clock: over 500 to 1000 ticks the instructions
  retired are within one percent of 476.837 a tick, each pair of readings being taken within
  twelve accesses of each other.
\<close>

definition paced :: "(io_event list \<Rightarrow> u64) \<Rightarrow> hw \<Rightarrow> bool" where
  "paced T h \<longleftrightarrow> (\<forall>a b c d. suffix a b \<longrightarrow> suffix b c \<longrightarrow> suffix c d \<longrightarrow> length b \<le> length a + 12 \<longrightarrow>
     length d \<le> length c + 12 \<longrightarrow> 500 \<le> unat (T c) - unat (T a) \<longrightarrow> unat (T c) - unat (T a) \<le> 1000 \<longrightarrow>
     472069 * (unat (T c) - unat (T a)) \<le> 1000 * unat (instret h d - instret h b) \<and>
     1000 * unat (instret h d - instret h b) \<le> 481605 * (unat (T c) - unat (T a)))"

text \<open>The check's 32-bit arithmetic computes thousandths exactly, on these ranges.\<close>

lemma milli_exact:
  fixes n k :: u32
  assumes "500 \<le> unat k" and "unat k \<le> 1000" and "1000 * unat n \<le> 481605 * unat k"
  shows "unat ((n div k) * 1000 + ((n mod k) * 1000) div k) = (1000 * unat n) div unat k"
proof -
  let ?N = "unat n" and ?K = "unat k"
  have k: "0 < ?K" using assms(1) by simp
  have "?N div ?K * ?K \<le> ?N" by (rule div_times_less_eq_dividend)
  then have "1000 * (?N div ?K) * ?K \<le> 481605 * ?K" using assms(3) by linarith
  then have q: "1000 * (?N div ?K) \<le> 481605" using k by (simp only: mult_le_cancel2)
  have "?N mod ?K < ?K" using k by simp
  then have r: "?N mod ?K * 1000 < 1000000" using assms(2) by simp
  have d: "?N mod ?K * 1000 div ?K \<le> ?N mod ?K * 1000" by (rule div_le_dividend)
  have "1000 * (x * ?K + y) = y * 1000 + ?K * (1000 * x)" for x y :: nat by (simp add: algebra_simps)
  from this [of "?N div ?K" "?N mod ?K"] have "1000 * ?N = ?N mod ?K * 1000 + ?K * (1000 * (?N div ?K))"
    by (simp only: div_mult_mod_eq)
  then have e: "1000 * ?N div ?K = 1000 * (?N div ?K) + ?N mod ?K * 1000 div ?K" using k by simp
  have m: "unat (n div k * 1000) = ?N div ?K * 1000" "unat (n mod k * 1000) = ?N mod ?K * 1000"
    using q r by (simp_all add: unat_word_ariths unat_div unat_mod)
  moreover from this have "unat (n mod k * 1000 div k) = ?N mod ?K * 1000 div ?K" by (simp add: unat_div)
  moreover have "unat (x + y) = unat x + unat y" if "unat x + unat y < 4294967296" for x y :: u32
    using that by (simp add: unat_word_ariths)
  moreover have "?N div ?K * 1000 + ?N mod ?K * 1000 div ?K < 4294967296" using q r d by linarith
  ultimately show ?thesis using e by (simp only: mult.commute)
qed

lemma paced_run: "hw_run h h' \<Longrightarrow> paced T h \<Longrightarrow> paced T h'"
  by (simp add: paced_def hw_run_def)

text \<open>500 ticks pass before 1365334 of the loop's 2048000 rounds.\<close>

text \<open>What two readings of the clock and of \<^verbatim>\<open>minstret\<close> half a check apart say of the rate.\<close>

lemma paced_rate:
  fixes k :: u32
  assumes "paced T (hw s)" and "suffix a b" and "length b \<le> length a + 12" and "suffix b c" and "suffix c (io h)"
    and "length (io h) \<le> length c + 12" and "unat k = unat (T c) - unat (T a)" and "500 \<le> unat k" and "unat k \<le> 1000"
  defines "n \<equiv> instret (hw s) (io h) - instret (hw s) b"
  shows "472069 \<le> (n div k) * 1000 + ((n mod k) * 1000) div k" "(n div k) * 1000 + ((n mod k) * 1000) div k \<le> 481605"
proof -
  have p: "472069 * unat k \<le> 1000 * unat n" "1000 * unat n \<le> 481605 * unat k"
    using assms(1-6,8,9) unfolding n_def assms(7) paced_def by (metis (no_types, lifting))+
  let ?m = "(n div k) * 1000 + ((n mod k) * 1000) div k"
  have e: "unat ?m = (1000 * unat n) div unat k" by (rule milli_exact [OF assms(8,9) p(2)])
  have "0 < unat k" using assms(8) by simp
  then have "472069 \<le> unat ?m" "unat ?m \<le> 481605"
    unfolding e using p div_le_mono [OF p(2), of "unat k"] by (simp_all add: less_eq_div_iff_mult_less_eq)
  then show "472069 \<le> ?m" "?m \<le> 481605" by (simp_all add: word_le_nat_alt)
qed

text \<open>The guard is not spent before the clock has advanced by half the check.\<close>

lemma guard_lasts:
  assumes "advances L T" and "never_backwards T" and "suffix a b" and "suffix b es"
    and "length b + 3 * g \<le> length es" and "unat (T a) + 1000 \<le> L"
    and "T es \<le> v" and "unat v < unat (T a) + 500" and "unat (T es) < unat (T a) + 565"
  shows "g < 1365334"
proof (rule ccontr)
  assume "\<not> g < 1365334"
  moreover obtain xs where xs: "es = xs @ b" using assms(4) by (auto simp: suffix_def)
  ultimately have "8192 * 500 \<le> length xs" using assms(5) by simp
  from advances_by [OF assms(1,2) this, of b] have "L \<le> unat (T es) \<or> unat (T b) + 500 \<le> unat (T es)"
    using xs by simp
  moreover have "T a \<le> T b" by (rule never_backwards_suffix [OF assms(2,3)])
  ultimately show False using assms(6-9) by (auto simp: word_le_nat_alt)
qed

text \<open>One look at the clock inside the measurement.\<close>

lemma measure_turn:
  fixes s :: tasks_state
  assumes "good_clock L T s" and "steady T" and "suffix a (io (hw s))" and "unat (T (io (hw s))) < unat (T a) + 565"
  obtains v c h where "obc_mtime_read (Some 0) s = (OBC_OK, Some v, s\<lparr>hw := h\<rparr>)" "hw_run (hw s) h"
    "T (io (hw s)) \<le> v" "v \<le> T (io h)" "length (io (hw s)) + 3 \<le> length (io h)" "length (io h) \<le> length (io (hw s)) + 6"
    "v = T c" "suffix (io (hw s)) c" "suffix c (io h)" "unat (T (io h)) \<le> unat (T (io (hw s))) + 65" "T a \<le> v"
    "unat v \<le> unat (T a) + 630" "unat (ucast (v - T a) :: u32) = unat v - unat (T a)"
proof -
  have nb: "never_backwards T" using assms(1) by (simp add: good_clock_def)
  obtain v c h where m: "obc_mtime_read (Some 0) s = (OBC_OK, Some v, s\<lparr>hw := h\<rparr>)" "hw_run (hw s) h"
    "T (io (hw s)) \<le> v" "v \<le> T (io h)" "length (io (hw s)) + 3 \<le> length (io h)" "length (io h) \<le> length (io (hw s)) + 6"
    "v = T c" "suffix (io (hw s)) c" "suffix c (io h)"
    by (rule mtime_reads [of T s 0]) (use assms(1) in \<open>auto simp: good_clock_def\<close>)
  have b: "on_bus s (s\<lparr>hw := h\<rparr>)" using m(2) by (simp add: on_bus_def)
  have t: "unat (T (io h)) \<le> unat (T (io (hw s))) + 65" using steady_within [OF assms(2) b, of 6] m(6) by simp
  have "suffix a c" using assms(3) m(8) suffix_order.trans by blast
  then have ge: "T a \<le> v" using m(7) never_backwards_suffix [OF nb] by simp
  then have "unat (v - T a) = unat v - unat (T a)" by (rule unat_sub)
  moreover have vt: "unat v \<le> unat (T a) + 630" using t m(4) assms(4) by (simp add: word_le_nat_alt)
  ultimately have "unat (ucast (v - T a) :: u32) = unat v - unat (T a)"
    by (simp add: unsigned_ucast_eq take_bit_nat_eq_self)
  from that [OF m t ge vt this] show thesis .
qed

lemma measure_loop_paced:
  fixes s :: tasks_state
  assumes "good_clock L T s" and "steady T" and "paced T (hw s)"
    and "suffix a b" and "length b \<le> length a + 12" and "suffix b (io (hw s))" and "i0 = instret (hw s) b"
    and "length b + 3 * unat guard \<le> length (io (hw s))" and "unat guard \<le> 1365334"
    and "unat (T (io (hw s))) < unat (T a) + 565" and "unat (T a) + 1000 \<le> L"
  shows "\<exists>m h. measure_loop (T a) i0 guard s = (OBC_OK, Some m, s\<lparr>hw := h\<rparr>) \<and> hw_run (hw s) h \<and>
    472069 \<le> m \<and> m \<le> 481605 \<and> unat (T (io h)) \<le> unat (T a) + 1000"
  using assms
proof (induction "T a" i0 guard s rule: measure_loop.induct)
  case (1 i0 guard s)
  have nb: "never_backwards T" and adv: "advances L T" using "1.prems"(1) by (simp_all add: good_clock_def)
  have g: "guard < TIMEBASE_CHECK_TICKS * 4096" "unat (guard + 1) = unat guard + 1"
    using "1.prems"(9) by (simp_all add: TIMEBASE_CHECK_TICKS_def word_less_nat_alt unat_word_ariths)
  have ab: "suffix a (io (hw s))" using "1.prems"(4,6) suffix_order.trans by blast
  obtain v c h where m: "obc_mtime_read (Some 0) s = (OBC_OK, Some v, s\<lparr>hw := h\<rparr>)" "hw_run (hw s) h"
    "T (io (hw s)) \<le> v" "v \<le> T (io h)" "length (io (hw s)) + 3 \<le> length (io h)" "length (io h) \<le> length (io (hw s)) + 6"
    "v = T c" "suffix (io (hw s)) c" "suffix c (io h)"
    and t: "unat (T (io h)) \<le> unat (T (io (hw s))) + 65" and ge: "T a \<le> v" and vt: "unat v \<le> unat (T a) + 630"
    and k: "unat (ucast (v - T a) :: u32) = unat v - unat (T a)"
    by (rule measure_turn [OF "1.prems"(1,2) ab "1.prems"(10)]) blast
  have b: "on_bus s (s\<lparr>hw := h\<rparr>)" using m(2) by (simp add: on_bus_def)
  show ?case
  proof (cases "TIMEBASE_CHECK_TICKS \<le> (ucast (v - T a) :: u32)")
    case True
    let ?k = "ucast (v - T a) :: u32" and ?n = "instret (hw s) (io h) - i0"
    have k5: "500 \<le> unat ?k" "unat ?k \<le> 1000" using True k vt by (simp_all add: TIMEBASE_CHECK_TICKS_def word_le_nat_alt)
    let ?m = "(?n div ?k) * 1000 + ((?n mod ?k) * 1000) div ?k"
    have "suffix b c" using "1.prems"(6) m(8) suffix_order.trans by blast
    moreover have "length (io h) \<le> length c + 12"
      using m(6,8) suffix_length_le [OF m(8)] by simp
    ultimately have r: "472069 \<le> ?m" "?m \<le> 481605"
      using paced_rate [OF "1.prems"(3-5) _ m(9) _ k [unfolded m(7)]] k5 unfolding "1.prems"(7) m(7) by blast+
    obtain h2 where i: "read_minstret h = (instret (hw s) (io h), h2)" "hw_run h h2" "length (io h2) = length (io h) + 1"
      using m(2) hw_run_read_minstret [of h] by (auto simp: read_minstret_def Let_def hw_run_def)
    have l: "measure_loop (T a) i0 guard s = (OBC_OK, Some ?m, s\<lparr>hw := h2\<rparr>)"
      using g(1) m(1) True i(1) by (subst measure_loop.simps) (simp add: Let_def)
    have b2: "on_bus s (s\<lparr>hw := h2\<rparr>)" using hw_run_trans [OF m(2) i(2)] by (simp add: on_bus_def)
    have "unat (T (io h2)) \<le> unat (T (io (hw s))) + 65"
      using steady_within [OF "1.prems"(2) b2, of 7] m(6) i(3) by simp
    then show ?thesis using l r hw_run_trans [OF m(2) i(2)] "1.prems"(10) by (intro exI conjI) auto
  next
    case False
    have early: "unat v < unat (T a) + 500"
      using False k ge by (simp add: TIMEBASE_CHECK_TICKS_def word_le_nat_alt)
    have "unat guard < 1365334"
      by (rule guard_lasts [OF adv nb "1.prems"(4,6,8,11) m(3) early "1.prems"(10)])
    then have room: "unat (guard + 1) \<le> 1365334" using g(2) by simp
    let ?s1 = "s\<lparr>hw := h\<rparr>"
    have gc: "good_clock L T ?s1" using good_clock_bus [OF b] "1.prems"(1) by simp
    have pc: "paced T (hw ?s1)" using paced_run [OF m(2) "1.prems"(3)] by simp
    have sb: "suffix b (io (hw ?s1))" using "1.prems"(6) m(8,9) suffix_order.trans [of b "io (hw s)"] suffix_order.trans [of _ c "io h"] by simp
    have ib: "i0 = instret (hw ?s1) b" using "1.prems"(7) m(2) by (simp add: hw_run_def)
    have lb: "length b + 3 * unat (guard + 1) \<le> length (io (hw ?s1))" using "1.prems"(8) m(5) g(2) by simp
    have tb: "unat (T (io (hw ?s1))) < unat (T a) + 565" using t m(3) early by (simp add: word_le_nat_alt)
    obtain mm h2 where r: "measure_loop (T a) i0 (guard + 1) ?s1 = (OBC_OK, Some mm, ?s1\<lparr>hw := h2\<rparr>)" "hw_run h h2"
      "472069 \<le> mm" "mm \<le> 481605" "unat (T (io h2)) \<le> unat (T a) + 1000"
      using "1.hyps" [OF g(1) m(1) [symmetric] refl _ _ gc "1.prems"(2) pc "1.prems"(4,5) sb ib lb room tb "1.prems"(11)] False
      by auto
    have "measure_loop (T a) i0 guard s = (OBC_OK, Some mm, s\<lparr>hw := h2\<rparr>)"
      using g(1) m(1) False r(1) by (subst measure_loop.simps) simp
    then show ?thesis using r(3-5) hw_run_trans [OF m(2) r(2)] by (intro exI conjI) auto
  qed
qed

lemma good_clock_hw: "good_clock L T s \<Longrightarrow> hw_run (hw s) (hw t) \<Longrightarrow> good_clock L T t"
  using shows_counter_run by (auto simp: good_clock_def)

lemma steady_hw_run:
  assumes "steady T" and "hw_run h h'" and "length (io h') \<le> length (io h) + n"
  shows "unat (T (io h')) \<le> unat (T (io h)) + n div 4 + 64"
proof -
  obtain es where es: "io h' = es @ io h" using assms(2) by (auto simp: hw_run_def suffix_def)
  have "unat (T (es @ io h)) \<le> unat (T (io h)) + length es div 4 + 64"
    using assms(1) unfolding steady_def by blast
  moreover have "length es div 4 \<le> n div 4" using assms(3) es by (simp add: div_le_mono)
  ultimately show ?thesis unfolding es by simp
qed

lemma measure_paced:
  fixes s :: tasks_state
  assumes "good_clock L T s" and "steady T" and "paced T (hw s)" and "unat (T (io (hw s))) + 1065 \<le> L"
  obtains m h where "measure_instr_per_tick s = (OBC_OK, Some m, s\<lparr>hw := h\<rparr>)" "hw_run (hw s) h"
    "472069 \<le> m" "m \<le> 481605" "unat (T (io h)) \<le> unat (T (io (hw s))) + 1065"
proof -
  obtain v c h1 where m: "obc_mtime_read (Some 0) s = (OBC_OK, Some v, s\<lparr>hw := h1\<rparr>)" "hw_run (hw s) h1"
    "T (io (hw s)) \<le> v" "v \<le> T (io h1)" "length (io h1) \<le> length (io (hw s)) + 6"
    "v = T c" "suffix (io (hw s)) c" "suffix c (io h1)"
    by (rule mtime_reads [of T s 0]) (use assms(1) in \<open>auto simp: good_clock_def\<close>)
  obtain h2 where i: "read_minstret h1 = (instret (hw s) (io h1), h2)" "hw_run h1 h2" "length (io h2) = length (io h1) + 1"
    "suffix (io h1) (io h2)"
    using m(2) hw_run_read_minstret [of h1] by (auto simp: read_minstret_def Let_def hw_run_def suffix_ConsI2)
  let ?s2 = "s\<lparr>hw := h2\<rparr>"
  have r: "hw_run (hw s) h2" using hw_run_trans [OF m(2) i(2)] .
  have t1: "unat (T (io h1)) \<le> unat (T (io (hw s))) + 65" using steady_hw_run [OF assms(2) m(2), of 6] m(5) by simp
  have t2: "unat (T (io h2)) \<le> unat (T (io (hw s))) + 65" using steady_hw_run [OF assms(2) r, of 7] m(5) i(3) by simp
  have v: "unat v \<le> unat (T (io (hw s))) + 65" "unat (T (io (hw s))) \<le> unat v"
    using t1 m(3,4) by (simp_all add: word_le_nat_alt)
  have "length (io h1) \<le> length c + 12" using m(5) suffix_length_le [OF m(7)] by simp
  then obtain mm h where l: "measure_loop v (instret (hw s) (io h1)) 0 ?s2 = (OBC_OK, Some mm, ?s2\<lparr>hw := h\<rparr>)" "hw_run h2 h"
    "472069 \<le> mm" "mm \<le> 481605" "unat (T (io h)) \<le> unat v + 1000"
    using measure_loop_paced [of L T ?s2 c "io h1" "instret (hw s) (io h1)" 0] good_clock_hw [OF assms(1), of ?s2] r assms(2,4)
      paced_run [OF r assms(3)] m(6,8) i(3,4) t2 v by (auto simp: hw_run_def)
  have "measure_instr_per_tick s = (OBC_OK, Some mm, s\<lparr>hw := h\<rparr>)"
    by (simp add: measure_instr_per_tick_def m(1) i(1) l(1))
  then show thesis using that hw_run_trans [OF r l(2)] l(3-5) v by simp
qed

lemma timebase_paced:
  fixes s :: tasks_state
  assumes "good_clock L T s" and "steady T" and "paced T (hw s)" and "unat (T (io (hw s))) + 1065 \<le> L" and "calm (hw s)"
  obtains h where "print_timebase_check s = (OBC_OK, s\<lparr>hw := h\<rparr>)" "hw_run (hw s) h"
    "unat (T (io h)) \<le> unat (T (io (hw s))) + 20000" "calm h"
proof -
  obtain m h1 where m: "measure_instr_per_tick s = (OBC_OK, Some m, s\<lparr>hw := h1\<rparr>)" "hw_run (hw s) h1"
    "472069 \<le> m" "m \<le> 481605" "unat (T (io h1)) \<le> unat (T (io (hw s))) + 1065"
    by (rule measure_paced [OF assms(1-4)])
  have c1: "calm (hw (s\<lparr>hw := h1\<rparr>))" using calm_run [OF m(2) assms(5)] by simp
  have lim: "\<not> (m < OBC_MILLI_INSTR_PER_TICK - OBC_MILLI_INSTR_TOLERANCE \<or> OBC_MILLI_INSTR_PER_TICK + OBC_MILLI_INSTR_TOLERANCE < m)"
    using m(3,4) by (simp add: OBC_MILLI_INSTR_PER_TICK_def OBC_MILLI_INSTR_TOLERANCE_def not_less)
  let ?c = "\<lambda>s2 :: tasks_state. chain [print_u32 m, puts '' milli-instr/tick, expect '',
                       print_u32 OBC_MILLI_INSTR_PER_TICK] (OBC_OK, s2)"
  have "prints 3 ?c" by (rule prints_texts) (simp_all add: texts del: One_nat_def)
  from prints_and_then [OF this prints_puts] have g: "prints 4 (\<lambda>s2 :: tasks_state. and_then (?c s2) (puts ('' ok'' @ crlf)))"
    by (simp add: crlf_def)
  have p: "prints 1 (puts ''base   : '' :: tasks_state \<Rightarrow> obc_status \<times> tasks_state)" by (rule prints_puts) simp
  from prints_then [OF p g c1] obtain h2 where r: "and_then (puts ''base   : '' (s\<lparr>hw := h1\<rparr>))
      (\<lambda>s2 :: tasks_state. and_then (?c s2) (puts ('' ok'' @ crlf))) = (OBC_OK, s\<lparr>hw := h2\<rparr>)" "hw_run h1 h2"
    "length (io h2) \<le> length (io h1) + 8192 * 5" by auto
  have "print_timebase_check s = (OBC_OK, s\<lparr>hw := h2\<rparr>)"
    unfolding print_timebase_check_def m(1) prod.case Let_def option.case if_not_P [OF lim] using r(1) by simp
  moreover have "unat (T (io h2)) \<le> unat (T (io h1)) + 10240 + 64"
    using steady_hw_run [OF assms(2) r(2) r(3)] by simp
  ultimately show thesis
    using that [OF _ hw_run_trans [OF m(2) r(2)] _ calm_run [OF r(2)]] m(5) c1 by simp
qed

section \<open>The boot before the executive\<close>

lemma uart_init_run: "hw_run h (obc_uart_init h)" "length (io (obc_uart_init h)) = length (io h) + 7"
  by (auto simp: obc_uart_init_def port_init_def bus_write_def hw_run_def suffix_ConsI2)

lemma restore_bus:
  assumes "\<not> boot_evidence s"
    and "the (snd (obc_fault_validate (Some OBC_RESET_UNKNOWN) (obc_fault_record t))) =
      the (snd (obc_fault_validate (Some OBC_RESET_UNKNOWN) (obc_fault_record s)))"
    and "obc_mode_record t = obc_mode_record s"
  shows "hw (boot_restore t) = hw t"
  using assms by (simp add: boot_evidence_def boot_restore_def Let_def obc_mode_restore_def)

text \<open>A stage of the boot that only prints.\<close>

lemma texts_at:
  assumes "\<forall>f \<in> set fs. prints 1 f" and "length fs \<le> 3" and "calm (hw s)"
  obtains h where "chain fs (OBC_OK, s) = (OBC_OK, s\<lparr>hw := h\<rparr>)" "hw_run (hw s) h"
    "length (io h) \<le> length (io (hw s)) + 8192 * 3" "calm h"
  using prints_at [OF prints_texts [OF assms(1,2)] assms(3)] .

lemma tables_calm:
  fixes s :: tasks_state
  assumes "calm (hw s)"
  obtains s' where "boot_cmd (boot_tlm (OBC_OK, s)) = (OBC_OK, s')" "hw_run (hw s) (hw s')"
    "length (io (hw s')) \<le> length (io (hw s)) + 8192 * 6" "calm (hw s')"
proof -
  obtain s1 where t: "obc_tlm_init obc_tlm_fields s = (OBC_OK, s1)" "hw s1 = hw s" by simp
  obtain h1 where c1: "chain [puts ''tlm    : layout ok, frame '', print_u32 (of_nat OBC_TLM_FRAME_LEN), puts ('' bytes'' @ crlf)]
      (OBC_OK, s1) = (OBC_OK, s1\<lparr>hw := h1\<rparr>)" "hw_run (hw s1) h1" "length (io h1) \<le> length (io (hw s1)) + 8192 * 3" "calm h1"
    by (rule texts_at [of "[puts ''tlm    : layout ok, frame '', print_u32 (of_nat OBC_TLM_FRAME_LEN), puts ('' bytes'' @ crlf)]" s1])
       (simp_all add: texts t(2) assms del: One_nat_def)
  have b: "boot_tlm (OBC_OK, s) = (OBC_OK, s1\<lparr>hw := h1\<rparr>)"
    unfolding boot_tlm_def prod.case t(1) using c1(1) by simp
  obtain cs s2 where c: "obc_cmd_init obc_cmd_fields obc_cmd_table (s1\<lparr>hw := h1\<rparr>) = (cs, s2)" by fastforce
  then have h2: "hw s2 = h1" by (auto simp: obc_cmd_init_def split: if_splits)
  let ?fs = "[puts (if cs = OBC_OK then ''cmd    : table ok, frame ''
                      else ''cmd    : TABLE AUDIT FAILED, not ingesting, frame ''),
                    print_u32 (of_nat OBC_CMD_FRAME_LEN), puts ('' bytes'' @ crlf)] :: (tasks_state \<Rightarrow> obc_status \<times> tasks_state) list"
  obtain h3 where c2: "chain ?fs (OBC_OK, s2) = (OBC_OK, s2\<lparr>hw := h3\<rparr>)" "hw_run (hw s2) h3"
    "length (io h3) \<le> length (io (hw s2)) + 8192 * 3" "calm h3"
    by (rule texts_at [of ?fs s2]) (simp_all add: texts h2 c1(4) del: One_nat_def)
  have "boot_cmd (boot_tlm (OBC_OK, s)) = (OBC_OK, s2\<lparr>hw := h3\<rparr>)"
    unfolding b boot_cmd_def prod.case c using c2(1) by simp
  then show thesis
    using that [of "s2\<lparr>hw := h3\<rparr>"] c1(2,3) c2(2-4) h2 t(2) hw_run_trans [of "hw s" h1 h3] by simp
qed

lemma boot_prepare_nominal:
  fixes s :: tasks_state
  assumes "good_clock L T s" and "steady T" and "paced T (hw s)" and "calm (hw s)"
    and "unat (T (io (hw s))) + 500000 \<le> L"
    and "\<not> boot_evidence s" and "clean (build_hash im)" and "mscratch im = fault_record_addr im"
  obtains s' where "boot_prepare im s = (Ret (OBC_OK, OBC_OK, OBC_OK), s')" "hw_run (hw s) (hw s')"
    "unat (T (io (hw s'))) \<le> unat (T (io (hw s))) + 400000" "calm (hw s')"
proof -
  let ?s0 = "s\<lparr>hw := obc_uart_init (hw s)\<rparr>"
  note u = uart_init_run [of "hw s"]
  obtain rung s1 where b: "obc_recover_boot_begins ?s0 = (rung, s1)" by fastforce
  note e1 = boot_begins_effect [OF b]
  have hw1: "hw s1 = obc_uart_init (hw s)"
    using b by (auto simp: obc_recover_boot_begins_def Let_def boot_record_write_def)
  have norung: "rung \<noteq> OBC_RUNG_RESET_MACHINE" using e1(5) assms(6) by (simp add: boot_evidence_def)
  have calm1: "calm (hw s1)" using calm_run [OF u(1) assms(4)] hw1 by simp
  obtain h2 where n: "boot_banner im s1 = (OBC_OK, OBC_OK, s1\<lparr>hw := h2\<rparr>)" "hw_run (hw s1) h2"
    "length (io h2) \<le> length (io (hw s1)) + 8192 * 120" "calm h2"
    by (rule banner_calm [OF calm1 assms(7,8)])
  let ?s3 = "boot_restore (s1\<lparr>hw := h2\<rparr>)"
  have h3: "hw ?s3 = h2" using restore_bus [OF assms(6), of "s1\<lparr>hw := h2\<rparr>"] e1(2,3) by simp
  let ?fs = "[puts ''boots  : '', print_u32 (obc_recover_short_boots ?s3), puts ('' consecutive short'' @ crlf)]
      :: (tasks_state \<Rightarrow> obc_status \<times> tasks_state) list"
  obtain h4 where c4: "chain ?fs (OBC_OK, ?s3) = (OBC_OK, ?s3\<lparr>hw := h4\<rparr>)" "hw_run (hw ?s3) h4"
    "length (io h4) \<le> length (io (hw ?s3)) + 8192 * 3" "calm h4"
    by (rule texts_at [of ?fs ?s3]) (simp_all add: texts h3 n(4) del: One_nat_def)
  obtain s6 where t: "boot_cmd (boot_tlm (OBC_OK, ?s3\<lparr>hw := h4\<rparr>)) = (OBC_OK, s6)" "hw_run h4 (hw s6)"
    "length (io (hw s6)) \<le> length (io h4) + 8192 * 6" "calm (hw s6)"
    by (rule tables_calm [of "?s3\<lparr>hw := h4\<rparr>"]) (simp_all add: c4(4))
  have r6: "hw_run (hw s) (hw s6)"
    using u(1) n(2) c4(2) t(2) hw1 h3 hw_run_trans by metis
  have l6: "length (io (hw s6)) \<le> length (io (hw s)) + (7 + 8192 * 129)"
    using u(2) n(3) c4(3) t(3) hw1 h3 by simp
  have g6: "good_clock L T s6" using good_clock_hw [OF assms(1) r6] .
  obtain h7 where k: "print_tick_check s6 = (OBC_OK, s6\<lparr>hw := h7\<rparr>)" "hw_run (hw s6) h7"
    "length (io h7) \<le> length (io (hw s6)) + 8192 * 12" "calm h7"
    by (rule tick_check_steady [OF g6 assms(2) t(4)])
  have r7: "hw_run (hw s) h7" using hw_run_trans [OF r6 k(2)] .
  have t7: "unat (T (io h7)) \<le> unat (T (io (hw s))) + 300000"
    using steady_hw_run [OF assms(2) r7, of "7 + 8192 * 141"] l6 k(3) by simp
  have g7: "good_clock L T (s6\<lparr>hw := h7\<rparr>)" using good_clock_hw [OF assms(1), of "s6\<lparr>hw := h7\<rparr>"] r7 by simp
  have p7: "paced T (hw (s6\<lparr>hw := h7\<rparr>))" using paced_run [OF r7 assms(3)] by simp
  have "unat (T (io (hw (s6\<lparr>hw := h7\<rparr>)))) + 1065 \<le> L" "calm (hw (s6\<lparr>hw := h7\<rparr>))" using t7 assms(5) k(4) by simp_all
  from timebase_paced [OF g7 assms(2) p7 this] obtain h8
    where m: "print_timebase_check (s6\<lparr>hw := h7\<rparr>) = (OBC_OK, s6\<lparr>hw := h8\<rparr>)" "hw_run h7 h8"
      "unat (T (io h8)) \<le> unat (T (io h7)) + 20000" "calm h8" by auto
  have "boot_prepare im s = (Ret (OBC_OK, OBC_OK, OBC_OK), s6\<lparr>hw := h8\<rparr>)"
    unfolding boot_prepare_def b prod.case n(1) Let_def c4(1) if_not_P [OF norung] flow.case t(1) k(1) and_then_ok m(1) by simp
  then show thesis using that [of "s6\<lparr>hw := h8\<rparr>"] hw_run_trans [OF r7 m(2)] t7 m(3,4) by simp
qed

section \<open>The executive's summary\<close>

lemma prints_task:
  assumes "i < 5"
  shows "prints 11 (print_task i)"
  unfolding prints_def
proof (intro allI impI)
  fix s :: tasks_state
  assume c: "calm (hw s)"
  let ?task = "(obc_task_table :: tasks_state obc_task list) ! i" and ?ts = "obc_task_state s ! i"
  let ?fs = "[puts ''  task '', puts (task_name ?task), puts '' runs='', print_u32 (ts_runs ?ts), puts '' max='',
           print_u32 (ts_max_instr ?ts), puts ''/'', print_u32 (budget_instr ?task), puts '' over='',
           print_u32 (ts_overruns ?ts), puts crlf] :: (tasks_state \<Rightarrow> obc_status \<times> tasks_state) list"
  have "i = 0 \<or> i = 1 \<or> i = 2 \<or> i = 3 \<or> i = 4" using assms by auto
  then have "clean (task_name ?task)" by (elim disjE) (simp_all add: obc_task_table_def)
  then have "prints 11 (\<lambda>s. chain ?fs (OBC_OK, s))"
    by (intro prints_texts) (simp_all add: texts del: One_nat_def)
  from prints_at [OF this c] show "\<exists>h. print_task i s = (OBC_OK, s\<lparr>hw := h\<rparr>) \<and> hw_run (hw s) h \<and>
      length (io h) \<le> length (io (hw s)) + 8192 * 11"
    unfolding print_task_def Let_def by blast
qed

lemma summary_nominal:
  fixes s :: tasks_state
  assumes "nominal s" and "calm (hw s)" and "obc_trace_overflow s = 0" and "obc_frame_overruns s = 0"
  obtains h where "print_sched_summary OBC_OK s = (OBC_OK, (snd (obc_mode_is_safe s))\<lparr>hw := h\<rparr>)"
proof -
  obtain safe s1 where m: "obc_mode_is_safe s = (safe, s1)" by fastforce
  have s1: "\<not> safe" "hw s1 = hw s" "obc_trace_overflow s1 = 0" "obc_frame_overruns s1 = 0"
    using nominal_is_safe [OF assms(1)] is_safe_frame(1) [of s] outside_faults(2,3) [of s] assms(3,4) m by simp_all
  have c1: "calm (hw s1)" using s1(2) assms(2) by simp
  have "prints 1 (puts ''sched  : '' :: tasks_state \<Rightarrow> obc_status \<times> tasks_state)" by (rule prints_puts) simp
  from prints_at [OF this c1] obtain h2 where p2: "puts ''sched  : '' s1 = (OBC_OK, s1\<lparr>hw := h2\<rparr>)" "calm h2" by auto
  let ?s2 = "s1\<lparr>hw := h2\<rparr>"
  let ?fs = "[print_u32 (obc_frames_run ?s2), puts '' frames, '', print_u32 (obc_trace_len ?s2),
                     puts '' dispatches, min slack '', print_u32 (obc_slack_ticks_min ?s2), puts ('' ticks'' @ crlf)]
      :: (tasks_state \<Rightarrow> obc_status \<times> tasks_state) list"
  have "prints 6 (\<lambda>s. chain ?fs (OBC_OK, s))" by (rule prints_texts) (simp_all add: texts del: One_nat_def)
  from prints_at [OF this, of ?s2] p2(2) obtain h3 where p3: "chain ?fs (OBC_OK, ?s2) = (OBC_OK, s1\<lparr>hw := h3\<rparr>)" "calm h3"
    by auto
  have "\<forall>f \<in> set (map print_task [0..<obc_task_count]). prints 11 f"
    using prints_task by (auto simp: obc_task_count_eq)
  from prints_at [OF prints_chain [OF this], of "s1\<lparr>hw := h3\<rparr>"] p3(2) obtain h4
    where p4: "chain (map print_task [0..<obc_task_count]) (OBC_OK, s1\<lparr>hw := h3\<rparr>) = (OBC_OK, s1\<lparr>hw := h4\<rparr>)" by auto
  have "print_sched_summary OBC_OK s = (OBC_OK, s1\<lparr>hw := h4\<rparr>)"
    unfolding print_sched_summary_def m prod.case if_not_P [OF s1(1)] p2(1) and_then_ok
    using p3(1) p4 s1(3,4) by (simp del: chain_simps)
  then show thesis using that m by simp
qed

section \<open>The nominal boot\<close>

text \<open>The executive's globals as the startup code leaves them.\<close>

definition fresh :: "'a sched_state_scheme \<Rightarrow> bool" where
  "fresh s \<longleftrightarrow> length (obc_trace s) = 256 \<and> obc_trace_len s = 0 \<and> obc_trace_overflow s = 0 \<and>
     obc_frames_run s = 0 \<and> obc_frame_overruns s = 0 \<and> obc_suspension_count s = 0 \<and>
     s_suspended_task s = 0xFFFFFFFF"

lemma fresh_trace: "fresh s \<Longrightarrow> wf_trace s \<and> recorded s = [] \<and> counts s = (0, 0)"
  by (simp add: fresh_def wf_trace_def recorded_def counts_def)

lemma fresh_unsuspended: "fresh s \<Longrightarrow> \<forall>i < 5. s_suspended_task s \<noteq> of_nat i"
proof -
  have "unat (of_nat i :: u32) = i" if "i < 5" for i using that by (simp add: unat_of_nat take_bit_nat_eq_self)
  then show "fresh s \<Longrightarrow> ?thesis" unfolding fresh_def by (auto dest!: arg_cong [of _ _ unat])
qed

text \<open>The window of a fresh nominal machine: the table, frame by frame, and nothing to report.\<close>

lemma fresh_window:
  fixes s1 :: tasks_state
  assumes "good_clock L T s1" and "steady T" and "unat (T (io (hw s1))) + 2 ^ 33 + 1024 * unat OBC_SCHED_WINDOW_FRAMES \<le> L"
    and "L < 2 ^ 64" and "nominal s1" and "fresh s1" and "calm (hw s1)"
    and "budgets_kept (obc_task_table :: tasks_state obc_task list) (hw s1)"
  obtains s2 where "obc_sched_run obc_task_table OBC_SCHED_WINDOW_FRAMES s1 = (Ret OBC_OK, s2)"
    "nominal s2" "calm (hw s2)" "recorded s2 = concat (map due_in_frame [0..<16])"
    "obc_trace_overflow s2 = 0" "obc_frame_overruns s2 = 0" "obc_frames_run s2 = 16"
proof -
  have set1: "nominal_flight.settled s1"
    unfolding nominal_flight.settled_def flight.unsuspended_def
    using assms(5,7,8) fresh_unsuspended [OF assms(6)] fresh_trace [OF assms(6)] by (simp add: obc_task_count_eq)
  have c1: "obc_suspension_count s1 = 0" using assms(6) by (simp add: fresh_def)
  obtain s2 where r: "obc_sched_run obc_task_table OBC_SCHED_WINDOW_FRAMES s1 = (Ret OBC_OK, s2)"
    "nominal_flight.settled s2"
    "recorded s2 = take 256 (recorded s1 @ flight.schedule (unat OBC_SCHED_WINDOW_FRAMES) 0)"
    "counts s2 = (fst (counts s1) + of_nat (length (flight.schedule (unat OBC_SCHED_WINDOW_FRAMES) 0)), snd (counts s1))"
    using nominal_flight.run_exact [OF assms(1-4) set1 c1] by blast
  have sched: "flight.schedule (unat OBC_SCHED_WINDOW_FRAMES) 0 = concat (map due_in_frame [0..<16])"
    unfolding flight_schedule by (simp only: OBC_SCHED_WINDOW_FRAMES_def unat_numeral) simp
  have rec: "recorded s2 = concat (map due_in_frame [0..<16])" "length (recorded s2) = 46"
    using r(3) fresh_trace [OF assms(6)] window_dispatches unfolding sched by simp_all
  have n2: "nominal s2" "calm (hw s2)" "wf_trace s2" using r(2) by (simp_all add: nominal_flight.settled_def)
  have "unat (obc_trace_len s2) = 46" using rec(2) n2(3) by (simp add: recorded_def wf_trace_def)
  then have "obc_trace_len s2 = 46" by (simp add: word_unat_eq_iff)
  then have "obc_trace_overflow s2 = 0" "obc_frame_overruns s2 = 0"
    using r(4) fresh_trace [OF assms(6)] window_dispatches unfolding sched by (simp_all add: counts_def)
  moreover have "obc_frames_run s2 = 16"
    using flight.run_cadence [OF r(1)] assms(6) by (simp add: fresh_def OBC_SCHED_WINDOW_FRAMES_def)
  ultimately show thesis using that [OF r(1)] n2 rec(1) by blast
qed

text \<open>
  C2: the nominal boot, end to end. A machine whose executive is as the startup code leaves it,
  with no evidence of a fault in its three surviving records, on calm ports, a steady clock
  paced by its instruction counter, and tasks within their budgets, boots to the verdict
  "boot   : ok": every audit, clock check and write succeeded, the window of sixteen frames
  dispatched exactly the 46 tasks of the table in order, no frame overran, the system is
  not in safe mode, and the streak of short boots is cleared.
\<close>

theorem nominal_boot_says_ok:
  fixes s :: tasks_state
  assumes "shows_counter T (hw s)" and "never_backwards T" and "steady T" and "advances L T" and "L < 2 ^ 64"
    and "paced T (hw s)" and "unat (T (io (hw s))) + 2 ^ 34 \<le> L"
    and "calm (hw s)" and "budgets_kept (obc_task_table :: tasks_state obc_task list) (hw s)"
    and "fresh s" and "critical_good (crit s)" and "\<not> boot_evidence s"
    and "clean (build_hash im)" and "mscratch im = fault_record_addr im"
  shows "\<exists>s'. obc_main im s = (Ret True, s') \<and> \<not> fst (obc_mode_is_safe s') \<and>
    recorded s' = concat (map due_in_frame [0..<16]) \<and> obc_frame_overruns s' = 0 \<and>
    obc_frames_run s' = 16 \<and> obc_recover_short_boots s' = 0"
proof -
  have g: "good_clock L T s" using assms(1-4) steady_slow by (simp add: good_clock_def)
  have room: "unat (T (io (hw s))) + 500000 \<le> L" using assms(7) by simp
  obtain s1 where p: "boot_prepare im s = (Ret (OBC_OK, OBC_OK, OBC_OK), s1)" "hw_run (hw s) (hw s1)"
    "unat (T (io (hw s1))) \<le> unat (T (io (hw s))) + 400000" "calm (hw s1)"
    by (rule boot_prepare_nominal [OF g assms(3,6,8) room assms(12-14)])
  note e = boot_prepare_effect [OF p(1) assms(11)]
  have f1: "fresh s1" using assms(10) e(2-4) by (simp add: fresh_def kept_def quiet_def faults_def)
  have room1: "unat (T (io (hw s1))) + 2 ^ 33 + 1024 * unat OBC_SCHED_WINDOW_FRAMES \<le> L"
    using p(3) assms(7) by (simp add: OBC_SCHED_WINDOW_FRAMES_def)
  obtain s2 where r: "obc_sched_run obc_task_table OBC_SCHED_WINDOW_FRAMES s1 = (Ret OBC_OK, s2)"
    and n2: "nominal s2" "calm (hw s2)" and rec: "recorded s2 = concat (map due_in_frame [0..<16])"
    and faults2: "obc_trace_overflow s2 = 0" "obc_frame_overruns s2 = 0" and frames: "obc_frames_run s2 = 16"
    by (rule fresh_window [OF good_clock_hw [OF g p(2)] assms(3) room1 assms(5) e(6) [OF assms(12)] f1 p(4)
        budgets_run [OF p(2) assms(9)]])
  obtain h where s: "print_sched_summary OBC_OK s2 = (OBC_OK, (snd (obc_mode_is_safe s2))\<lparr>hw := h\<rparr>)"
    by (rule summary_nominal [OF n2(1,2) faults2])
  let ?s3 = "(snd (obc_mode_is_safe s2))\<lparr>hw := h\<rparr>"
  have k3: "kept ?s3 = kept s2" "nominal ?s3" "obc_frame_overruns ?s3 = 0"
    using kept_is_safe(1) [of s2] nominal_is_safe [OF n2(1)] outside_faults(3) [of s2] faults2 by (simp_all add: nominal_def)
  have "obc_frames_run ?s3 = 16" using k3(1) frames by (simp add: kept_def)
  then have main: "obc_main im s = (Ret True, say (''boot   : ok'' @ crlf) (boot_record_write 0 0 ?s3))"
    by (simp add: obc_main_def p(1) boot_run_def r s obc_recover_boot_is_healthy_def OBC_HEALTHY_FRAMES_def Let_def)
  let ?e = "say (''boot   : ok'' @ crlf) (boot_record_write 0 0 ?s3)"
  have "kept ?e = kept s2" using k3(1) by (simp add: boot_record_write_def kept_def on_hw_def)
  moreover have "nominal ?e" using k3(2) by (simp add: boot_record_write_def nominal_def on_hw_def)
  moreover have "obc_frame_overruns ?e = 0" "obc_recover_short_boots ?e = 0"
    using k3(3) by (simp_all add: boot_record_write_def obc_recover_short_boots_def on_hw_def)
  ultimately show ?thesis
    using main rec frames trace_cong [of ?e s2] nominal_is_safe [of ?e] by (auto simp: kept_def)
qed

text \<open>A machine for the witness: one tick in 128 accesses, 477 instructions a tick.\<close>

definition paced_ticks :: "io_event list \<Rightarrow> nat" where
  "paced_ticks es = min (length es div 128) (2 ^ 40)"

definition paced_count :: "io_event list \<Rightarrow> u64" where
  "paced_count es = of_nat (paced_ticks es)"

definition paced_hw :: hw where
  "paced_hw =
     \<lparr>dev = (\<lambda>es a. if a = MTIME_LO then ucast (paced_count es)
                   else if a = MTIME_HI then ucast (drop_bit 32 (paced_count es))
                   else if a = UART1_BASE + UART_RXDATA then UART_RXDATA_EMPTY else 0),
      instret = (\<lambda>es. of_nat (477 * paced_ticks es)), io = []\<rparr>"

definition paced_tasks :: tasks_state where
  "paced_tasks = ready_tasks\<lparr>hw := paced_hw\<rparr>"

lemma paced_unat: "unat (paced_count es) = paced_ticks es"
  by (simp add: paced_count_def paced_ticks_def unat_of_nat take_bit_nat_eq_self)

lemma paced_ticks_grow:
  "length es \<le> n \<Longrightarrow> paced_ticks (es @ t) \<le> paced_ticks t + (n div 128 + 1)"
proof -
  assume "length es \<le> n"
  then have "length (es @ t) div 128 \<le> length t div 128 + (n div 128 + 1)" by simp
  then show ?thesis unfolding paced_ticks_def by linarith
qed

lemma paced_ticks_mono: "paced_ticks t \<le> paced_ticks (es @ t)"
  unfolding paced_ticks_def by (intro min.mono div_le_mono) simp_all

lemma paced_clock:
  "shows_counter paced_count paced_hw" "never_backwards paced_count" "steady paced_count"
  "advances (2 ^ 40) paced_count"
proof -
  show "shows_counter paced_count paced_hw"
    by (simp add: shows_counter_def paced_hw_def MTIME_HI_def MTIME_LO_def)
  show "never_backwards paced_count"
    using paced_ticks_mono [of _ "[_]"] by (simp add: never_backwards_def word_le_nat_alt paced_unat)
  show "steady paced_count"
    unfolding steady_def paced_unat
  proof (intro allI)
    fix es t :: "io_event list"
    have "length es div 128 \<le> length es div 4" by (rule div_le_mono2) simp_all
    then show "paced_ticks (es @ t) \<le> paced_ticks t + length es div 4 + 64"
      using paced_ticks_grow [of es "length es" t] by simp
  qed
  show "advances (2 ^ 40) paced_count"
    unfolding advances_def word_less_nat_alt paced_unat
  proof (intro allI impI)
    fix es t :: "io_event list"
    assume "8192 \<le> length es" and "paced_ticks t < 2 ^ 40"
    moreover from this have "length t div 128 + 1 \<le> length (es @ t) div 128" by simp
    ultimately show "paced_ticks t < paced_ticks (es @ t)" unfolding paced_ticks_def by linarith
  qed
qed

lemma paced_difference:
  assumes "paced_ticks b \<le> paced_ticks d" and "paced_ticks d \<le> paced_ticks b + 2000"
  shows "unat (instret paced_hw d - instret paced_hw b) = 477 * (paced_ticks d - paced_ticks b)"
proof -
  have "instret paced_hw d - instret paced_hw b = of_nat (477 * paced_ticks d - 477 * paced_ticks b)"
    using assms(1) by (simp add: paced_hw_def of_nat_diff)
  also have "477 * paced_ticks d - 477 * paced_ticks b = 477 * (paced_ticks d - paced_ticks b)" by simp
  finally show ?thesis using assms(2) by (simp only: unat_of_nat) (simp add: take_bit_nat_eq_self)
qed

lemma paced_near:
  assumes "suffix a b" and "length b \<le> length a + 12"
  shows "paced_ticks a \<le> paced_ticks b" "paced_ticks b \<le> paced_ticks a + 1"
proof -
  obtain es where es: "b = es @ a" using assms(1) by (auto simp: suffix_def)
  then show "paced_ticks a \<le> paced_ticks b" using paced_ticks_mono by simp
  show "paced_ticks b \<le> paced_ticks a + 1" using paced_ticks_grow [of es 12 a] assms(2) es by simp
qed

lemma paced_paced: "paced paced_count paced_hw"
  unfolding paced_def paced_unat
proof (intro allI impI)
  fix a b c d :: "io_event list"
  let ?k = "paced_ticks c - paced_ticks a"
  assume s: "suffix a b" "suffix b c" "suffix c d" and l: "length b \<le> length a + 12" "length d \<le> length c + 12"
    and k: "500 \<le> ?k" "?k \<le> 1000"
  note ab = paced_near [OF s(1) l(1)] and cd = paced_near [OF s(3) l(2)]
  have bd: "paced_ticks b \<le> paced_ticks d" "paced_ticks d \<le> paced_ticks b + 2000" using ab cd k by linarith+
  have "paced_ticks d - paced_ticks b \<le> ?k + 1" "?k \<le> paced_ticks d - paced_ticks b + 1" using ab cd k by linarith+
  then show "472069 * ?k \<le> 1000 * unat (instret paced_hw d - instret paced_hw b) \<and>
      1000 * unat (instret paced_hw d - instret paced_hw b) \<le> 481605 * ?k"
    unfolding paced_difference [OF bd] using k by linarith
qed

lemma paced_calm: "calm paced_hw"
  by (simp add: calm_def port_ready_def paced_hw_def MTIME_LO_def MTIME_HI_def UART0_BASE_def UART1_BASE_def
      UART_TXDATA_def UART_RXDATA_def UART_RXDATA_EMPTY_def)

lemma paced_budgets: "budgets_kept (obc_task_table :: tasks_state obc_task list) paced_hw"
  unfolding budgets_kept_def
proof (intro ballI allI impI)
  fix task :: "tasks_state obc_task" and t :: tasks_state
  assume task: "task \<in> set obc_task_table" and run: "hw_run paced_hw (hw t)"
  then obtain i where i: "i < length (obc_task_table :: tasks_state obc_task list)" "task = obc_task_table ! i"
    unfolding in_set_conv_nth by auto
  have budget: "1000 \<le> unat (budget_instr task)"
    using task by (auto simp: obc_task_table_def task_consts)
  show "in_budget task t"
  proof (cases "task_fn task")
    case None
    then show ?thesis by (simp add: in_budget_def)
  next
    case (Some f)
    obtain b s1 where m: "minstret t = (b, s1)" by fastforce
    have w1: "within 1 t s1" using minstret_within [of t] m by simp
    have c1: "calm (hw s1)"
      using calm_run [OF _ calm_run [OF run paced_calm]] w1 by (simp add: within_def on_bus_def)
    have "within 194 s1 (f s1)" using nominal_flight.task_cost [of i f s1] i Some c1 by simp
    from within_trans [OF w1 this] have w: "within 195 t (f s1)" by simp
    then obtain es where es: "io (hw (f s1)) = es @ io (hw t)" "length es \<le> 195"
      by (auto simp: within_def on_bus_def hw_run_def suffix_def)
    have ins: "instret (hw u) = instret paced_hw" if "hw_run paced_hw (hw u)" for u :: tasks_state
      using that by (simp add: hw_run_def)
    have "hw_run paced_hw (hw (f s1))" using run w hw_run_trans by (auto simp: within_def on_bus_def)
    then have used: "fst (minstret (f s1)) - b = instret paced_hw (es @ io (hw t)) - instret paced_hw (io (hw t))"
      using ins [OF run] ins m es(1) by (auto simp: minstret_def read_minstret_def Let_def)
    have g: "paced_ticks (io (hw t)) \<le> paced_ticks (es @ io (hw t))" "paced_ticks (es @ io (hw t)) \<le> paced_ticks (io (hw t)) + 2"
      using paced_ticks_mono paced_ticks_grow [OF es(2), of "io (hw t)"] by simp_all
    then have "unat (fst (minstret (f s1)) - b) \<le> 954"
      unfolding used by (subst paced_difference) simp_all
    then show ?thesis using budget m Some by (simp add: in_budget_def word_le_nat_alt)
  qed
qed

lemma paced_boots:
  "fresh paced_tasks" "critical_good (crit paced_tasks)" "\<not> boot_evidence paced_tasks"
proof -
  let ?s = "tlm_state.extend ready_tlm (tasks_state.fields 0)"
  have r: "obc_trace ?s = replicate 256 0" "obc_trace_len ?s = 0" "obc_trace_overflow ?s = 0" "obc_frames_run ?s = 0"
    "obc_frame_overruns ?s = 0" "quiet ?s = (0xFFFFFFFF, 0xFFFFFFFF, 0)" "obc_fault_record ?s = record_at 0 (\<lambda>_. 0)"
    "mr_magic (obc_mode_record ?s) = 0" "br_magic (obc_boot_record ?s) = 7" "critical_good (crit ?s)"
    using cold_recover_good(1)
    by (simp_all add: tlm_state.defs tasks_state.defs ready_tlm_def cold_tlm_def cold_sched_def sched_state.defs
        cmd_state.defs ready_cmd_def cold_cmd_def cold_recover_def recover_state.defs mode_state.defs cold_machine_def
        obc_cmd_init_def quiet_def)
  define t where "t = obc_mode_restore 3 ?s"
  have no: "\<not> mode_intact (obc_mode_record ?s)" using r(8) by (simp add: mode_intact_def OBC_MODE_MAGIC_def)
  have t: "t = ?s\<lparr>crit := obc_critical_set (Some obc_critical_mode) OBC_MODE_NOMINAL (crit ?s),
      obc_mode := OBC_MODE_NOMINAL, obc_safe_reason := OBC_SAFE_NONE, s_announced := 0\<rparr>"
    using no by (simp add: t_def obc_mode_restore_def Let_def OBC_RESET_TRAP_def OBC_RESET_DOUBLE_FAULT_def)
  have p: "paced_tasks = t\<lparr>hw := paced_hw\<rparr>" by (simp add: paced_tasks_def ready_tasks_def t_def)
  show "critical_good (crit paced_tasks)" using r(10) by (simp add: p t mode_word.put_good)
  show "fresh paced_tasks" using r(1-6) by (simp add: p t fresh_def quiet_def)
  have "boots_counted (obc_boot_record ?s) = 0"
    using r(9) by (simp add: boots_counted_def boot_record_is_intact_def OBC_BOOT_MAGIC_def)
  moreover have "snd (obc_fault_validate (Some OBC_RESET_UNKNOWN) (record_at 0 (\<lambda>_. 0))) = Some OBC_RESET_UNKNOWN" by code_simp
  ultimately show "\<not> boot_evidence paced_tasks"
    using no r(7) by (simp add: p t boot_evidence_def OBC_RESET_UNKNOWN_def OBC_RESET_TRAP_def OBC_RESET_DOUBLE_FAULT_def
        OBC_SHORT_BOOT_LIMIT_def)
qed

theorem nominal_boot_says_ok_witness:
  "\<exists>s'. obc_main flight_image paced_tasks = (Ret True, s') \<and>
     recorded s' = concat (map due_in_frame [0..<16]) \<and> obc_recover_short_boots s' = 0"
proof -
  have h: "hw paced_tasks = paced_hw" by (simp add: paced_tasks_def)
  have room: "unat (paced_count (io (hw paced_tasks))) + 2 ^ 34 \<le> 2 ^ 40"
    by (simp add: h paced_unat paced_hw_def paced_ticks_def)
  have im: "clean (build_hash flight_image)" "mscratch flight_image = fault_record_addr flight_image"
    by (simp_all add: flight_image_def)
  from nominal_boot_says_ok [OF _ paced_clock(2-4) _ _ room _ _ paced_boots im] show ?thesis
    using paced_clock(1) paced_paced paced_calm paced_budgets by (auto simp: h)
qed

end
