(* ===== verification/Mission.thy ===== *)
theory Mission
  imports Memory Boot
begin

text \<open>
  Boot after boot. What the startup code leaves of the C globals, the relation between the end
  of one boot and the start of the next, and a mission as the reflexive transitive closure of
  boots, each of which parks, resets or is cut between two stages or inside its window: the shape of the state, the
  mode record and the count of short boots are followed across any number of boots, with the
  devices, the fault record and the critical copies arbitrary at the start of each.
\<close>

section \<open>From one boot to the next\<close>

text \<open>\<^verbatim>\<open>.bss\<close> zeroed and \<^verbatim>\<open>.data\<close> copied, over every variable of the flight state. The records of
  \<^verbatim>\<open>.noinit\<close>, the raw inputs and the three copies of the mode word keep what the memory held.\<close>

definition startup_queue :: queue_st where
  "startup_queue =
     \<lparr>obc_cmd_queue = replicate 4 \<lparr>sl_when = 0, sl_arg = 0, sl_counter = 0, sl_opcode = 0, sl_occupied = 0\<rparr>,
      obc_cmd_queued = 0, obc_cmd_executed = 0, obc_cmd_late = 0, obc_cmd_armed_opcode = 0,
      obc_cmd_armed_until = 0, obc_cmd_noop_arg = 0, obc_cmd_ping_count = 0, obc_cmd_arm_target = 0,
      obc_cmd_safe_requested = 0\<rparr>"

definition startup_sensors :: "sensor_st \<Rightarrow> sensor_st" where
  "startup_sensors x =
     \<lparr>obc_sensor_value = [0, 0], obc_sensor_flags = 0, obc_sensor_rejects_range = [0, 0],
      obc_sensor_rejects_stuck = [0, 0], obc_sensor_mock_raw = obc_sensor_mock_raw x, s_last_raw = [0, 0],
      s_run = [0, 0], s_seen = [0, 0]\<rparr>"

definition tasks_startup :: "tasks_state \<Rightarrow> tasks_state" where
  "tasks_startup s =
     (recover_startup s)
       \<lparr>cmd_q := startup_queue, obc_cmd_examined := 0, obc_cmd_accepted := 0,
        obc_cmd_rejected := replicate OBC_CMD_REJECT_COUNT 0, obc_cmd_announced := 0, s_last_counter := 0,
        s_table_ok := 0, s_rx := replicate OBC_CMD_FRAME_LEN 0, s_fill := 0,
        obc_trace := replicate 256 0, obc_trace_len := 0, obc_trace_overflow := 0,
        obc_task_state := replicate (unat OBC_MAX_TASKS) \<lparr>ts_runs = 0, ts_overruns = 0, ts_max_instr = 0\<rparr>,
        obc_frames_run := 0, obc_frame_overruns := 0, obc_slack_ticks_min := 0, obc_window_start_ticks := 0,
        obc_window_end_ticks := 0, obc_cmd_now_ticks := 0, obc_safe_entry_frame := OBC_SAFE_ENTRY_NONE,
        obc_reset_cause_previous := 0, sensors := startup_sensors (sensors s),
        obc_tlm_frame := replicate OBC_TLM_FRAME_LEN 0, obc_tlm_seq := 0, obc_tlm_subsystem_resets := 0,
        obc_tlm_drops := 0, obc_tlm_drops_consecutive := 0, s_layout_ok := 0, work_sink := 0\<rparr>"

text \<open>
  The next boot starts from what the startup code makes of the memory the last one left. In
  between the devices may have changed, a trap may have written the fault record, and any
  upset may have hit the three copies and the inputs.
\<close>

definition restart :: "tasks_state \<Rightarrow> tasks_state \<Rightarrow> bool" where
  "restart t u \<longleftrightarrow>
     (\<exists>h fr copies raws. length copies = 3 \<and> length raws = 2 \<and>
        u = (tasks_startup t)\<lparr>hw := h, obc_fault_record := fr,
              crit := (crit (tasks_startup t))\<lparr>obc_critical_items := [mode_item copies]\<rparr>,
              sensors := (sensors (tasks_startup t))\<lparr>obc_sensor_mock_raw := raws\<rparr>\<rparr>)"

text \<open>
  How a boot ends: it parks, it resets the machine on its own account, or it is cut inside the
  window, by a trap or by the hardware watchdog, at any frame, any table entry and any turn of
  the idle loop.
\<close>

inductive boot_ends :: "tasks_state \<Rightarrow> tasks_state \<Rightarrow> bool" where
  parked: "obc_main im s = (Ret ok, t) \<Longrightarrow> boot_ends s t"
| reset: "obc_main im s = (Reset, t) \<Longrightarrow> boot_ends s t"
| cut: "k < unat OBC_SCHED_WINDOW_FRAMES \<Longrightarrow> boot_ends s (main_cut im k m turns s)"

text \<open>Or it does not get that far, cut between two stages before its window.\<close>

inductive boot_stops :: "tasks_state \<Rightarrow> tasks_state \<Rightarrow> bool" where
  ended: "boot_ends s t \<Longrightarrow> boot_stops s t"
| early: "boot_stops s (prepare_cut im p s)"

inductive_cases boot_endsE: "boot_ends s t"

inductive_simps boot_stops_iff: "boot_stops s t"

text \<open>One boot and the startup after it.\<close>

definition mission_step :: "tasks_state \<Rightarrow> tasks_state \<Rightarrow> bool" where
  "mission_step s u \<longleftrightarrow> (\<exists>t. boot_stops s t \<and> restart t u)"

lemma mission_stepI: "boot_ends s t \<Longrightarrow> restart t u \<Longrightarrow> mission_step s u"
  by (auto simp: mission_step_def intro: ended)

lemma main_ends: "obc_main im s = (fl, t) \<Longrightarrow> boot_ends s t"
  by (cases fl) (auto intro: boot_ends.intros)

text \<open>A boot that ends by resetting the machine, on its own account.\<close>

definition resets_into :: "tasks_state \<Rightarrow> tasks_state \<Rightarrow> bool" where
  "resets_into s u \<longleftrightarrow> (\<exists>im t. obc_main im s = (Reset, t) \<and> restart t u)"

text \<open>A boot that fails once it has marked itself begun: it resets the machine or is cut.\<close>

definition fails_at :: "tasks_state \<Rightarrow> tasks_state \<Rightarrow> bool" where
  "fails_at s t \<longleftrightarrow> (\<exists>im. obc_main im s = (Reset, t)) \<or> (\<exists>im k m turns. t = main_cut im k m turns s) \<or>
     (\<exists>im p. 0 < p \<and> t = prepare_cut im p s)"

definition fails_into :: "tasks_state \<Rightarrow> tasks_state \<Rightarrow> bool" where
  "fails_into s u \<longleftrightarrow> (\<exists>t. fails_at s t \<and> restart t u)"

text \<open>Whatever every step of a boot respects holds between its start and wherever it stops.\<close>

context boot_steps
begin

lemma ends_steps: "boot_ends s t \<Longrightarrow> R s t"
  by (elim boot_endsE) (use main_steps main_cut_steps in \<open>metis snd_conv\<close>)+

lemma stops_steps: "boot_stops s t \<Longrightarrow> R s t"
  using ends_steps prepare_cut_steps by (auto simp: boot_stops_iff)

end

section \<open>What a restart leaves\<close>

lemma restart_records:
  assumes "restart t u"
  shows "obc_mode_record u = obc_mode_record t" "obc_boot_record u = obc_boot_record t"
    "s_announced u = 0" "critical_good (crit u)" "wf_trace u" "recorded u = []" "fresh u" "wf_flight u"
proof -
  obtain h fr copies raws where c: "length copies = 3" "length raws = 2" and
    u: "u = (tasks_startup t)\<lparr>hw := h, obc_fault_record := fr,
              crit := (crit (tasks_startup t))\<lparr>obc_critical_items := [mode_item copies]\<rparr>,
              sensors := (sensors (tasks_startup t))\<lparr>obc_sensor_mock_raw := raws\<rparr>\<rparr>"
    using assms unfolding restart_def by blast
  note d = u tasks_startup_def recover_startup_def mode_startup_def
  show "obc_mode_record u = obc_mode_record t" "obc_boot_record u = obc_boot_record t" "s_announced u = 0"
    by (simp_all add: d)
  show g: "critical_good (crit u)"
    using c(1) by (simp add: d critical_good_def wf_critical_def wf_item_def mode_item_def
        OBC_CRITICAL_SEED_0_def OBC_CRITICAL_SEED_1_def OBC_CRITICAL_SEED_2_def)
  show f: "fresh u" by (simp add: d fresh_def)
  show "wf_trace u" "recorded u = []" using fresh_trace [OF f] by simp_all
  have "wf_queue (cmd_q u)"
    by (simp add: d startup_queue_def wf_queue_def held_def OBC_CMD_QUEUE_LEN_def upt_rec)
  then show "wf_flight u"
    using g c(2) by (simp add: wf_shapes)
      (simp add: d startup_sensors_def wf_sensor_def OBC_SENSOR_COUNT_def cmd_layout)
qed

section \<open>The shape of the state\<close>

lemma boot_wf: "boot_stops s t \<Longrightarrow> wf_flight s \<Longrightarrow> wf_flight t"
  using shape.stops_steps by blast

lemma mission_wf: "mission_step\<^sup>*\<^sup>* s v \<Longrightarrow> wf_flight s \<Longrightarrow> wf_flight v"
  by (induction rule: rtranclp_induct) (auto simp: mission_step_def dest: restart_records(8))

section \<open>The count of short boots\<close>

lemma mtime_record: "obc_boot_record (snd (snd (obc_mtime_read out s))) = obc_boot_record s"
  by (cases "mtime_attempts MTIME_READ_ATTEMPTS (hw s)") (simp add: obc_mtime_read_def split: option.split)

interpretation counted: booting_steps "\<lambda>s t. obc_boot_record t = obc_boot_record s"
proof unfold_locales
  show "length (obc_task_table :: tasks_state obc_task list) \<le> 8" by (simp add: obc_task_count_eq)
  fix s :: tasks_state and q c x y r i f
  show "obc_boot_record (snd (obc_mode_is_safe s)) = obc_boot_record s"
    "obc_boot_record (obc_mode_enter_safe q s) = obc_boot_record s"
    using is_safe_bus [of s] enter_safe_bus [of s q] by (simp_all add: on_bus_def)
  show "obc_boot_record (obc_mode_restore c s) = obc_boot_record s"
    using enter_safe_bus unfolding on_bus_def by (simp add: obc_mode_restore_def Let_def)
  show "obc_boot_record (f s) = obc_boot_record s"
    if "i < length (obc_task_table :: tasks_state obc_task list)" "task_fn ((obc_task_table :: tasks_state obc_task list) ! i) = Some f"
    using live.disciplined_task [OF that] by (simp add: disciplined_def)
  show "obc_boot_record (f s) = obc_boot_record s"
    if "i < length (obc_task_table :: tasks_state obc_task list)" "reset_fn ((obc_task_table :: tasks_state obc_task list) ! i) = Some f"
    using live.disciplined_reset [OF that] by (simp add: disciplined_def)
qed (simp_all add: log_suspension_def trace_push_def account_def Let_def obc_tlm_init_def obc_cmd_init_def)

text \<open>Once the limit is reached, nothing in a window resets the machine, whatever the clock does.\<close>

lemma kept_limit: "obc_boot_record t = obc_boot_record s \<Longrightarrow> out_of_resets t = out_of_resets s"
  by (simp add: out_of_resets_def obc_recover_short_boots_def boot_record_is_intact_def)

lemma no_reset_frame:
  fixes s :: tasks_state
  assumes "out_of_resets s" and "frame_step obc_task_table frame start s = (fl, s')"
  shows "fl \<noteq> Reset"
proof -
  let ?s0 = "s\<lparr>obc_cmd_now_ticks := ucast start\<rparr>"
  obtain f1 s1 where d: "dispatch_loop obc_task_table frame [0..<length (obc_task_table :: tasks_state obc_task list)] 0 0 ?s0 = (f1, s1)"
    by fastforce
  have "out_of_resets ?s0" using kept_limit [of ?s0 s] assms(1) by simp
  then have "f1 \<noteq> Reset" using live.loop_bus(2) [OF _ d] by simp
  then show ?thesis using assms(2) d by (auto simp: frame_step_def Let_def split: flow.splits prod.splits if_splits)
qed

lemma no_reset_frames:
  fixes s :: tasks_state
  assumes "out_of_resets s"
  shows "fst (frame_loop obc_task_table k frame start s) \<noteq> Reset"
  using assms
proof (induction k arbitrary: frame start s)
  case 0
  then show ?case by simp
next
  case (Suc k)
  obtain f1 s1 where f: "frame_step obc_task_table frame start s = (f1, s1)" by fastforce
  have "f1 \<noteq> Reset" by (rule no_reset_frame [OF Suc.prems f])
  moreover have "out_of_resets s1"
    using kept_limit [of s1 s] counted.frame_step_steps [where s = s and frame = frame and start = start] f Suc.prems by simp
  ultimately show ?case using f Suc.IH [of s1] by (simp split: flow.split)
qed

lemma no_reset_run:
  fixes s :: tasks_state
  assumes "out_of_resets s"
  shows "fst (obc_sched_run obc_task_table frames s) \<noteq> Reset"
proof -
  let ?s0 = "obc_recover_arm_hardware s"
  obtain st start s1 where n: "sched_now 0 0 ?s0 = (st, start, s1)" by (metis prod_cases3)
  let ?s2 = "s1\<lparr>obc_slack_ticks_min := OBC_FRAME_TICKS, obc_window_start_ticks := ucast start\<rparr>"
  obtain safe s3 where m: "obc_mode_is_safe ?s2 = (safe, s3)" by fastforce
  have "obc_boot_record s1 = obc_boot_record s"
    using counted.sched_now_steps [where s = ?s0 and x = 0 and frame = 0] counted.watchdog_steps(2) [where s = s] n by simp
  moreover have "obc_boot_record s3 = obc_boot_record s1" using counted.vote_step [where s = ?s2] m by simp
  ultimately have "out_of_resets s3" "out_of_resets (s3\<lparr>obc_safe_entry_frame := 0\<rparr>)"
    using kept_limit [of s3 s] kept_limit [of "s3\<lparr>obc_safe_entry_frame := 0\<rparr>" s] assms by simp_all
  then have "fst (run_window obc_task_table frames ?s0) \<noteq> Reset"
    using no_reset_frames n m by (simp add: run_window_def Let_def)
  then show ?thesis by (auto simp: obc_sched_run_def split: prod.split flow.split)
qed

text \<open>A boot that ends in a reset had not reached the limit, and is counted by the next.\<close>

lemma reset_is_counted:
  assumes "obc_main im s = (Reset, t)" and "critical_good (crit s)"
  shows "boots_counted (obc_boot_record s) < OBC_SHORT_BOOT_LIMIT"
    "boots_counted (obc_boot_record t) = boots_counted (obc_boot_record s) + 1"
proof -
  let ?c = "boots_counted (obc_boot_record s)"
  obtain rung s0 where b: "obc_recover_boot_begins (s\<lparr>hw := obc_uart_init (hw s)\<rparr>) = (rung, s0)" by fastforce
  have r0: "obc_boot_record s0 = run_stores (boot_stores ?c 1) (obc_boot_record s)"
    using b by (auto simp: obc_recover_boot_begins_def Let_def boot_record_write_def)
  obtain f1 s1 where p: "boot_prepare im s = (f1, s1)" by fastforce
  have r1: "obc_boot_record s1 = obc_boot_record s0" using counted.prepare_after_count [OF b, where im = im] p by simp
  obtain st tick_st inv_st where f1: "f1 = Ret (st, tick_st, inv_st)"
    using boot_prepare_effect(1) [OF p assms(2)] by (cases f1) auto
  obtain f2 s2 where r: "boot_run st tick_st s1 = (f2, s2)" by fastforce
  have f2: "f2 = Reset" "t = s2"
    using assms(1) by (simp_all add: obc_main_def p f1 r Let_def split: flow.splits if_splits prod.splits)
  have r2: "obc_boot_record s2 = obc_boot_record s1" using counted.boot_run_steps [where s = s1 and st = st and tick_st = tick_st] r by simp
  show "boots_counted (obc_boot_record t) = ?c + 1" unfolding f2(2) r2 r1 r0 by simp
  have "obc_recover_short_boots s1 = obc_recover_short_boots s0"
    using r1 by (simp add: obc_recover_short_boots_def)
  then have short: "obc_recover_short_boots s1 = ?c" using boot_begins_effect(4) [OF b] by simp
  have "fst (boot_run st tick_st s1) \<noteq> Reset" if "out_of_resets s1"
    using no_reset_run [OF that, of OBC_SCHED_WINDOW_FRAMES] by (auto simp: boot_run_def split: prod.split flow.split)
  then have "\<not> out_of_resets s1" using r f2(1) by auto
  then show "?c < OBC_SHORT_BOOT_LIMIT" by (simp add: out_of_resets_def short)
qed

text \<open>A boot that is cut is counted by the next, reset limit or not.\<close>

lemma failure_is_counted:
  assumes "fails_at s t" and "critical_good (crit s)"
  shows "boots_counted (obc_boot_record t) = boots_counted (obc_boot_record s) + 1"
proof -
  obtain rung s0 where b: "obc_recover_boot_begins (s\<lparr>hw := obc_uart_init (hw s)\<rparr>) = (rung, s0)" by fastforce
  have begun: "obc_boot_record s0 = run_stores (boot_stores (boots_counted (obc_boot_record s)) 1) (obc_boot_record s)"
    using b by (auto simp: obc_recover_boot_begins_def Let_def boot_record_write_def)
  have "boots_counted (obc_boot_record u) = boots_counted (obc_boot_record s) + 1"
    if "obc_boot_record u = obc_boot_record s0" for u :: tasks_state
    unfolding that begun by simp
  then show ?thesis
    using assms reset_is_counted(2) counted.main_cut_after_count [OF b] counted.prepare_cut_after_count [OF b]
    unfolding fails_at_def by blast
qed

text \<open>A mission boot by boot.\<close>

definition consecutive :: "(nat \<Rightarrow> tasks_state) \<Rightarrow> bool" where
  "consecutive s \<longleftrightarrow> (\<exists>t. restart t (s 0)) \<and> (\<forall>k. mission_step (s k) (s (Suc k)))"

lemma consecutive_restart: "consecutive s \<Longrightarrow> \<exists>t. restart t (s k)"
  by (cases k) (auto simp: consecutive_def mission_step_def)

lemma consecutive_reaches: "consecutive s \<Longrightarrow> mission_step\<^sup>*\<^sup>* (s k) (s (k + n))"
  by (induction n) (auto simp: consecutive_def intro: rtranclp.rtrancl_into_rtrancl)

lemma resets_count:
  assumes "consecutive s" and "\<forall>j < n. resets_into (s (m + j)) (s (m + j + 1))"
  shows "n \<le> 5 \<and> n \<le> unat (boots_counted (obc_boot_record (s (m + n))))"
  using assms(2)
proof (induction n)
  case 0
  then show ?case by simp
next
  case (Suc n)
  obtain im t where t: "obc_main im (s (m + n)) = (Reset, t)" "restart t (s (m + n + 1))"
    using Suc.prems by (auto simp: resets_into_def)
  have "critical_good (crit (s (m + n)))" using consecutive_restart [OF assms(1)] restart_records(4) by blast
  note c = reset_is_counted [OF t(1) this]
  have b: "unat (boots_counted (obc_boot_record (s (m + n)))) < 5"
    using c(1) by (simp add: OBC_SHORT_BOOT_LIMIT_def word_less_nat_alt)
  then have "unat (boots_counted (obc_boot_record (s (m + n))) + 1) = unat (boots_counted (obc_boot_record (s (m + n)))) + 1"
    by (simp add: unat_word_ariths)
  then show ?case using b c(2) Suc restart_records(2) [OF t(2)] by simp
qed

lemma fails_count:
  assumes "consecutive s" and "\<forall>j < n. fails_into (s (m + j)) (s (m + j + 1))"
    and "unat (boots_counted (obc_boot_record (s m))) + n < 2 ^ 32"
  shows "unat (boots_counted (obc_boot_record (s (m + n)))) = unat (boots_counted (obc_boot_record (s m))) + n"
  using assms(2,3)
proof (induction n)
  case 0
  then show ?case by simp
next
  case (Suc n)
  have "fails_into (s (m + n)) (s (m + n + 1))" using Suc.prems(1) by simp
  then obtain t where t: "fails_at (s (m + n)) t" "restart t (s (m + n + 1))" unfolding fails_into_def by blast
  have "critical_good (crit (s (m + n)))" using consecutive_restart [OF assms(1)] restart_records(4) by blast
  then have "boots_counted (obc_boot_record t) = boots_counted (obc_boot_record (s (m + n))) + 1"
    by (rule failure_is_counted [OF t(1)])
  moreover have "unat (boots_counted (obc_boot_record (s (m + n)))) = unat (boots_counted (obc_boot_record (s m))) + n"
    using Suc by simp
  ultimately show ?case
    using Suc.prems(2) restart_records(2) [OF t(2)] by (simp add: unat_word_ariths)
qed

section \<open>The mode record\<close>

text \<open>Tasks and subsystem resets leave the record and the announcement alone.\<close>

definition mode_marks :: "'a mode_state_scheme \<Rightarrow> u32 \<times> mode_record" where
  "mode_marks s = (s_announced s, obc_mode_record s)"

lemma marks_vote [simp]: "mode_marks (snd (obc_mode_is_safe s)) = mode_marks s"
  by (simp add: mode_marks_def obc_mode_is_safe_def split: prod.split)

lemma marks_refuse: "mode_marks (snd (snd (refuse r out s))) = mode_marks s"
  by (simp add: mode_marks_def refuse_def Let_def announce_once_def on_hw_def)

lemma marks_ingest:
  assumes "obc_cmd_ingest table fp len reason s = (st, reason', s')"
  shows "mode_marks s' = mode_marks s"
proof (cases "s_table_ok s = 0 \<or> fp = None")
  case True
  then show ?thesis using assms by (simp add: ingest_off)
next
  case False
  then obtain frame where f: "fp = Some frame" and ok: "s_table_ok s \<noteq> 0" by auto
  have "mode_marks (accept_frame frame (count_examined s)) = mode_marks s" "mode_marks (count_examined s) = mode_marks s"
    by (simp_all add: mode_marks_def accept_frame_def count_examined_def)
  then show ?thesis
    using assms marks_refuse [of "verdict table frame len s" reason "count_examined s"]
    unfolding f ingest_eq [OF ok] Let_def by (auto split: if_splits)
qed

lemma marks_command: "mode_marks (task_command s) = mode_marks s"
proof -
  have l: "mode_marks (snd (poll_loop n obc_cmd_table k s)) = mode_marks s" for n k
    by (rule poll_loop_keeps [of "\<lambda>t. mode_marks t = mode_marks s"]) (auto simp: marks_ingest, simp_all add: mode_marks_def)
  have "mode_marks (obc_cmd_poll obc_cmd_table s) = mode_marks s"
    using l [of OBC_CMD_RX_BYTES 0]
    by (auto simp: obc_cmd_poll_def marks_refuse split: prod.split) (simp_all add: mode_marks_def)
  then show ?thesis by (simp add: task_command_def Let_def mode_marks_def)
qed

lemma marks_telemetry: "mode_marks (task_telemetry n s) = mode_marks s"
proof -
  have "mode_marks (snd (obc_tlm_emit n s)) = mode_marks s" for s :: "'a tasks_state_scheme"
  proof (cases "s_layout_ok s = 0")
    case True
    then show ?thesis by (simp add: obc_tlm_emit_def)
  next
    case False
    obtain st now s1 where m: "obc_mtime_read (Some 0) s = (st, now, s1)" by (metis prod_cases3)
    obtain h c where s1: "s1 = s\<lparr>hw := h, s_unstable_count := c\<rparr>" by (rule mtime_keeps [OF m])
    obtain safe s3 where v: "obc_mode_is_safe (pack (puts_before_vote n (if st = OBC_OK then ucast (the now AND 0xFFFFFFFF)
        else 0xFFFFFFFF) s1) s1) = (safe, s3)" by fastforce
    have "mode_marks s3 = mode_marks s"
      using marks_vote [of "pack (puts_before_vote n (if st = OBC_OK then ucast (the now AND 0xFFFFFFFF)
        else 0xFFFFFFFF) s1) s1"] unfolding v by (simp add: s1 pack_def mode_marks_def)
    then show ?thesis
      unfolding obc_tlm_emit_def if_not_P [OF False] m prod.case Let_def v
      by (simp add: pack_def mode_marks_def on_hw_def split: prod.split)
  qed
  then show ?thesis by (simp add: task_telemetry_def) (simp add: mode_marks_def)
qed

lemma marks_task:
  assumes "i < length (obc_task_table :: tasks_state obc_task list)"
  shows "task_fn ((obc_task_table :: tasks_state obc_task list) ! i) = Some f \<Longrightarrow> mode_marks (f s) = mode_marks s"
    "reset_fn ((obc_task_table :: tasks_state obc_task list) ! i) = Some f \<Longrightarrow> mode_marks (f s) = mode_marks s"
proof -
  have "mode_marks (work n s) = mode_marks s" "mode_marks (task_scrub s) = mode_marks s"
    "mode_marks (obc_tlm_subsystem_reset s) = mode_marks s" "mode_marks (s\<lparr>cmd_q := q\<rparr>) = mode_marks s" for n q
    by (simp_all add: mode_marks_def work_def task_scrub_def obc_tlm_subsystem_reset_def)
  note k = this marks_command marks_telemetry
  show "task_fn ((obc_task_table :: tasks_state obc_task list) ! i) = Some f \<Longrightarrow> mode_marks (f s) = mode_marks s"
    "reset_fn ((obc_task_table :: tasks_state obc_task list) ! i) = Some f \<Longrightarrow> mode_marks (f s) = mode_marks s"
    using assms k by (auto simp: obc_task_table_def less_Suc_eq task_housekeeping_def task_audit_def)
qed

text \<open>An intact record stays one, and what has been announced is on record.\<close>

definition on_record :: "'a mode_state_scheme \<Rightarrow> bool" where
  "on_record s \<longleftrightarrow> mode_intact (obc_mode_record s)"

definition announced_on_record :: "'a mode_state_scheme \<Rightarrow> bool" where
  "announced_on_record s \<longleftrightarrow> s_announced s = 0 \<or> on_record s"

lemma marks_cong:
  "mode_marks t = mode_marks s \<Longrightarrow> on_record t = on_record s"
  "mode_marks t = mode_marks s \<Longrightarrow> announced_on_record t = announced_on_record s"
  by (simp_all add: mode_marks_def on_record_def announced_on_record_def)

lemma enter_on_record:
  "on_record s \<Longrightarrow> on_record (obc_mode_enter_safe q s)"
  "announced_on_record s \<Longrightarrow> announced_on_record (obc_mode_enter_safe q s)"
  by (auto simp: obc_mode_enter_safe_def Let_def on_record_def announced_on_record_def on_hw_def mode_stores_intact)

lemma restore_on_record:
  "on_record s \<Longrightarrow> on_record (obc_mode_restore c s)" "announced_on_record (obc_mode_restore c s)"
proof -
  let ?s1 = "s\<lparr>crit := obc_critical_set (Some obc_critical_mode) OBC_MODE_NOMINAL (crit s),
    obc_mode := OBC_MODE_NOMINAL, obc_safe_reason := OBC_SAFE_NONE, s_announced := 0\<rparr>"
  have e: "on_record ?s1 = on_record s" "announced_on_record ?s1"
    by (simp_all add: on_record_def announced_on_record_def)
  show "on_record s \<Longrightarrow> on_record (obc_mode_restore c s)" "announced_on_record (obc_mode_restore c s)"
    using enter_on_record(1) [of ?s1] enter_on_record(2) [OF e(2)] e
    by (simp_all add: obc_mode_restore_def Let_def)
qed

lemma marks_stores:
  "mode_marks (log_suspension x y r s) = mode_marks s" "mode_marks (trace_push i t) = mode_marks t"
  "mode_marks (account i n m t) = mode_marks t" "mode_marks (boot_record_write c p s) = mode_marks s"
  "mode_marks (snd (obc_tlm_init layout u)) = mode_marks u" "mode_marks (snd (obc_cmd_init lay table v)) = mode_marks v"
  by (simp_all add: mode_marks_def log_suspension_def trace_push_def account_def Let_def boot_record_write_def
      obc_tlm_init_def obc_cmd_init_def)

interpretation intact: boot_steps "\<lambda>s t. on_record s \<longrightarrow> on_record t"
proof unfold_locales
  show "length (obc_task_table :: tasks_state obc_task list) \<le> 8" by (simp add: obc_task_count_eq)
qed (auto simp: enter_on_record restore_on_record marks_cong(1) [OF marks_vote] marks_cong(1) [OF marks_task(1)]
    marks_cong(1) [OF marks_task(2)] marks_stores [THEN marks_cong(1)] simp del: init_flight, simp_all add: on_record_def)

interpretation declared: boot_steps "\<lambda>s t. announced_on_record s \<longrightarrow> announced_on_record t"
proof unfold_locales
  show "length (obc_task_table :: tasks_state obc_task list) \<le> 8" by (simp add: obc_task_count_eq)
qed (auto simp: enter_on_record restore_on_record marks_cong(2) [OF marks_vote] marks_cong(2) [OF marks_task(1)]
    marks_cong(2) [OF marks_task(2)] marks_stores [THEN marks_cong(2)] simp del: init_flight,
    simp_all add: announced_on_record_def on_record_def)

section \<open>Properties\<close>

lemma mission_on_record: "mission_step\<^sup>*\<^sup>* u v \<Longrightarrow> on_record u \<Longrightarrow> on_record v"
proof (induction rule: rtranclp_induct)
  case base
  then show ?case by simp
next
  case (step v w)
  obtain t where t: "boot_stops v t" "restart t w" using step.hyps(2) by (auto simp: mission_step_def)
  have "on_record t" using intact.stops_steps [OF t(1)] step.IH [OF step.prems] by blast
  then show ?case using restart_records(1) [OF t(2)] by (simp add: on_record_def)
qed

lemma mission_restart: "mission_step\<^sup>*\<^sup>* u v \<Longrightarrow> restart t u \<Longrightarrow> \<exists>t'. restart t' v"
  by (induction rule: rtranclp_induct) (auto simp: mission_step_def)

lemma evidence_essential:
  assumes "restart t v" and "boot_evidence v" and "boot_ends v w"
  shows "fst (obc_mode_is_safe w) \<and> (\<exists>ds. recorded w = take 256 (map of_nat ds) \<and> set ds \<subseteq> {0, 1, 4})"
  using assms(3)
proof cases
  case (cut k im m turns)
  show ?thesis
    unfolding cut(1)
    using cut_honoured [OF restart_records(4,5) [OF assms(1)] assms(2)] degraded_is_safe restart_records(6) [OF assms(1)]
    by (metis append_Nil)
qed (use evidence_honoured [OF _ restart_records(4,5) [OF assms(1)] assms(2)] degraded_is_safe
      restart_records(6) [OF assms(1)] in \<open>metis append_Nil\<close>)+

text \<open>The first start of a concrete mission, and the next one on a steady clock.\<close>

definition start_from :: "tasks_state \<Rightarrow> tasks_state" where
  "start_from t =
     (tasks_startup t)\<lparr>hw := steady_hw,
        crit := (crit (tasks_startup t))\<lparr>obc_critical_items := [mode_item (replicate 3 \<lparr>cc_value = 7, cc_checksum = 8\<rparr>)]\<rparr>,
        sensors := (sensors (tasks_startup t))\<lparr>obc_sensor_mock_raw := [3, 4]\<rparr>\<rparr>"

definition first_start :: tasks_state where
  "first_start = start_from steady_tasks"

definition next_start :: "image \<Rightarrow> tasks_state \<Rightarrow> tasks_state" where
  "next_start im s = start_from (snd (obc_main im s))"

definition concrete_mission :: "nat \<Rightarrow> tasks_state" where
  "concrete_mission k = (next_start flight_image ^^ k) first_start"

text \<open>A mission whose every boot is cut in its fourth frame, after one task.\<close>

definition next_cut :: "tasks_state \<Rightarrow> tasks_state" where
  "next_cut s = start_from (main_cut flight_image 3 1 0 s)"

definition cut_mission :: "nat \<Rightarrow> tasks_state" where
  "cut_mission k = (next_cut ^^ k) first_start"

lemma cut_ends: "boot_ends s (main_cut im 3 m turns s)"
  by (rule boot_ends.cut) (simp add: OBC_SCHED_WINDOW_FRAMES_def)

lemma steady_never_booted: "boots_counted (obc_boot_record steady_tasks) = 0"
proof -
  let ?s = "tlm_state.extend ready_tlm (tasks_state.fields 0)"
  have "obc_boot_record steady_tasks = obc_boot_record ?s"
    using counted.restore_step [where s = ?s and cause = 3] by (simp add: steady_tasks_def ready_tasks_def)
  moreover have "br_magic (obc_boot_record ?s) = 7"
    by (simp add: tlm_state.defs tasks_state.defs ready_tlm_def cold_tlm_def cold_sched_def sched_state.defs
        cmd_state.defs ready_cmd_def cold_cmd_def cold_recover_def recover_state.defs mode_state.defs cold_machine_def obc_cmd_init_def)
  ultimately show ?thesis by (simp add: boots_counted_def boot_record_is_intact_def OBC_BOOT_MAGIC_def)
qed

lemma start_restarts: "restart t (start_from t)"
  unfolding restart_def start_from_def
  by (rule exI [of _ steady_hw], rule exI [of _ "obc_fault_record (tasks_startup t)"],
      rule exI [of _ "replicate 3 \<lparr>cc_value = 7, cc_checksum = 8\<rparr>"], rule exI [of _ "[3, 4]"]) simp

lemma concrete_starts: "restart steady_tasks first_start" "restart (snd (obc_main im s)) (next_start im s)"
  by (simp_all add: first_start_def next_start_def start_restarts)

lemma mission_next: "mission_step s (next_start im s)"
  by (rule mission_stepI [OF main_ends [OF surjective_pairing] concrete_starts(2)])

lemma cut_fails: "fails_into s (next_cut s)"
  unfolding fails_into_def fails_at_def next_cut_def using start_restarts by blast

lemma cut_consecutive: "consecutive cut_mission"
  using concrete_starts(1) mission_stepI [OF cut_ends start_restarts]
  by (auto simp: consecutive_def cut_mission_def next_cut_def)

lemma concrete_consecutive: "consecutive concrete_mission"
  using concrete_starts(1) mission_next by (auto simp: consecutive_def concrete_mission_def)

text \<open>
  C17: the flight state never loses its shape. Whatever the memory held at power-on, over any
  number of boots, parked, reset or cut between two stages or anywhere in the window, with any devices,
  inputs, upsets of the copies and fault records in between, at the end of every boot every array has the
  length its declaration gives it, the trace, the suspension log and the receive buffer are
  indexed inside their bounds, and the command queue's count is the number of its occupied slots.
\<close>

theorem mission_keeps_shape:
  assumes "restart t0 s" and "mission_step\<^sup>*\<^sup>* s v" and "boot_stops v t"
  shows "list_all wf_item (obc_critical_items (crit t)) \<and> 0 < length (obc_critical_items (crit t)) \<and>
    length (s_was_resolving (crit t)) = OBC_CRITICAL_MAX_ITEMS \<and>
    length (obc_suspensions t) = 16 \<and> unat (obc_suspension_count t) \<le> 16 \<and>
    length (obc_cmd_queue (cmd_q t)) = OBC_CMD_QUEUE_LEN \<and> obc_cmd_queued (cmd_q t) = of_nat (length (held (cmd_q t))) \<and>
    length (obc_cmd_rejected t) = OBC_CMD_REJECT_COUNT \<and>
    length (s_rx t) = OBC_CMD_FRAME_LEN \<and> s_fill t < OBC_CMD_FRAME_LEN \<and>
    length (obc_trace t) = 256 \<and> unat (obc_trace_len t) \<le> 256 \<and> length (obc_task_state t) = unat OBC_MAX_TASKS \<and>
    wf_sensor (sensors t) \<and> length (obc_sensor_mock_raw (sensors t)) = OBC_SENSOR_COUNT \<and>
    length (obc_tlm_frame t) = OBC_TLM_FRAME_LEN"
proof -
  have "wf_flight t" by (rule boot_wf [OF assms(3) mission_wf [OF assms(2) restart_records(8) [OF assms(1)]]])
  then show ?thesis by (simp add: wf_shapes critical_good_def wf_critical_def wf_queue_def OBC_CRITICAL_MAX_ITEMS_def)
qed

theorem mission_keeps_shape_witness:
  "unat (obc_trace_len (main_cut flight_image 5 2 0 (concrete_mission 3))) \<le> 256"
proof -
  have "mission_step\<^sup>*\<^sup>* first_start (concrete_mission 3)"
    using consecutive_reaches [OF concrete_consecutive, of 0 3] by (simp add: concrete_mission_def)
  moreover have "boot_stops (concrete_mission 3) (main_cut flight_image 5 2 0 (concrete_mission 3))"
    by (rule ended [OF boot_ends.cut]) (simp add: OBC_SCHED_WINDOW_FRAMES_def)
  ultimately show ?thesis using mission_keeps_shape [OF concrete_starts(1)] by blast
qed

text \<open>
  C7: the machine does not reset itself for ever. In any mission, of any six consecutive
  boots at least one does not end in a deliberate reset, whatever the devices and the clock do.
  And when five in a row have failed, each by a deliberate reset or by being cut, by a trap or
  the watchdog, anywhere after it has marked itself begun, and the 32-bit count does not wrap, the
  next one does not reset itself under any image, and wherever it ends, parked or cut in its
  window, it is in safe mode and has dispatched essential tasks only.
\<close>

theorem resets_are_bounded:
  assumes "consecutive s" and "unat (boots_counted (obc_boot_record (s m))) + 5 < 2 ^ 32"
  shows "(\<exists>k \<le> 5. \<not> resets_into (s (m + k)) (s (m + k + 1))) \<and>
    ((\<forall>k < 5. fails_into (s (m + k)) (s (m + k + 1))) \<longrightarrow>
       (\<forall>im. fst (obc_main im (s (m + 5))) \<noteq> Reset) \<and>
       (\<forall>t. boot_ends (s (m + 5)) t \<longrightarrow> fst (obc_mode_is_safe t) \<and>
          (\<exists>ds. recorded t = take 256 (map of_nat ds) \<and> set ds \<subseteq> {0, 1, 4})))"
proof (intro conjI impI allI)
  have "\<not> (\<forall>j < 6. resets_into (s (m + j)) (s (m + j + 1)))" using resets_count [OF assms(1), of 6 m] by auto
  then obtain j where "j < 6" "\<not> resets_into (s (m + j)) (s (m + j + 1))" by blast
  then show "\<exists>k \<le> 5. \<not> resets_into (s (m + k)) (s (m + k + 1))" by (intro exI [of _ j]) simp
next
  assume "\<forall>k < 5. fails_into (s (m + k)) (s (m + k + 1))"
  then have five: "5 \<le> unat (boots_counted (obc_boot_record (s (m + 5))))" using fails_count [OF assms(1) _ assms(2)] by simp
  obtain t0 where t0: "restart t0 (s (m + 5))" using consecutive_restart [OF assms(1)] by blast
  have e: "boot_evidence (s (m + 5))"
    using five by (simp add: boot_evidence_def OBC_SHORT_BOOT_LIMIT_def word_le_nat_alt)
  show "fst (obc_main im (s (m + 5))) \<noteq> Reset" for im
  proof
    assume "fst (obc_main im (s (m + 5))) = Reset"
    then obtain t' where "obc_main im (s (m + 5)) = (Reset, t')" by (metis prod.collapse)
    from reset_is_counted(1) [OF this restart_records(4) [OF t0]] five show False
      by (simp add: OBC_SHORT_BOOT_LIMIT_def word_less_nat_alt)
  qed
  show "fst (obc_mode_is_safe t)" "\<exists>ds. recorded t = take 256 (map of_nat ds) \<and> set ds \<subseteq> {0, 1, 4}"
    if "boot_ends (s (m + 5)) t" for t
    using evidence_essential [OF t0 e that] by blast+
qed

theorem resets_are_bounded_witness:
  "fst (obc_mode_is_safe (snd (obc_main flight_image (cut_mission 5))))"
proof -
  have "fails_into (cut_mission k) (cut_mission (k + 1))" for k
    using cut_fails by (simp add: cut_mission_def)
  moreover have "boots_counted (obc_boot_record (cut_mission 0)) = 0"
    by (simp add: cut_mission_def restart_records(2) [OF concrete_starts(1)] steady_never_booted)
  ultimately show ?thesis
    using resets_are_bounded [OF cut_consecutive, of 0] main_ends [OF surjective_pairing] by auto
qed

text \<open>
  C4: safe mode outlives resets. If a boot announced safe mode, for whatever reason and
  whether it then parked, reset or was cut by a trap or the watchdog, every later boot of the
  mission, wherever it ends, parked, reset or cut in its window, is in safe mode and has
  dispatched essential tasks only, with the devices, the fault record and all three copies of
  the mode word arbitrary at the start of each.
\<close>

theorem safe_mode_outlives_resets:
  assumes "restart t0 s" and "boot_stops s t" and "s_announced t \<noteq> 0"
    and "restart t u" and "mission_step\<^sup>*\<^sup>* u v" and "boot_ends v w"
  shows "fst (obc_mode_is_safe w) \<and> (\<exists>ds. recorded w = take 256 (map of_nat ds) \<and> set ds \<subseteq> {0, 1, 4})"
proof -
  have "announced_on_record s" using restart_records(3) [OF assms(1)] by (simp add: announced_on_record_def)
  then have "announced_on_record t" using declared.stops_steps [OF assms(2)] by blast
  then have "on_record u" using assms(3) restart_records(1) [OF assms(4)] by (simp add: announced_on_record_def on_record_def)
  then have "boot_evidence v" using mission_on_record [OF assms(5)] by (simp add: on_record_def boot_evidence_def)
  moreover obtain t' where "restart t' v" using mission_restart [OF assms(5,4)] by blast
  ultimately show ?thesis using evidence_essential assms(6) by blast
qed

theorem safe_mode_outlives_resets_witness:
  "fst (obc_mode_is_safe (main_cut flight_image 3 1 0 ((next_cut ^^ 3) (start_from relapsed_tasks))))"
proof -
  let ?s = "start_from relapsed_tasks" and ?m = "main_cut flight_image 3 1 0"
  note r = start_restarts [of relapsed_tasks] and c = cut_ends [of _ flight_image 1 0]
  have "mode_intact (obc_mode_record ?s)"
    unfolding restart_records(1) [OF r] by (simp add: relapsed_tasks_def mode_stores_intact)
  then have "boot_evidence ?s" by (simp add: boot_evidence_def)
  from cut_honoured [OF restart_records(4,5) [OF r] this, of flight_image 3 1 0]
  have a: "s_announced (?m ?s) \<noteq> 0" by (simp add: degraded_def)
  have step: "mission_step x (next_cut x)" for x
    unfolding next_cut_def by (rule mission_stepI [OF c start_restarts])
  have "mission_step\<^sup>*\<^sup>* (next_cut ?s) ((next_cut ^^ 3) ?s)"
    using step by (simp add: eval_nat_numeral) (meson r_into_rtranclp rtranclp.rtrancl_into_rtrancl)
  from safe_mode_outlives_resets [OF r ended [OF c] a start_restarts [of "?m ?s", folded next_cut_def] this c] show ?thesis by blast
qed

end
