(* ===== verification/StoppedClock.thy ===== *)
theory StoppedClock
  imports Nominal
begin

text \<open>
  What the executive does when the clock stops under it: \<^verbatim>\<open>mtime\<close> reads the same value for ever,
  which neither the settling check of the driver nor the overrun check of the frame can see,
  and only the guard of the idle loop ends.
\<close>

definition stopped_at :: "u64 \<Rightarrow> 'a machine_scheme \<Rightarrow> bool" where
  "stopped_at v s \<longleftrightarrow> shows_counter (\<lambda>_. v) (hw s)"

lemma stopped_bus: "on_bus s t \<Longrightarrow> stopped_at v t = stopped_at v s"
  using shows_counter_run [of "hw s" "hw t"] by (simp add: stopped_at_def on_bus_def)

lemma stopped_read:
  assumes "stopped_at v s"
  obtains h where "sched_now x frame s = (OBC_OK, v, s\<lparr>hw := h\<rparr>)" "on_bus s (s\<lparr>hw := h\<rparr>)"
proof -
  have t: "never_backwards (\<lambda>_. v)" "slow_counter (\<lambda>_. v)" by (simp_all add: never_backwards_def slow_counter_def)
  obtain w c h where "obc_mtime_read (Some x) s = (OBC_OK, Some w, s\<lparr>hw := h\<rparr>)" "hw_run (hw s) h" "w = v"
    using mtime_reads [OF assms [unfolded stopped_at_def] t, of x] by metis
  then show thesis using that [of h] by (simp add: sched_now_def on_bus_def)
qed

text \<open>The idle loop spends its whole guard and returns the time it entered with.\<close>

lemma idle_loop_stopped:
  assumes "stopped_at v s" and "v < deadline"
  shows "\<exists>h. idle_loop frame deadline guard v s = (OBC_OK, v, s\<lparr>hw := h\<rparr>) \<and> on_bus s (s\<lparr>hw := h\<rparr>)"
  using assms(1)
proof (induction "unat IDLE_GUARD - unat guard" arbitrary: guard s rule: less_induct)
  case less
  show ?case
  proof (cases "guard < IDLE_GUARD")
    case False
    then show ?thesis by (subst idle_loop.simps) (intro exI [of _ "hw s"], simp)
  next
    case True
    obtain h where h: "sched_now v frame s = (OBC_OK, v, s\<lparr>hw := h\<rparr>)" "on_bus s (s\<lparr>hw := h\<rparr>)"
      by (rule stopped_read [OF less.prems])
    have "unat (guard + 1) = unat guard + 1"
      using True unsigned_less [of IDLE_GUARD, where 'a = nat] by (simp add: word_less_nat_alt unat_word_ariths)
    then have "unat IDLE_GUARD - unat (guard + 1) < unat IDLE_GUARD - unat guard"
      using True by (simp add: word_less_nat_alt)
    from less.hyps [OF this, of "s\<lparr>hw := h\<rparr>"] obtain h' where
      "idle_loop frame deadline (guard + 1) v (s\<lparr>hw := h\<rparr>) = (OBC_OK, v, s\<lparr>hw := h'\<rparr>)" "on_bus (s\<lparr>hw := h\<rparr>) (s\<lparr>hw := h'\<rparr>)"
      using stopped_bus [OF h(2)] less.prems by auto
    then show ?thesis
      using True h assms(2) on_bus_trans [OF h(2)] by (subst idle_loop.simps) (intro exI [of _ h'], simp)
  qed
qed

context calm_task_set
begin

lemma frame_step_stopped:
  assumes "stopped_at v s" and "unat v + 1024 < 2 ^ 64" and "settled s"
  obtains s' where "frame_step table frame v s = (Ret OBC_ERR_TIMEOUT, s')" "nominal s'" "quiet s' = quiet s"
    "snd (counts s') = snd (counts s)" "obc_frames_run s' = obc_frames_run s"
proof -
  let ?s0 = "s\<lparr>obc_cmd_now_ticks := ucast v\<rparr>" and ?dl = "v + ucast OBC_FRAME_TICKS"
  have dl: "v < ?dl"
    using assms(2) by (simp add: OBC_FRAME_TICKS_def word_less_nat_alt unat_word_ariths)
  have b0: "on_bus s ?s0" by (rule plain_bus(4))
  have q0: "quiet ?s0 = quiet s" "kept ?s0 = kept s" by (simp_all add: quiet_def kept_def)
  have "nominal ?s0" "wf_trace ?s0" using assms(3) trace_cong [OF q0(2)] by (simp_all add: settled_def nominal_def)
  from settled_step [OF assms(3) b0 this(1) q0(1) this(2)] have se: "settled ?s0" .
  obtain dr s1 where d: "dispatch_loop table frame [0..<length table] 0 0 ?s0 = (Ret dr, s1)" "nominal s1" "quiet s1 = quiet ?s0"
    "within (length [0..<length table] * (cost + 2)) ?s0 s1" "snd (counts s1) = snd (counts ?s0)"
    using loop_nominal [OF _ se, of "[0..<length table]"] by force
  obtain nd nr where dr: "dr = (nd, nr)" by fastforce
  have b1: "on_bus s s1" using on_bus_trans [OF b0] d(4) by (simp add: within_def)
  let ?f = "feed_if_earned table frame nd nr s1"
  have bf: "on_bus s ?f" using on_bus_trans [OF b1 watchdog_bus(3)] .
  have frame: "nominal (feed_if_earned table frame nd nr t) = nominal t" "quiet (feed_if_earned table frame nd nr t) = quiet t"
    "obc_frames_run (feed_if_earned table frame nd nr t) = obc_frames_run t" for t
    by (simp_all add: feed_if_earned_def obc_recover_feed_hardware_def aon_write_def nominal_def quiet_def)
  have "stopped_at v ?f" using stopped_bus [OF bf] assms(1) by simp
  then obtain h where h: "sched_now 0 frame ?f = (OBC_OK, v, ?f\<lparr>hw := h\<rparr>)" "on_bus ?f (?f\<lparr>hw := h\<rparr>)" by (rule stopped_read)
  let ?n = "note_slack frame v ?dl (?f\<lparr>hw := h\<rparr>)"
  have nn: "nominal ?n = nominal ?f" "quiet ?n = quiet ?f" "counts ?n = counts ?f" "obc_frames_run ?n = obc_frames_run ?f"
    using not_le [THEN iffD2, OF dl] by (simp_all add: note_slack_def Let_def nominal_def quiet_def counts_def)
  have "stopped_at v ?n"
    using stopped_bus [OF note_slack_bus, of v frame v ?dl "?f\<lparr>hw := h\<rparr>"] stopped_bus [OF h(2)] \<open>stopped_at v ?f\<close> by simp
  from idle_loop_stopped [OF this dl] obtain h' where
    i: "idle_loop frame ?dl 0 v ?n = (OBC_OK, v, ?n\<lparr>hw := h'\<rparr>)" by blast
  have fr: "obc_frames_run s1 = obc_frames_run s"
    using loop_accounting [OF _ d(1)] by (simp add: accounting_def)
  have "frame_step table frame v s = (Ret OBC_ERR_TIMEOUT, ?n\<lparr>hw := h'\<rparr>)"
    using d(1) h(1) i dl by (simp add: frame_step_def Let_def dr)
  moreover have "nominal (?n\<lparr>hw := h'\<rparr>)" using nn(1) frame(1) d(2) by (simp add: nominal_def)
  moreover have "quiet (?n\<lparr>hw := h'\<rparr>) = quiet s" using nn(2) frame(2) d(3) q0 by (simp add: quiet_def)
  ultimately show thesis using that d(5) nn(3,4) frame(3) fr by simp
qed

theorem run_stopped:
  assumes "stopped_at v s" and "unat v + 1024 < 2 ^ 64" and "settled s" and "0 < frames"
  obtains t where "obc_sched_run table frames s = (Ret OBC_ERR_TIMEOUT, obc_recover_disarm_hardware t)" "nominal t"
    "quiet t = quiet s" "snd (counts t) = snd (counts s)" "obc_frames_run t = obc_frames_run s"
proof -
  let ?a = "obc_recover_arm_hardware s"
  have na: "nominal ?a" "quiet ?a = quiet s" "wf_trace ?a" "counts ?a = counts s" "obc_frames_run ?a = obc_frames_run s"
    using assms(3) mode_cong(1) [of ?a s] trace_cong [OF watchdog_frame(3) [of s]]
    by (auto simp: settled_def obc_recover_arm_hardware_def aon_write_def)
  have sa: "settled ?a" by (rule settled_step [OF assms(3) arm_bus(1) na(1-3)])
  have "stopped_at v ?a" using stopped_bus [OF arm_bus(1)] assms(1) by blast
  then obtain h where n: "sched_now 0 0 ?a = (OBC_OK, v, ?a\<lparr>hw := h\<rparr>)" "on_bus ?a (?a\<lparr>hw := h\<rparr>)" by (rule stopped_read)
  let ?s2 = "?a\<lparr>hw := h, obc_slack_ticks_min := OBC_FRAME_TICKS, obc_window_start_ticks := ucast v\<rparr>"
  have n2: "nominal ?s2" "quiet ?s2 = quiet ?a" "wf_trace ?s2" "counts ?s2 = counts ?a" "obc_frames_run ?s2 = obc_frames_run ?a"
    using na(1,3) by (simp_all add: nominal_def quiet_def wf_trace_def counts_def)
  obtain safe s3 where m: "obc_mode_is_safe ?s2 = (safe, s3)" by fastforce
  have m3: "\<not> safe" "nominal s3" "quiet s3 = quiet ?s2" "wf_trace s3" "counts s3 = counts ?s2" "obc_frames_run s3 = obc_frames_run ?s2"
    using nominal_is_safe [OF n2(1)] kept_is_safe [of ?s2] trace_cong [OF kept_is_safe(1) [of ?s2]]
      counts_is_safe [of ?s2] n2(3) m by (simp_all add: kept_def)
  have "on_bus ?s2 s3" using is_safe_bus [of ?s2] m by simp
  moreover have "on_bus ?a ?s2" using n(2) by (simp add: on_bus_def)
  ultimately have b3: "on_bus ?a s3" by (rule on_bus_trans [rotated])
  have s3: "settled s3" using settled_step [OF sa b3 m3(2) _ m3(4)] m3(3) n2(2) by simp
  have "stopped_at v s3" using stopped_bus [OF b3] \<open>stopped_at v ?a\<close> by simp
  then obtain s4 where w: "frame_step table 0 v s3 = (Ret OBC_ERR_TIMEOUT, s4)" "nominal s4" "quiet s4 = quiet s3"
    "snd (counts s4) = snd (counts s3)" "obc_frames_run s4 = obc_frames_run s3"
    by (rule frame_step_stopped [OF _ assms(2) s3])
  obtain k where "unat frames = Suc k" using assms(4) by (cases "unat frames") (simp_all add: word_less_nat_alt)
  then have "frame_loop table (unat frames) 0 v s3 = (Ret OBC_ERR_TIMEOUT, s4)" using w(1) by simp
  moreover have "\<not> (table = [] \<or> unat OBC_MAX_TASKS < length table)" using some_task small by (simp add: OBC_MAX_TASKS_def)
  ultimately have "run_window table frames ?a = (Ret OBC_ERR_TIMEOUT, s4)"
    using n(1) m m3(1) by (simp add: run_window_def Let_def)
  then have "obc_sched_run table frames s = (Ret OBC_ERR_TIMEOUT, obc_recover_disarm_hardware s4)"
    by (simp add: obc_sched_run_def)
  then show thesis using that [of s4] w m3 n2 na by simp
qed

end

section \<open>Properties\<close>

text \<open>A machine whose clock has stopped at one tick count, otherwise ready.\<close>

definition stopped_tasks :: tasks_state where
  "stopped_tasks = steady_tasks\<lparr>hw := steady_hw\<lparr>dev := (\<lambda>es a. if a = MTIME_LO then 0x1234 else if a = MTIME_HI then 0
     else dev steady_hw es a)\<rparr>\<rparr>"

text \<open>
  C31: a clock that stops is an executive error and nothing more. If \<^verbatim>\<open>mtime\<close> reads one value
  for ever while a nominal window runs within its budgets on ports that answer, the window of
  any positive number of frames ends in \<open>OBC_ERR_TIMEOUT\<close> in its first frame: no frame is
  completed and none is counted as an overrun, no task is suspended, the mode still votes
  nominal, and the last thing the executive does is disarm the hardware watchdog. The safe
  mode entries for an unreadable clock and for a frame overrun are both silent.
\<close>

theorem stopped_clock_is_a_timeout:
  fixes s :: tasks_state
  assumes "shows_counter (\<lambda>_. v) (hw s)" and "unat v + 1024 < 2 ^ 64" and "0 < frames"
    and "calm (hw s)" and "budgets_kept (obc_task_table :: tasks_state obc_task list) (hw s)"
    and "nominal s" and "\<forall>i < 5. s_suspended_task s \<noteq> of_nat i" and "wf_trace s"
  shows "\<exists>t. obc_sched_run obc_task_table frames s = (Ret OBC_ERR_TIMEOUT, obc_recover_disarm_hardware t) \<and>
    \<not> fst (obc_mode_is_safe (obc_recover_disarm_hardware t)) \<and> obc_frames_run t = obc_frames_run s \<and>
    obc_frame_overruns t = obc_frame_overruns s \<and> obc_suspension_count t = obc_suspension_count s"
proof -
  have "nominal_flight.settled s"
    using assms(4-8) unfolding nominal_flight.settled_def flight.unsuspended_def by (simp add: obc_task_count_eq)
  moreover have "stopped_at v s" using assms(1) by (simp add: stopped_at_def)
  ultimately obtain t where t: "obc_sched_run obc_task_table frames s = (Ret OBC_ERR_TIMEOUT, obc_recover_disarm_hardware t)"
    "nominal t" "quiet t = quiet s" "snd (counts t) = snd (counts s)" "obc_frames_run t = obc_frames_run s"
    using nominal_flight.run_stopped [OF _ assms(2) _ assms(3)] by metis
  have "nominal (obc_recover_disarm_hardware t)"
    using t(2) by (simp add: obc_recover_disarm_hardware_def aon_write_def nominal_def)
  then show ?thesis
    using t nominal_is_safe [of "obc_recover_disarm_hardware t"] by (auto simp: quiet_def counts_def)
qed

lemma stopped_tasks_ready:
  "shows_counter (\<lambda>_. 0x1234) (hw stopped_tasks)" "calm (hw stopped_tasks)"
  "budgets_kept (obc_task_table :: tasks_state obc_task list) (hw stopped_tasks)"
  "nominal stopped_tasks" "\<forall>i < 5. s_suspended_task stopped_tasks \<noteq> of_nat i" "wf_trace stopped_tasks"
proof -
  show "shows_counter (\<lambda>_. 0x1234) (hw stopped_tasks)"
    by (simp add: stopped_tasks_def shows_counter_def MTIME_HI_def MTIME_LO_def)
  show "calm (hw stopped_tasks)"
    using steady_calm by (simp add: stopped_tasks_def calm_def port_ready_def MTIME_LO_def MTIME_HI_def
        UART0_BASE_def UART1_BASE_def UART_TXDATA_def UART_RXDATA_def)
  show "nominal stopped_tasks" "wf_trace stopped_tasks" "\<forall>i < 5. s_suspended_task stopped_tasks \<noteq> of_nat i"
    using steady_tasks_good steady_unsuspended by (simp_all add: stopped_tasks_def nominal_def wf_trace_def)
  show "budgets_kept (obc_task_table :: tasks_state obc_task list) (hw stopped_tasks)"
    by (rule still_budgets) (simp add: stopped_tasks_def steady_hw_def)
qed

theorem stopped_clock_is_a_timeout_witness:
  "fst (obc_sched_run obc_task_table 16 stopped_tasks) = Ret OBC_ERR_TIMEOUT"
proof -
  have "unat (0x1234 :: u64) + 1024 < 2 ^ 64" "(0 :: u32) < 16" by simp_all
  from stopped_clock_is_a_timeout [OF stopped_tasks_ready(1) this stopped_tasks_ready(2-6)] show ?thesis by auto
qed

end
