(* ===== verification/Substitutes.thy ===== *)
theory Substitutes
  imports Uart Sensor
begin

text \<open>
  The driver substitutes of the test harness, \<^verbatim>\<open>harness/broken/\<close>: copies of flight drivers with
  one deliberate change, built so that a test can be seen to fail. Modelled here are the two
  timers (\<^verbatim>\<open>mtime_naive.c\<close>, \<^verbatim>\<open>mtime_unstable.c\<close>), the two downlink drivers
  (\<^verbatim>\<open>uart_stalled.c\<close>, \<^verbatim>\<open>uart_impatient.c\<close>) and the two validators (\<^verbatim>\<open>sensor_blind.c\<close>,
  \<^verbatim>\<open>sensor_paranoid.c\<close>). The lemmas say where each agrees with the flight driver and which
  promise of the flight driver it breaks; routines a copy leaves unchanged are the flight
  model's.
\<close>

section \<open>A timer read without the second look at the high word\<close>

definition obc_mtime_read_naive :: "u64 ptr \<Rightarrow> hw \<Rightarrow> obc_status \<times> u64 ptr \<times> hw" where
  "obc_mtime_read_naive out h =
     (case out of
        None \<Rightarrow> (OBC_ERR_INVALID, out, h)
      | Some _ \<Rightarrow>
          (let (lo, h1) = bus_read MTIME_LO h;
               (hi, h2) = bus_read MTIME_HI h1
           in (OBC_OK, Some (push_bit 32 (ucast hi) OR ucast lo), h2)))"

definition obc_mtime_unstable_count_naive :: u32 where
  "obc_mtime_unstable_count_naive = 0"

abbreviation high :: "u64 \<Rightarrow> nat" where "high x \<equiv> unat (ucast (drop_bit 32 x) :: u32)"
abbreviation low :: "u64 \<Rightarrow> nat" where "low x \<equiv> unat (ucast x :: u32)"

lemma high_low:
  "unat x = high x * 4294967296 + low x" "low x < 4294967296" for x :: u64
  using unat_u64_split [of x] unsigned_less [of "ucast x :: u32", where 'a = nat] by simp_all

lemma unat_join: "unat (push_bit 32 (ucast hi) OR ucast lo :: u64) = unat hi * 4294967296 + unat lo"
  for hi lo :: u32
proof -
  let ?x = "push_bit 32 (ucast hi) OR ucast lo :: u64"
  have "ucast (drop_bit 32 ?x) = hi" "ucast ?x = lo"
    by (rule bit_word_eqI; auto simp: bit_simps dest: bit_imp_le_length)+
  then show ?thesis using high_low(1) [of ?x] by simp
qed

lemma high_mono: "x \<le> y \<Longrightarrow> high x \<le> high y" for x y :: u64
  using high_word_mono unfolding word_le_nat_alt by blast

text \<open>The value pairs the low word of one instant with the high word of a later one.\<close>

lemma naive_pairs:
  assumes "obc_mtime_read_naive (Some x) h = (st, Some v, h')" and "shows_counter T h" and "never_backwards T"
  obtains a b where "a = T (io h)" "a \<le> b" "b \<le> T (io h')" "unat v = high b * 4294967296 + low a"
    "st = OBC_OK" "hw_run h h'"
proof -
  define h1 where "h1 = snd (bus_read MTIME_LO h)"
  have run: "hw_run h h1" "hw_run h1 (snd (bus_read MTIME_HI h1))" by (simp_all add: h1_def)
  have v: "fst (bus_read MTIME_LO h) = ucast (T (io h))" "fst (bus_read MTIME_HI h1) = ucast (drop_bit 32 (T (io h1)))"
    using assms(2) run by (simp_all add: shows_counter_def hw_run_def bus_read_def Let_def)
  have e: "st = OBC_OK" "v = push_bit 32 (ucast (ucast (drop_bit 32 (T (io h1))) :: u32)) OR ucast (ucast (T (io h)) :: u32)"
    "h' = snd (bus_read MTIME_HI h1)"
    using assms(1) by (simp_all add: obc_mtime_read_naive_def case_prod_beta Let_def v [symmetric] h1_def [symmetric])
  show thesis
    using that [of "T (io h)" "T (io h1)"] run hw_run_trans [OF run] assms(3) e(1)
      never_backwards_suffix [of T "io h" "io h1"] never_backwards_suffix [of T "io h1" "io h'"] unat_join
    unfolding e(2,3) by (simp add: hw_run_def)
qed

text \<open>A read that no carry falls into is exact; the flight reader is exact without the proviso.\<close>

lemma naive_read_exact_between_carries:
  assumes "obc_mtime_read_naive (Some x) h = (st, Some v, h')" and "shows_counter T h" and "never_backwards T"
    and "high (T (io h')) = high (T (io h))"
  shows "v = T (io h)"
proof -
  obtain a b where p: "a = T (io h)" "a \<le> b" "b \<le> T (io h')" "unat v = high b * 4294967296 + low a"
    by (rule naive_pairs [OF assms(1-3)])
  then have "unat v = unat a" using high_mono [of a b] high_mono [of b "T (io h')"] assms(4) high_low(1) [of a] by simp
  then show ?thesis using p(1) by (simp add: word_unat_eq_iff)
qed

lemma torn_read:
  assumes "obc_mtime_read_naive (Some x) h = (st, Some v, h')" and "shows_counter T h" and "never_backwards T"
    and "unat (T (io h')) < unat (T (io h)) + 4294967296" and "T (io h') < v"
  shows "unat v = unat (T (io h)) + 4294967296" "high (T (io h')) = high (T (io h)) + 1"
proof -
  obtain a b where p: "a = T (io h)" "a \<le> b" "b \<le> T (io h')" "unat v = high b * 4294967296 + low a"
    by (rule naive_pairs [OF assms(1-3)])
  have m: "high a \<le> high b" "high b \<le> high (T (io h'))" using p(2,3) high_mono by blast+
  have "high b \<noteq> high a"
  proof
    assume "high b = high a"
    then have "unat v = unat a" using p(4) high_low(1) [of a] by simp
    moreover have "unat a \<le> unat (T (io h'))" using p(2,3) by (simp add: word_le_nat_alt)
    ultimately show False using assms(5) by (simp add: word_less_nat_alt)
  qed
  moreover have "high (T (io h')) < high a + 2"
    using assms(4) [folded p(1)] high_low [of a] high_low [of "T (io h')"] by linarith
  ultimately have "high b = high a + 1" "high (T (io h')) = high a + 1" using m by linarith+
  then show "unat v = unat (T (io h)) + 4294967296" "high (T (io h')) = high (T (io h)) + 1"
    using p(1,4) high_low(1) [of a] by simp_all
qed

section \<open>A timer that stops settling\<close>

definition BROKEN_READS_BEFORE_FAILURE :: u32 where "BROKEN_READS_BEFORE_FAILURE = 100000"

record failing_machine = machine +
  s_reads :: u32

definition obc_mtime_read_unstable ::
  "u64 ptr \<Rightarrow> 'a failing_machine_scheme \<Rightarrow> obc_status \<times> u64 ptr \<times> 'a failing_machine_scheme" where
  "obc_mtime_read_unstable out s =
     (case out of
        None \<Rightarrow> (OBC_ERR_INVALID, out, s)
      | Some _ \<Rightarrow>
          if s_reads s < BROKEN_READS_BEFORE_FAILURE
          then (let s1 = s\<lparr>s_reads := s_reads s + 1\<rparr>
                in case mtime_attempts 4 (hw s1) of
                     (Some v, h) \<Rightarrow> (OBC_OK, Some v, s1\<lparr>hw := h\<rparr>)
                   | (None, h) \<Rightarrow>
                       (OBC_ERR_UNSTABLE, out, s1\<lparr>hw := h, s_unstable_count := s_unstable_count s1 + 1\<rparr>))
          else (OBC_ERR_UNSTABLE, out, s\<lparr>s_unstable_count := s_unstable_count s + 1\<rparr>))"

definition obc_mtime_unstable_count_unstable :: "'a failing_machine_scheme \<Rightarrow> u32" where
  "obc_mtime_unstable_count_unstable s = s_unstable_count s"

text \<open>Until the counter runs out it is the flight reader, and it counts.\<close>

lemma unstable_is_flight_reader:
  assumes "s_reads s < BROKEN_READS_BEFORE_FAILURE"
  shows "obc_mtime_read_unstable (Some x) s = obc_mtime_read (Some x) (s\<lparr>s_reads := s_reads s + 1\<rparr>)"
  using assms by (simp add: obc_mtime_read_unstable_def obc_mtime_read_def MTIME_READ_ATTEMPTS_def Let_def)

text \<open>From then on it refuses without looking at the device, and never recovers.\<close>

lemma unstable_is_final:
  assumes "\<not> s_reads s < BROKEN_READS_BEFORE_FAILURE"
  shows "((\<lambda>s. snd (snd (obc_mtime_read_unstable (Some x) s))) ^^ n) s =
      s\<lparr>s_unstable_count := s_unstable_count s + of_nat n\<rparr>"
    "obc_mtime_read_unstable (Some x) s = (OBC_ERR_UNSTABLE, Some x, s\<lparr>s_unstable_count := s_unstable_count s + 1\<rparr>)"
    "obc_mtime_unstable_count_unstable (snd (snd (obc_mtime_read_unstable (Some x) s))) =
      obc_mtime_unstable_count_unstable s + 1"
proof -
  show "obc_mtime_unstable_count_unstable (snd (snd (obc_mtime_read_unstable (Some x) s))) =
      obc_mtime_unstable_count_unstable s + 1"
    using assms by (simp add: obc_mtime_read_unstable_def obc_mtime_unstable_count_unstable_def)
  show "obc_mtime_read_unstable (Some x) s = (OBC_ERR_UNSTABLE, Some x, s\<lparr>s_unstable_count := s_unstable_count s + 1\<rparr>)"
    using assms by (simp add: obc_mtime_read_unstable_def)
  show "((\<lambda>s. snd (snd (obc_mtime_read_unstable (Some x) s))) ^^ n) s =
      s\<lparr>s_unstable_count := s_unstable_count s + of_nat n\<rparr>"
    using assms by (induction n) (simp_all add: obc_mtime_read_unstable_def add.assoc)
qed

section \<open>A downlink whose status the harness holds\<close>

text \<open>
  The status is read through a pointer chosen before the loop: the device register, or the
  word the harness owns. The word is a volatile location like any other, so its address is a
  bus address (\<open>stall_word\<close>) and what the harness puts there is what \<open>dev\<close> answers.
\<close>

record stall_control =
  stall_word :: u32
  obc_uart_stall_active :: u32
  obc_uart_stall_allowance :: u32

definition status_pointer :: "stall_control \<Rightarrow> u32 \<Rightarrow> u32" where
  "status_pointer c base =
     (if base = UART1_BASE \<and> obc_uart_stall_active c \<noteq> 0 then stall_word c else base + UART_TXDATA)"

function putc_polling :: "u32 \<Rightarrow> u32 \<Rightarrow> u8 \<Rightarrow> u32 \<Rightarrow> hw \<Rightarrow> obc_status \<times> u32 \<times> hw" where
  "putc_polling status base byte allowance h =
     (let (v, h1) = bus_read status h
      in if v AND UART_TXDATA_FULL = 0
         then (OBC_OK, allowance, bus_write (base + UART_TXDATA) (ucast byte) h1)
         else if allowance = 0 then (OBC_ERR_TIMEOUT, allowance, h1)
         else putc_polling status base byte (allowance - 1) h1)"
  by pat_completeness auto
termination
  by (relation "measure (\<lambda>(status, base, byte, allowance, h). unat allowance)")
     (auto simp: measure_unat)

declare putc_polling.simps [simp del]

definition port_putc_stalled :: "stall_control \<Rightarrow> u32 \<Rightarrow> u8 \<Rightarrow> u32 \<Rightarrow> hw \<Rightarrow> obc_status \<times> u32 \<times> hw" where
  "port_putc_stalled c base byte allowance h = putc_polling (status_pointer c base) base byte allowance h"

definition port_putc_impatient :: "stall_control \<Rightarrow> u32 \<Rightarrow> u8 \<Rightarrow> u32 \<Rightarrow> hw \<Rightarrow> obc_status \<times> u32 \<times> hw" where
  "port_putc_impatient c base byte allowance h =
     (let (v, h1) = bus_read (status_pointer c base) h
      in if v AND UART_TXDATA_FULL = 0
         then (OBC_OK, allowance, bus_write (base + UART_TXDATA) (ucast byte) h1)
         else (OBC_ERR_TIMEOUT, allowance, h1))"

definition obc_uart_putc_stalled :: "stall_control \<Rightarrow> char \<Rightarrow> hw \<Rightarrow> obc_status \<times> hw" where
  "obc_uart_putc_stalled c ch h =
     (case port_putc_stalled c UART0_BASE (of_char ch) OBC_UART_TX_RETRY_TOTAL h of (st, _, h') \<Rightarrow> (st, h'))"

definition obc_uart_putc_impatient :: "stall_control \<Rightarrow> char \<Rightarrow> hw \<Rightarrow> obc_status \<times> hw" where
  "obc_uart_putc_impatient c ch h =
     (case port_putc_impatient c UART0_BASE (of_char ch) OBC_UART_TX_RETRY_TOTAL h of (st, _, h') \<Rightarrow> (st, h'))"

fun downlink_loop_with ::
  "(u32 \<Rightarrow> u8 \<Rightarrow> u32 \<Rightarrow> hw \<Rightarrow> obc_status \<times> u32 \<times> hw) \<Rightarrow> u8 list \<Rightarrow> u32 \<Rightarrow> hw \<Rightarrow> obc_status \<times> hw" where
  "downlink_loop_with putc [] allowance h = (OBC_OK, h)"
| "downlink_loop_with putc (b # bs) allowance h =
     (case putc UART1_BASE b allowance h of
        (st, allowance', h') \<Rightarrow>
          if st \<noteq> OBC_OK then (st, h') else downlink_loop_with putc bs allowance' h')"

definition stalled_allowance :: "stall_control \<Rightarrow> u32" where
  "stalled_allowance c =
     (if obc_uart_stall_active c \<noteq> 0 \<and> obc_uart_stall_allowance c \<noteq> 0
      then obc_uart_stall_allowance c else OBC_UART_TX_RETRY_TOTAL)"

definition obc_uart_downlink_write_stalled ::
  "stall_control \<Rightarrow> u8 list ptr \<Rightarrow> u32 \<Rightarrow> hw \<Rightarrow> obc_status \<times> hw" where
  "obc_uart_downlink_write_stalled c bytes len h =
     (case bytes of
        None \<Rightarrow> (OBC_ERR_INVALID, h)
      | Some bs \<Rightarrow> downlink_loop_with (port_putc_stalled c) (take (unat len) bs) (stalled_allowance c) h)"

definition obc_uart_downlink_write_impatient ::
  "stall_control \<Rightarrow> u8 list ptr \<Rightarrow> u32 \<Rightarrow> hw \<Rightarrow> obc_status \<times> hw" where
  "obc_uart_downlink_write_impatient c bytes len h =
     (case bytes of
        None \<Rightarrow> (OBC_ERR_INVALID, h)
      | Some bs \<Rightarrow> downlink_loop_with (port_putc_impatient c) (take (unat len) bs) OBC_UART_TX_RETRY_TOTAL h)"

text \<open>
  With nothing held, and on the console always, the substitute is the flight driver: the
  same bus accesses in the same order.
\<close>

lemma putc_polling_flight: "putc_polling (base + UART_TXDATA) base byte a h = port_putc base byte a h"
proof (induction a h rule: port_putc_induct [of base])
  case (poll a h)
  then show ?case
    by (subst putc_polling.simps, subst port_putc.simps) (simp add: case_prod_beta Let_def)
qed

lemma stalled_putc_flight: "obc_uart_putc_stalled c = obc_uart_putc"
  by (simp add: fun_eq_iff obc_uart_putc_stalled_def obc_uart_putc_def port_putc_stalled_def
      status_pointer_def putc_polling_flight UART0_BASE_def UART1_BASE_def)

lemma downlink_loop_with_flight: "downlink_loop_with port_putc = downlink_loop"
proof (intro ext)
  fix bs a h
  show "downlink_loop_with port_putc bs a h = downlink_loop bs a h"
    by (induction bs arbitrary: a h) (simp_all split: prod.split)
qed

text \<open>The impatient copy differs on the console as well: one refusal ends the line, where the
  flight console would have polled on.\<close>

lemma impatient_console_gives_up:
  assumes "dev h (io h) console_tx AND UART_TXDATA_FULL \<noteq> 0"
  shows "fst (obc_uart_putc_impatient c ch h) = OBC_ERR_TIMEOUT"
  using assms by (simp add: obc_uart_putc_impatient_def port_putc_impatient_def status_pointer_def
      UART0_BASE_def UART1_BASE_def bus_read_def Let_def)

text \<open>A held port: what one byte costs.\<close>

definition port_held :: "stall_control \<Rightarrow> hw \<Rightarrow> bool" where
  "port_held c h \<longleftrightarrow> obc_uart_stall_active c \<noteq> 0 \<and> (\<forall>t. dev h t (stall_word c) AND UART_TXDATA_FULL \<noteq> 0)"

lemma held_polling:
  assumes "\<forall>t. dev h t w AND UART_TXDATA_FULL \<noteq> 0"
  shows "\<exists>es. putc_polling w base byte a h = (OBC_ERR_TIMEOUT, 0, h\<lparr>io := es @ io h\<rparr>) \<and>
    length es = unat a + 1 \<and> (\<forall>e \<in> set es. \<exists>v. e = Rd w v)"
  using assms
proof (induction "unat a" arbitrary: a h)
  case 0
  then have "a = 0" by (simp add: word_unat_eq_iff)
  then show ?case using 0
    by (subst putc_polling.simps) (auto simp: bus_read_def Let_def intro!: exI [of _ "[Rd w (dev h (io h) w)]"])
next
  case (Suc n)
  let ?h1 = "h\<lparr>io := Rd w (dev h (io h) w) # io h\<rparr>"
  have a0: "a \<noteq> 0" using Suc.hyps(2) by auto
  have a: "a \<noteq> 0" "unat (a - 1) = n" using unat_minus_one [OF a0] Suc.hyps(2) a0 by simp_all
  obtain es where "putc_polling w base byte (a - 1) ?h1 = (OBC_ERR_TIMEOUT, 0, ?h1\<lparr>io := es @ io ?h1\<rparr>)"
    "length es = unat (a - 1) + 1" "\<forall>e \<in> set es. \<exists>v. e = Rd w v"
    using Suc.hyps(1) [of "a - 1" ?h1] a(2) Suc.prems by auto
  moreover have "putc_polling w base byte a h = putc_polling w base byte (a - 1) ?h1"
    using Suc.prems a(1) by (subst putc_polling.simps) (simp add: bus_read_def Let_def)
  ultimately show ?case using a(2) Suc.hyps(2)
    by (intro exI [of _ "es @ [Rd w (dev h (io h) w)]"]) auto
qed

text \<open>A frame refused by a port held throughout: one look more than the allowance, and no byte
  leaves. Two runs with different allowances differ by exactly the difference.\<close>

lemma held_write:
  assumes "port_held c h" and "unat len \<le> length bs" and "0 < unat len"
  shows "\<exists>es. obc_uart_downlink_write_stalled c (Some bs) len h = (OBC_ERR_TIMEOUT, h\<lparr>io := es @ io h\<rparr>) \<and>
      length es = unat (stalled_allowance c) + 1 \<and> (\<forall>e \<in> set es. \<exists>v. e = Rd (stall_word c) v)"
    "\<exists>v. obc_uart_downlink_write_impatient c (Some bs) len h =
      (OBC_ERR_TIMEOUT, h\<lparr>io := Rd (stall_word c) v # io h\<rparr>)"
proof -
  obtain b bs' where bs: "take (unat len) bs = b # bs'" using assms(2,3) by (cases "take (unat len) bs") auto
  have w: "status_pointer c UART1_BASE = stall_word c" "\<forall>t. dev h t (stall_word c) AND UART_TXDATA_FULL \<noteq> 0"
    using assms(1) by (simp_all add: status_pointer_def port_held_def)
  show "\<exists>es. obc_uart_downlink_write_stalled c (Some bs) len h = (OBC_ERR_TIMEOUT, h\<lparr>io := es @ io h\<rparr>) \<and>
      length es = unat (stalled_allowance c) + 1 \<and> (\<forall>e \<in> set es. \<exists>v. e = Rd (stall_word c) v)"
    using held_polling [OF w(2), of UART1_BASE b "stalled_allowance c"]
    by (auto simp: obc_uart_downlink_write_stalled_def bs port_putc_stalled_def w(1))
  show "\<exists>v. obc_uart_downlink_write_impatient c (Some bs) len h =
      (OBC_ERR_TIMEOUT, h\<lparr>io := Rd (stall_word c) v # io h\<rparr>)"
    using w by (auto simp: obc_uart_downlink_write_impatient_def bs port_putc_impatient_def bus_read_def Let_def)
qed

text \<open>A port released after its status has been looked at \<open>N\<close> times.\<close>

definition released_after :: "u32 \<Rightarrow> nat \<Rightarrow> hw \<Rightarrow> bool" where
  "released_after w N h \<longleftrightarrow> (\<forall>t. dev h t w AND UART_TXDATA_FULL \<noteq> 0 \<longleftrightarrow> reads_of w t < N)"

lemma released_polling:
  assumes "released_after w N h" and "N \<le> reads_of w (io h) + unat a"
  shows "\<exists>a' h'. putc_polling w base byte a h = (OBC_OK, a', h') \<and> released_after w N h' \<and>
    N \<le> reads_of w (io h') \<and>
    writes_to (base + UART_TXDATA) (io h') = writes_to (base + UART_TXDATA) (io h) @ [ucast byte]"
  using assms
proof (induction "N - reads_of w (io h)" arbitrary: a h)
  case 0
  then show ?case
    by (subst putc_polling.simps) (simp add: released_after_def bus_read_def bus_write_def Let_def)
next
  case (Suc n)
  let ?h1 = "h\<lparr>io := Rd w (dev h (io h) w) # io h\<rparr>"
  have full: "dev h (io h) w AND UART_TXDATA_FULL \<noteq> 0" using Suc.hyps(2) Suc.prems(1) by (simp add: released_after_def)
  have a0: "a \<noteq> 0" using Suc.hyps(2) Suc.prems(2) by auto
  have "putc_polling w base byte a h = putc_polling w base byte (a - 1) ?h1"
    using full a0 by (subst putc_polling.simps) (simp add: bus_read_def Let_def)
  moreover have "released_after w N ?h1" "n = N - reads_of w (io ?h1)" "N \<le> reads_of w (io ?h1) + unat (a - 1)"
    using Suc.prems Suc.hyps(2) unat_minus_one [OF a0] by (simp_all add: released_after_def)
  ultimately show ?case using Suc.hyps(1) [of ?h1 "a - 1"] by simp
qed

lemma released_loop:
  assumes "released_after (status_pointer c UART1_BASE) N h"
    and "N \<le> reads_of (status_pointer c UART1_BASE) (io h) + unat a"
  shows "\<exists>h'. downlink_loop_with (port_putc_stalled c) bs a h = (OBC_OK, h') \<and>
    writes_to downlink_tx (io h') = writes_to downlink_tx (io h) @ map ucast bs"
  using assms
proof (induction bs arbitrary: a h)
  case Nil
  then show ?case by simp
next
  case (Cons b bs)
  obtain a1 h1 where "port_putc_stalled c UART1_BASE b a h = (OBC_OK, a1, h1)"
    "released_after (status_pointer c UART1_BASE) N h1"
    "N \<le> reads_of (status_pointer c UART1_BASE) (io h1) + unat a1"
    "writes_to downlink_tx (io h1) = writes_to downlink_tx (io h) @ [ucast b]"
    using released_polling [OF Cons.prems, of UART1_BASE b] by (auto simp: port_putc_stalled_def trans_le_add1)
  then show ?case using Cons.IH [of h1 a1] by auto
qed

section \<open>Validators that answer without looking\<close>

text \<open>
  The blind one publishes whatever was read; the paranoid one calls every reading out of
  range. Only the middle of the loop body differs from the flight validator.
\<close>

definition publish :: "nat \<Rightarrow> u16 \<Rightarrow> u32 \<Rightarrow> obc_status \<Rightarrow> sensor_st \<Rightarrow> obc_status \<times> sensor_st" where
  "publish i raw bad worst s =
     (let s1 = s\<lparr>obc_sensor_flags := (obc_sensor_flags s AND NOT (OBC_SENSOR_FLAG_RANGE i OR
                   OBC_SENSOR_FLAG_STUCK i OR OBC_SENSOR_FLAG_NODATA i)) OR bad\<rparr>
      in if bad \<noteq> 0
         then (OBC_ERR_UNSTABLE, s1\<lparr>obc_sensor_value := (obc_sensor_value s1)[i := OBC_SENSOR_INVALID]\<rparr>)
         else (worst, s1\<lparr>obc_sensor_value := (obc_sensor_value s1)[i := raw]\<rparr>))"

definition note_reading :: "nat \<Rightarrow> u16 \<Rightarrow> sensor_st \<Rightarrow> sensor_st" where
  "note_reading i raw s =
     s\<lparr>s_run := (s_run s)[i := next_run i raw s], s_last_raw := (s_last_raw s)[i := raw],
       s_seen := (s_seen s)[i := 1]\<rparr>"

definition obc_sensor_init_blind :: "sensor_st \<Rightarrow> sensor_st" where
  "obc_sensor_init_blind s = fold init_one [0..<OBC_SENSOR_COUNT] (s\<lparr>obc_sensor_flags := 0\<rparr>)"

definition obc_sensor_init_paranoid :: "sensor_st \<Rightarrow> sensor_st" where
  "obc_sensor_init_paranoid s = fold init_one [0..<OBC_SENSOR_COUNT] (s\<lparr>obc_sensor_flags := 0\<rparr>)"

definition sample_one_blind :: "nat \<Rightarrow> obc_status \<times> sensor_st \<Rightarrow> obc_status \<times> sensor_st" where
  "sample_one_blind i r =
     (let (worst, s) = r; raw = obc_sensor_mock_raw s ! i in publish i raw 0 worst (note_reading i raw s))"

definition obc_sensor_sample_blind :: "sensor_st \<Rightarrow> obc_status \<times> sensor_st" where
  "obc_sensor_sample_blind s = fold sample_one_blind [0..<OBC_SENSOR_COUNT] (OBC_OK, s)"

definition sample_one_paranoid :: "nat \<Rightarrow> obc_status \<times> sensor_st \<Rightarrow> obc_status \<times> sensor_st" where
  "sample_one_paranoid i r =
     (let (worst, s) = r;
          raw = obc_sensor_mock_raw s ! i;
          s1 = note_reading i raw s;
          s2 = s1\<lparr>obc_sensor_rejects_range := (obc_sensor_rejects_range s1)[i := obc_sensor_rejects_range s1 ! i + 1]\<rparr>;
          stuck = s_run s2 ! i \<ge> OBC_SENSOR_STUCK_LIMIT;
          s3 = (if stuck
                then s2\<lparr>obc_sensor_rejects_stuck := (obc_sensor_rejects_stuck s2)[i := obc_sensor_rejects_stuck s2 ! i + 1]\<rparr>
                else s2)
      in publish i raw (OBC_SENSOR_FLAG_RANGE i OR (if stuck then OBC_SENSOR_FLAG_STUCK i else 0)) worst s3)"

definition obc_sensor_sample_paranoid :: "sensor_st \<Rightarrow> obc_status \<times> sensor_st" where
  "obc_sensor_sample_paranoid s = fold sample_one_paranoid [0..<OBC_SENSOR_COUNT] (OBC_OK, s)"

lemma validators_start_alike: "obc_sensor_init_blind = obc_sensor_init" "obc_sensor_init_paranoid = obc_sensor_init"
  by (simp_all add: fun_eq_iff obc_sensor_init_blind_def obc_sensor_init_paranoid_def obc_sensor_init_def)

text \<open>The two directions a validator owes, for one sample.\<close>

definition bad_is_flagged :: "(sensor_st \<Rightarrow> obc_status \<times> sensor_st) \<Rightarrow> sensor_st \<Rightarrow> bool" where
  "bad_is_flagged sample s \<longleftrightarrow>
     (\<forall>i \<in> {0, 1}. out_of_range i (obc_sensor_mock_raw s ! i) \<longrightarrow>
        bit (obc_sensor_flags (snd (sample s))) (3 * i) \<and> obc_sensor_value (snd (sample s)) ! i = OBC_SENSOR_INVALID)"

definition good_is_published :: "(sensor_st \<Rightarrow> obc_status \<times> sensor_st) \<Rightarrow> sensor_st \<Rightarrow> bool" where
  "good_is_published sample s \<longleftrightarrow>
     (\<forall>i \<in> {0, 1}. \<not> out_of_range i (obc_sensor_mock_raw s ! i) \<longrightarrow>
        next_run i (obc_sensor_mock_raw s ! i) s < OBC_SENSOR_STUCK_LIMIT \<longrightarrow>
        \<not> bit (obc_sensor_flags (snd (sample s))) (3 * i) \<and>
        obc_sensor_value (snd (sample s)) ! i = obc_sensor_mock_raw s ! i)"

lemma publish_sel:
  assumes "publish i raw bad w s = (w', s')"
  shows "obc_sensor_value s' = (obc_sensor_value s)[i := if bad \<noteq> 0 then OBC_SENSOR_INVALID else raw]"
    "obc_sensor_flags s' = (obc_sensor_flags s AND NOT (OBC_SENSOR_FLAG_RANGE i OR
       OBC_SENSOR_FLAG_STUCK i OR OBC_SENSOR_FLAG_NODATA i)) OR bad"
    "w' = (if bad \<noteq> 0 then OBC_ERR_UNSTABLE else w)" "obc_sensor_mock_raw s' = obc_sensor_mock_raw s"
  using assms by (auto simp: publish_def Let_def split: if_splits)

lemma blind_sample:
  assumes "wf_sensor s" and "obc_sensor_sample_blind s = (st, s')"
  shows "st = OBC_OK" "obc_sensor_value s' ! 0 = obc_sensor_mock_raw s ! 0"
    "obc_sensor_value s' ! 1 = obc_sensor_mock_raw s ! 1"
    "\<not> bit (obc_sensor_flags s') 0" "\<not> bit (obc_sensor_flags s') 3"
  using assms
  by (auto simp: obc_sensor_sample_blind_def sample_one_blind_def publish_def note_reading_def Let_def
      wf_sensor_def bit_simps)

lemma range_flag_nonzero: "i < 2 \<Longrightarrow> OBC_SENSOR_FLAG_RANGE i OR x \<noteq> 0"
proof
  assume "i < 2" "OBC_SENSOR_FLAG_RANGE i OR x = 0"
  moreover from this(1) have "bit (OBC_SENSOR_FLAG_RANGE i OR x) (3 * i)" by (simp add: bit_simps)
  ultimately show False by simp
qed

lemma paranoid_step:
  assumes "sample_one_paranoid i (w, s) = (w', s')" and "i < 2"
  shows "w' = OBC_ERR_UNSTABLE" "obc_sensor_value s' = (obc_sensor_value s)[i := OBC_SENSOR_INVALID]"
    "\<exists>x \<in> {0, OBC_SENSOR_FLAG_STUCK i}. obc_sensor_flags s' = (obc_sensor_flags s AND NOT (OBC_SENSOR_FLAG_RANGE i OR
       OBC_SENSOR_FLAG_STUCK i OR OBC_SENSOR_FLAG_NODATA i)) OR (OBC_SENSOR_FLAG_RANGE i OR x)"
proof -
  obtain bad t where b: "bad \<in> {OBC_SENSOR_FLAG_RANGE i OR 0, OBC_SENSOR_FLAG_RANGE i OR OBC_SENSOR_FLAG_STUCK i}"
    and p: "publish i (obc_sensor_mock_raw s ! i) bad w t = (w', s')"
    and t: "obc_sensor_value t = obc_sensor_value s" "obc_sensor_flags t = obc_sensor_flags s"
    using assms(1) unfolding sample_one_paranoid_def Let_def prod.case
    by (rule that [rotated]) (simp_all add: note_reading_def)
  have nz: "bad \<noteq> 0" using b range_flag_nonzero [OF assms(2), of 0] range_flag_nonzero [OF assms(2)] by auto
  show "w' = OBC_ERR_UNSTABLE" "obc_sensor_value s' = (obc_sensor_value s)[i := OBC_SENSOR_INVALID]"
    using publish_sel(1,3) [OF p] nz t by simp_all
  obtain x where x: "x \<in> {0, OBC_SENSOR_FLAG_STUCK i}" "bad = OBC_SENSOR_FLAG_RANGE i OR x" using b by blast
  show "\<exists>x \<in> {0, OBC_SENSOR_FLAG_STUCK i}. obc_sensor_flags s' = (obc_sensor_flags s AND NOT (OBC_SENSOR_FLAG_RANGE i OR
       OBC_SENSOR_FLAG_STUCK i OR OBC_SENSOR_FLAG_NODATA i)) OR (OBC_SENSOR_FLAG_RANGE i OR x)"
    using publish_sel(2) [OF p] t x(2) by (intro bexI [OF _ x(1)]) simp
qed

lemma paranoid_sample:
  assumes "wf_sensor s" and "obc_sensor_sample_paranoid s = (st, s')"
  shows "st = OBC_ERR_UNSTABLE" "obc_sensor_value s' ! 0 = OBC_SENSOR_INVALID"
    "obc_sensor_value s' ! 1 = OBC_SENSOR_INVALID"
    "bit (obc_sensor_flags s') 0" "bit (obc_sensor_flags s') 3"
proof -
  obtain w0 s0 where s0: "sample_one_paranoid 0 (OBC_OK, s) = (w0, s0)" by fastforce
  then have s1: "sample_one_paranoid 1 (w0, s0) = (st, s')"
    using assms(2) by (simp add: obc_sensor_sample_paranoid_def)
  note a = paranoid_step [OF s0, simplified] and b = paranoid_step [OF s1, simplified]
  show "st = OBC_ERR_UNSTABLE" by (rule b(1))
  show "obc_sensor_value s' ! 0 = OBC_SENSOR_INVALID" "obc_sensor_value s' ! 1 = OBC_SENSOR_INVALID"
    using a(2) b(2) assms(1) by (simp_all add: wf_sensor_def)
  have a0: "bit (obc_sensor_flags s0) 0" using a(3) by (auto simp: bit_simps)
  show "bit (obc_sensor_flags s') 0" "bit (obc_sensor_flags s') 3" using b(3) a0 by (auto simp: bit_simps)
qed

section \<open>Properties of the substitutes\<close>

text \<open>
  The naive timer is the variant an assertion of monotonicity does catch. When a carry
  falls into a read, the value is exactly \<open>2 ^ 32\<close> above the count at its start and above
  everything the counter has shown; and the next read, made before the counter has moved
  another \<open>2 ^ 32\<close>, returns less.
\<close>

lemma naive_read_runs_backwards:
  assumes "shows_counter T h" and "never_backwards T"
    and "obc_mtime_read_naive (Some x) h = (st, Some v, h1)" and "T (io h1) < v"
    and "obc_mtime_read_naive (Some y) h1 = (st', Some w, h2)"
    and "unat (T (io h2)) < unat (T (io h)) + 2 ^ 32"
  shows "unat v = unat (T (io h)) + 2 ^ 32 \<and> w < v"
proof -
  have run: "hw_run h h1" by (rule naive_pairs [OF assms(3,1,2)]) simp
  then have sc: "shows_counter T h1" using assms(1) by (simp add: shows_counter_run)
  obtain a b where p: "a = T (io h1)" "a \<le> b" "b \<le> T (io h2)" "unat w = high b * 4294967296 + low a"
    by (rule naive_pairs [OF assms(5) sc assms(2)])
  have slow: "unat (T (io h2)) < unat (T (io h)) + 4294967296" using assms(6) by simp
  have le: "unat a \<le> unat b" "unat b \<le> unat (T (io h2))" using p(2,3) by (simp_all add: word_le_nat_alt)
  have "unat (T (io h1)) < unat (T (io h)) + 4294967296" using le slow p(1) by simp
  note torn = torn_read [OF assms(3,1,2) this assms(4)]
  have "high b = high a"
    using high_mono [OF p(2)] le slow torn(2) [folded p(1)] high_low [of "T (io h)"] high_low [of b] by linarith
  then have "unat w = unat a" using p(4) high_low(1) [of a] by simp
  then have "w < v" using assms(4) p(1) by (simp add: word_less_nat_alt)
  then show ?thesis using torn(1) by simp
qed

text \<open>
  What the allowance buys. On a port whose status is refused at the next look and clears
  within the 256 looks of the allowance, the driver that spends its allowance sends the whole
  frame and returns \<open>OBC_OK\<close>; the impatient one returns \<open>OBC_ERR_TIMEOUT\<close> and sends nothing.
\<close>

lemma patience_saves_the_frame:
  assumes "unat len \<le> length bs" and "0 < unat len" and "obc_uart_stall_allowance c = 0"
    and "released_after (status_pointer c UART1_BASE) N h"
    and "reads_of (status_pointer c UART1_BASE) (io h) < N"
    and "N \<le> reads_of (status_pointer c UART1_BASE) (io h) + 256"
  shows "(\<exists>h'. obc_uart_downlink_write_stalled c (Some bs) len h = (OBC_OK, h') \<and>
       writes_to downlink_tx (io h') = writes_to downlink_tx (io h) @ map ucast (take (unat len) bs)) \<and>
    (\<exists>h'. obc_uart_downlink_write_impatient c (Some bs) len h = (OBC_ERR_TIMEOUT, h') \<and>
       writes_to downlink_tx (io h') = writes_to downlink_tx (io h))"
proof -
  obtain b bs' where bs: "take (unat len) bs = b # bs'" using assms(1,2) by (cases "take (unat len) bs") auto
  have "stalled_allowance c = 256" using assms(3) by (simp add: stalled_allowance_def OBC_UART_TX_RETRY_TOTAL_def)
  then have sent: "\<exists>h'. obc_uart_downlink_write_stalled c (Some bs) len h = (OBC_OK, h') \<and>
       writes_to downlink_tx (io h') = writes_to downlink_tx (io h) @ map ucast (take (unat len) bs)"
    using released_loop [OF assms(4), of 256 "take (unat len) bs"] assms(6)
    by (simp add: obc_uart_downlink_write_stalled_def)
  have "dev h (io h) (status_pointer c UART1_BASE) AND UART_TXDATA_FULL \<noteq> 0"
    using assms(4,5) by (simp add: released_after_def)
  then have lost: "\<exists>h'. obc_uart_downlink_write_impatient c (Some bs) len h = (OBC_ERR_TIMEOUT, h') \<and>
       writes_to downlink_tx (io h') = writes_to downlink_tx (io h)"
    by (simp add: obc_uart_downlink_write_impatient_def bs port_putc_impatient_def bus_read_def Let_def)
  show ?thesis using sent lost by blast
qed

text \<open>
  Neither direction of validation is enough. The blind validator publishes every reading
  that deserves it, the paranoid one flags every reading that deserves it, on every state; on
  an out-of-range reading the first fails the direction the second keeps, and on a plausible
  one the second fails the direction the first keeps.
\<close>

lemma one_direction_is_not_enough:
  assumes "wf_sensor s"
  shows "good_is_published obc_sensor_sample_blind s \<and> bad_is_flagged obc_sensor_sample_paranoid s \<and>
    ((\<exists>i \<in> {0, 1}. out_of_range i (obc_sensor_mock_raw s ! i)) \<longrightarrow>
       \<not> bad_is_flagged obc_sensor_sample_blind s) \<and>
    ((\<exists>i \<in> {0, 1}. \<not> out_of_range i (obc_sensor_mock_raw s ! i) \<and>
         next_run i (obc_sensor_mock_raw s ! i) s < OBC_SENSOR_STUCK_LIMIT) \<longrightarrow>
       \<not> good_is_published obc_sensor_sample_paranoid s)"
proof -
  obtain st s1 where b: "obc_sensor_sample_blind s = (st, s1)" by fastforce
  obtain st' s2 where p: "obc_sensor_sample_paranoid s = (st', s2)" by fastforce
  show ?thesis
    using blind_sample [OF assms b] paranoid_sample [OF assms p]
    unfolding good_is_published_def bad_is_flagged_def b p snd_conv by auto
qed

end
