(* ===== verification/SubstituteConsole.thy ===== *)
theory SubstituteConsole
  imports Substitutes
begin

text \<open>
  The rest of the two downlink copies, \<^verbatim>\<open>harness/broken/uart_stalled.c\<close> and
  \<^verbatim>\<open>harness/broken/uart_impatient.c\<close>: initialisation, uplink and the console's text routines, each
  over its own copy's \<^verbatim>\<open>port_putc\<close>. With them the instrument is the whole driver, and what it
  changes can be stated for every entry point at once.
\<close>

section \<open>The text routines over any byte routine\<close>

fun puts_loop_with :: "(char \<Rightarrow> hw \<Rightarrow> obc_status \<times> hw) \<Rightarrow> u32 \<Rightarrow> string \<Rightarrow> hw \<Rightarrow> obc_status \<times> hw" where
  "puts_loop_with putc i [] h = (if i < 4096 then (OBC_OK, h) else (OBC_ERR_INVALID, h))"
| "puts_loop_with putc i (c # cs) h =
     (if i < 4096
      then if c = CHR 0x00 then (OBC_OK, h)
           else (case putc c h of
                   (st, h') \<Rightarrow> if st \<noteq> OBC_OK then (st, h') else puts_loop_with putc (i + 1) cs h')
      else (OBC_ERR_INVALID, h))"

fun put_chars_with :: "(char \<Rightarrow> hw \<Rightarrow> obc_status \<times> hw) \<Rightarrow> char list \<Rightarrow> hw \<Rightarrow> obc_status \<times> hw" where
  "put_chars_with putc [] h = (OBC_OK, h)"
| "put_chars_with putc (c # cs) h =
     (case putc c h of (st, h') \<Rightarrow> if st \<noteq> OBC_OK then (st, h') else put_chars_with putc cs h')"

section \<open>The stalled copy\<close>

definition port_init_stalled :: "u32 \<Rightarrow> hw \<Rightarrow> hw" where
  "port_init_stalled base h =
     bus_write (base + UART_TXCTRL) UART_TXCTRL_TXEN
       (bus_write (base + UART_DIV) UART_DIV_115200 (bus_write (base + UART_IE) 0 h))"

definition obc_uart_init_stalled :: "hw \<Rightarrow> hw" where
  "obc_uart_init_stalled h =
     bus_write (UART1_BASE + UART_RXCTRL) UART_RXCTRL_RXEN
       (port_init_stalled UART1_BASE (port_init_stalled UART0_BASE h))"

definition obc_uart_uplink_getc_stalled :: "u8 ptr \<Rightarrow> hw \<Rightarrow> obc_status \<times> u8 ptr \<times> hw" where
  "obc_uart_uplink_getc_stalled out h =
     (case out of
        None \<Rightarrow> (OBC_ERR_INVALID, out, h)
      | Some _ \<Rightarrow>
          (let (rx, h1) = bus_read (UART1_BASE + UART_RXDATA) h
           in if rx AND UART_RXDATA_EMPTY \<noteq> 0 then (OBC_ERR_TIMEOUT, out, h1)
              else (OBC_OK, Some (ucast (rx AND 0xFF)), h1)))"

definition obc_uart_puts_stalled :: "stall_control \<Rightarrow> string ptr \<Rightarrow> hw \<Rightarrow> obc_status \<times> hw" where
  "obc_uart_puts_stalled c s h =
     (case s of None \<Rightarrow> (OBC_ERR_INVALID, h) | Some cs \<Rightarrow> puts_loop_with (obc_uart_putc_stalled c) 0 cs h)"

definition obc_uart_put_u32_stalled :: "stall_control \<Rightarrow> u32 \<Rightarrow> hw \<Rightarrow> obc_status \<times> hw" where
  "obc_uart_put_u32_stalled c v h =
     (if v = 0 then obc_uart_putc_stalled c (CHR ''0'') h
      else put_chars_with (obc_uart_putc_stalled c) (rev (u32_digits v 0)) h)"

definition obc_uart_put_hex32_stalled :: "stall_control \<Rightarrow> u32 \<Rightarrow> hw \<Rightarrow> obc_status \<times> hw" where
  "obc_uart_put_hex32_stalled c v h =
     and_then (obc_uart_puts_stalled c (Some ''0x'') h)
       (put_chars_with (obc_uart_putc_stalled c)
         (map (\<lambda>shift. hex_digit (drop_bit shift v AND 0xF)) [28, 24, 20, 16, 12, 8, 4, 0]))"

section \<open>The impatient copy\<close>

definition port_init_impatient :: "u32 \<Rightarrow> hw \<Rightarrow> hw" where
  "port_init_impatient base h =
     bus_write (base + UART_TXCTRL) UART_TXCTRL_TXEN
       (bus_write (base + UART_DIV) UART_DIV_115200 (bus_write (base + UART_IE) 0 h))"

definition obc_uart_init_impatient :: "hw \<Rightarrow> hw" where
  "obc_uart_init_impatient h =
     bus_write (UART1_BASE + UART_RXCTRL) UART_RXCTRL_RXEN
       (port_init_impatient UART1_BASE (port_init_impatient UART0_BASE h))"

definition obc_uart_uplink_getc_impatient :: "u8 ptr \<Rightarrow> hw \<Rightarrow> obc_status \<times> u8 ptr \<times> hw" where
  "obc_uart_uplink_getc_impatient out h =
     (case out of
        None \<Rightarrow> (OBC_ERR_INVALID, out, h)
      | Some _ \<Rightarrow>
          (let (rx, h1) = bus_read (UART1_BASE + UART_RXDATA) h
           in if rx AND UART_RXDATA_EMPTY \<noteq> 0 then (OBC_ERR_TIMEOUT, out, h1)
              else (OBC_OK, Some (ucast (rx AND 0xFF)), h1)))"

definition obc_uart_puts_impatient :: "stall_control \<Rightarrow> string ptr \<Rightarrow> hw \<Rightarrow> obc_status \<times> hw" where
  "obc_uart_puts_impatient c s h =
     (case s of None \<Rightarrow> (OBC_ERR_INVALID, h) | Some cs \<Rightarrow> puts_loop_with (obc_uart_putc_impatient c) 0 cs h)"

definition obc_uart_put_u32_impatient :: "stall_control \<Rightarrow> u32 \<Rightarrow> hw \<Rightarrow> obc_status \<times> hw" where
  "obc_uart_put_u32_impatient c v h =
     (if v = 0 then obc_uart_putc_impatient c (CHR ''0'') h
      else put_chars_with (obc_uart_putc_impatient c) (rev (u32_digits v 0)) h)"

definition obc_uart_put_hex32_impatient :: "stall_control \<Rightarrow> u32 \<Rightarrow> hw \<Rightarrow> obc_status \<times> hw" where
  "obc_uart_put_hex32_impatient c v h =
     and_then (obc_uart_puts_impatient c (Some ''0x'') h)
       (put_chars_with (obc_uart_putc_impatient c)
         (map (\<lambda>shift. hex_digit (drop_bit shift v AND 0xF)) [28, 24, 20, 16, 12, 8, 4, 0]))"

section \<open>Where the copies are the flight driver\<close>

lemma loops_with_flight: "puts_loop_with obc_uart_putc = puts_loop" "put_chars_with obc_uart_putc = put_chars"
proof -
  have "puts_loop_with obc_uart_putc i cs h = puts_loop i cs h" for i cs h
    by (induction cs arbitrary: i h) (simp_all split: prod.split)
  moreover have "put_chars_with obc_uart_putc cs h = put_chars cs h" for cs h
    by (induction cs arbitrary: h) (simp_all split: prod.split)
  ultimately show "puts_loop_with obc_uart_putc = puts_loop" "put_chars_with obc_uart_putc = put_chars"
    by (simp_all add: fun_eq_iff)
qed

lemma copies_set_up:
  "obc_uart_init_stalled = obc_uart_init" "obc_uart_init_impatient = obc_uart_init"
  "obc_uart_uplink_getc_stalled = obc_uart_uplink_getc" "obc_uart_uplink_getc_impatient = obc_uart_uplink_getc"
  by (simp_all add: fun_eq_iff obc_uart_init_stalled_def port_init_stalled_def obc_uart_init_impatient_def
      port_init_impatient_def obc_uart_init_def port_init_def obc_uart_uplink_getc_stalled_def
      obc_uart_uplink_getc_impatient_def obc_uart_uplink_getc_def)

text \<open>On a port that never refuses, giving up at the first refusal is never giving up.\<close>

lemma impatient_ready:
  assumes "port_ready UART0_BASE h"
  shows "obc_uart_putc_impatient c ch h = obc_uart_putc ch h" "port_ready UART0_BASE (snd (obc_uart_putc ch h))"
proof -
  have full: "dev h t (UART0_BASE + UART_TXDATA) AND UART_TXDATA_FULL = 0" for t
    using assms by (simp add: port_ready_def)
  then show "obc_uart_putc_impatient c ch h = obc_uart_putc ch h"
    by (subst obc_uart_putc_def, subst port_putc_unfold)
       (simp add: obc_uart_putc_impatient_def port_putc_impatient_def status_pointer_def
        UART0_BASE_def UART1_BASE_def bus_read_def Let_def)
  show "port_ready UART0_BASE (snd (obc_uart_putc ch h))"
    using assms by (simp add: port_ready_run [OF hw_run_putc])
qed

lemma impatient_loops_ready:
  assumes "port_ready UART0_BASE h"
  shows "puts_loop_with (obc_uart_putc_impatient c) i cs h = puts_loop i cs h"
    "put_chars_with (obc_uart_putc_impatient c) cs h = put_chars cs h"
proof -
  show "puts_loop_with (obc_uart_putc_impatient c) i cs h = puts_loop i cs h"
    using assms
  proof (induction cs arbitrary: i h)
    case Nil
    then show ?case by simp
  next
    case (Cons ch cs)
    then show ?case using impatient_ready [OF Cons.prems] by (simp split: prod.split) (metis snd_conv)
  qed
  show "put_chars_with (obc_uart_putc_impatient c) cs h = put_chars cs h"
    using assms
  proof (induction cs arbitrary: h)
    case Nil
    then show ?case by simp
  next
    case (Cons ch cs)
    then show ?case using impatient_ready [OF Cons.prems] by (simp split: prod.split) (metis snd_conv)
  qed
qed

text \<open>So the impatient copy's console cannot be told from the flight console by any text, as
  long as the console takes every byte: what it breaks is invisible to a test that never
  refuses one.\<close>

lemma impatient_console_ready:
  assumes "port_ready UART0_BASE h"
  shows "obc_uart_puts_impatient c s h = obc_uart_puts s h" "obc_uart_put_u32_impatient c v h = obc_uart_put_u32 v h"
    "obc_uart_put_hex32_impatient c v h = obc_uart_put_hex32 v h"
proof -
  show p: "obc_uart_puts_impatient c s h = obc_uart_puts s h" for s
    using impatient_loops_ready(1) [OF assms] by (simp add: obc_uart_puts_impatient_def obc_uart_puts_def split: option.split)
  show "obc_uart_put_u32_impatient c v h = obc_uart_put_u32 v h"
    using impatient_loops_ready(2) [OF assms] impatient_ready(1) [OF assms]
    by (simp add: obc_uart_put_u32_impatient_def obc_uart_put_u32_def)
  have "port_ready UART0_BASE (snd (obc_uart_puts (Some ''0x'') h))"
    using assms by (simp add: port_ready_run [OF hw_run_puts])
  then show "obc_uart_put_hex32_impatient c v h = obc_uart_put_hex32 v h"
    using impatient_loops_ready(2)
    unfolding obc_uart_put_hex32_impatient_def obc_uart_put_hex32_def p and_then_def
    by (cases "obc_uart_puts (Some ''0x'') h") (simp only: prod.case snd_conv)
qed

text \<open>
  C40: the stalled copy is the flight driver everywhere but on a held downlink. Its
  initialisation, its uplink and every text routine of its console are the flight driver's for
  any control word, and with the harness holding nothing so is its downlink, on every buffer,
  length and device. So what a run with a held port measures is the effect of holding it.
\<close>

theorem stalled_copy_is_flight_driver:
  "obc_uart_init_stalled h = obc_uart_init h \<and> obc_uart_uplink_getc_stalled out h = obc_uart_uplink_getc out h \<and>
   obc_uart_putc_stalled c ch h = obc_uart_putc ch h \<and> obc_uart_puts_stalled c s h = obc_uart_puts s h \<and>
   obc_uart_put_u32_stalled c v h = obc_uart_put_u32 v h \<and> obc_uart_put_hex32_stalled c v h = obc_uart_put_hex32 v h \<and>
   obc_uart_downlink_write_stalled (c\<lparr>obc_uart_stall_active := 0\<rparr>) bytes len h = obc_uart_downlink_write bytes len h"
proof -
  let ?c = "c\<lparr>obc_uart_stall_active := 0\<rparr>"
  have "port_putc_stalled ?c = port_putc"
    by (simp add: fun_eq_iff port_putc_stalled_def status_pointer_def putc_polling_flight)
  then have "obc_uart_downlink_write_stalled ?c bytes len h = obc_uart_downlink_write bytes len h"
    by (simp add: obc_uart_downlink_write_stalled_def obc_uart_downlink_write_def stalled_allowance_def
        downlink_loop_with_flight split: option.split)
  moreover have p: "obc_uart_puts_stalled c s h = obc_uart_puts s h" for s
    by (cases s) (simp_all add: obc_uart_puts_stalled_def obc_uart_puts_def stalled_putc_flight loops_with_flight)
  moreover have "obc_uart_put_u32_stalled c v h = obc_uart_put_u32 v h"
    "obc_uart_put_hex32_stalled c v h = obc_uart_put_hex32 v h"
    by (simp_all add: obc_uart_put_u32_stalled_def obc_uart_put_u32_def obc_uart_put_hex32_stalled_def
        obc_uart_put_hex32_def p stalled_putc_flight loops_with_flight)
  ultimately show ?thesis by (simp add: copies_set_up stalled_putc_flight)
qed

end
