(* ===== verification/SubstituteSame.thy ===== *)
theory SubstituteSame
  imports Tasks
begin

text \<open>
  What the executive, table and telemetry substitutes repeat of the flight files: each copy is a
  whole file of its own, so its helpers are code the tests link in place of the flight ones.
  They are modelled from the copies' text and agree with the flight routines; \<open>same_as_flight\<close>
  collects the equations, by which the facts about the flight helpers serve for the copies.
\<close>

section \<open>\<^verbatim>\<open>sched_skip.c\<close>\<close>

definition read_minstret_skip :: "'a machine_scheme \<Rightarrow> u32 \<times> 'a machine_scheme" where
  "read_minstret_skip s =
     (let v = instret (hw s) (io (hw s))
      in (v, s\<lparr>hw := (hw s)\<lparr>io := Instret v # io (hw s)\<rparr>\<rparr>))"

definition trace_push_skip :: "nat \<Rightarrow> 'a sched_state_scheme \<Rightarrow> 'a sched_state_scheme" where
  "trace_push_skip task_index s =
     (if obc_trace_len s \<ge> OBC_TRACE_CAPACITY then s\<lparr>obc_trace_overflow := obc_trace_overflow s + 1\<rparr>
      else (let s1 = s\<lparr>obc_trace := (obc_trace s)[unat (obc_trace_len s) := of_nat task_index]\<rparr>
            in s1\<lparr>obc_trace_len := obc_trace_len s1 + 1\<rparr>))"

text \<open>The vote is cast only when the clock did not settle: the \<open>&&\<close> of the source.\<close>

definition sched_now_skip ::
  "u64 \<Rightarrow> u32 \<Rightarrow> 'a sched_state_scheme \<Rightarrow> obc_status \<times> u64 \<times> 'a sched_state_scheme" where
  "sched_now_skip out frame s =
     (case obc_mtime_read (Some out) s of
        (st, out', s1) \<Rightarrow>
          (let (degrade, s2) = (if st = OBC_ERR_UNSTABLE
                                then (case obc_mode_is_safe s1 of (safe, s2) \<Rightarrow> (\<not> safe, s2))
                                else (False, s1))
           in (st, the out', if degrade
                then obc_mode_enter_safe OBC_SAFE_CLOCK (s2\<lparr>obc_safe_entry_frame := frame\<rparr>) else s2)))"

section \<open>\<^verbatim>\<open>tasks_loop.c\<close> and \<^verbatim>\<open>tasks_overrun.c\<close>\<close>

definition T0_PERIOD_loop :: u32 where "T0_PERIOD_loop = 1"
definition T1_PERIOD_loop :: u32 where "T1_PERIOD_loop = 2"
definition T2_PERIOD_loop :: u32 where "T2_PERIOD_loop = 4"
definition T3_PERIOD_loop :: u32 where "T3_PERIOD_loop = 8"
definition T0_ESSENTIAL_loop :: u32 where "T0_ESSENTIAL_loop = 1"
definition T1_ESSENTIAL_loop :: u32 where "T1_ESSENTIAL_loop = 0"
definition T2_ESSENTIAL_loop :: u32 where "T2_ESSENTIAL_loop = 0"
definition T3_ESSENTIAL_loop :: u32 where "T3_ESSENTIAL_loop = 0"
definition T0_BUDGET_loop :: u32 where "T0_BUDGET_loop = 100"
definition T1_BUDGET_loop :: u32 where "T1_BUDGET_loop = 1500"
definition T2_BUDGET_loop :: u32 where "T2_BUDGET_loop = 3000"
definition T3_BUDGET_loop :: u32 where "T3_BUDGET_loop = 5000"

lemmas table_loop_consts =
  T0_PERIOD_loop_def T1_PERIOD_loop_def T2_PERIOD_loop_def T3_PERIOD_loop_def
  T0_ESSENTIAL_loop_def T1_ESSENTIAL_loop_def T2_ESSENTIAL_loop_def T3_ESSENTIAL_loop_def
  T0_BUDGET_loop_def T1_BUDGET_loop_def T2_BUDGET_loop_def T3_BUDGET_loop_def

definition T0_PERIOD_overrun :: u32 where "T0_PERIOD_overrun = 1"
definition T1_PERIOD_overrun :: u32 where "T1_PERIOD_overrun = 2"
definition T2_PERIOD_overrun :: u32 where "T2_PERIOD_overrun = 4"
definition T3_PERIOD_overrun :: u32 where "T3_PERIOD_overrun = 8"
definition T0_ESSENTIAL_overrun :: u32 where "T0_ESSENTIAL_overrun = 1"
definition T1_ESSENTIAL_overrun :: u32 where "T1_ESSENTIAL_overrun = 0"
definition T2_ESSENTIAL_overrun :: u32 where "T2_ESSENTIAL_overrun = 0"
definition T3_ESSENTIAL_overrun :: u32 where "T3_ESSENTIAL_overrun = 0"
definition T0_BUDGET_overrun :: u32 where "T0_BUDGET_overrun = 1000"
definition T1_BUDGET_overrun :: u32 where "T1_BUDGET_overrun = 1500"
definition T2_BUDGET_overrun :: u32 where "T2_BUDGET_overrun = 3000"
definition T3_BUDGET_overrun :: u32 where "T3_BUDGET_overrun = 100"

lemmas table_overrun_consts =
  T0_PERIOD_overrun_def T1_PERIOD_overrun_def T2_PERIOD_overrun_def T3_PERIOD_overrun_def
  T0_ESSENTIAL_overrun_def T1_ESSENTIAL_overrun_def T2_ESSENTIAL_overrun_def T3_ESSENTIAL_overrun_def
  T0_BUDGET_overrun_def T1_BUDGET_overrun_def T2_BUDGET_overrun_def T3_BUDGET_overrun_def

text \<open>The loop of \<^verbatim>\<open>work\<close>, with the iterations that are left.\<close>

fun work_from :: "nat \<Rightarrow> u32 \<Rightarrow> 'a tasks_state_scheme \<Rightarrow> 'a tasks_state_scheme" where
  "work_from 0 i s = s"
| "work_from (Suc n) i s = work_from n (i + 1) (s\<lparr>work_sink := work_sink s + i\<rparr>)"

definition work_loop :: "u32 \<Rightarrow> 'a tasks_state_scheme \<Rightarrow> 'a tasks_state_scheme" where
  "work_loop iterations s = work_from (unat iterations) 0 s"

definition task_housekeeping_loop :: "'a tasks_state_scheme \<Rightarrow> 'a tasks_state_scheme" where
  "task_housekeeping_loop s = work_loop 50 s"

definition task_scrub_loop :: "'a tasks_state_scheme \<Rightarrow> 'a tasks_state_scheme" where
  "task_scrub_loop s = (case obc_critical_scrub (crit s) of (_, c) \<Rightarrow> s\<lparr>crit := c\<rparr>)"

definition task_audit_loop :: "'a tasks_state_scheme \<Rightarrow> 'a tasks_state_scheme" where
  "task_audit_loop s = work_loop 400 s"

definition work_overrun :: "u32 \<Rightarrow> 'a tasks_state_scheme \<Rightarrow> 'a tasks_state_scheme" where
  "work_overrun iterations s = work_from (unat iterations) 0 s"

definition task_housekeeping_overrun :: "'a tasks_state_scheme \<Rightarrow> 'a tasks_state_scheme" where
  "task_housekeeping_overrun s = work_overrun 50 s"

definition task_audit_overrun :: "'a tasks_state_scheme \<Rightarrow> 'a tasks_state_scheme" where
  "task_audit_overrun s = work_overrun 400 s"

lemma work_from_fold:
  "work_from n (of_nat k) s =
     s\<lparr>work_sink := fold (\<lambda>i sink. sink + of_nat i) [k..<k + n] (work_sink s)\<rparr>"
proof (induction n arbitrary: k s)
  case (Suc n)
  have "[k..<k + Suc n] = k # [Suc k..<Suc k + n]" by (simp add: upt_conv_Cons del: upt_Suc)
  then show ?case using Suc.IH [of "Suc k"] by (simp add: add.commute del: upt_Suc)
qed simp

section \<open>\<^verbatim>\<open>tlm_layout_wrong.c\<close>\<close>

definition put_u8_wrong :: "nat \<Rightarrow> u32 \<Rightarrow> u8 list \<Rightarrow> u8 list" where
  "put_u8_wrong offset v frame = frame[offset := ucast (v AND 0xFF)]"

definition put_u16_wrong :: "nat \<Rightarrow> u32 \<Rightarrow> u8 list \<Rightarrow> u8 list" where
  "put_u16_wrong offset v frame =
     (let frame = frame[offset := ucast (v AND 0xFF)]
      in frame[offset + 1 := ucast (drop_bit 8 v AND 0xFF)])"

definition put_u32_wrong :: "nat \<Rightarrow> u32 \<Rightarrow> u8 list \<Rightarrow> u8 list" where
  "put_u32_wrong offset v frame =
     (let frame = frame[offset := ucast (v AND 0xFF)];
          frame = frame[offset + 1 := ucast (drop_bit 8 v AND 0xFF)];
          frame = frame[offset + 2 := ucast (drop_bit 16 v AND 0xFF)]
      in frame[offset + 3 := ucast (drop_bit 24 v AND 0xFF)])"

definition sat16_wrong :: "u32 \<Rightarrow> u32" where "sat16_wrong v = (if v > 0xFFFF then 0xFFFF else v)"
definition sat8_wrong :: "u32 \<Rightarrow> u32" where "sat8_wrong v = (if v > 0xFF then 0xFF else v)"

text \<open>The sum, byte by byte from an index.\<close>

fun frame_sum_from :: "nat \<Rightarrow> nat \<Rightarrow> u8 list \<Rightarrow> u32 \<Rightarrow> u32" where
  "frame_sum_from 0 i frame acc = acc"
| "frame_sum_from (Suc n) i frame acc =
     (let acc = acc + ucast (frame ! i);
          acc = (acc + drop_bit 16 acc) AND 0xFFFF
      in frame_sum_from n (i + 1) frame acc)"

definition frame_sum_wrong :: "u8 list \<Rightarrow> u32" where
  "frame_sum_wrong frame = frame_sum_from OBC_TLM_O_SUM 0 frame 0 XOR 0xFFFF"

definition obc_tlm_subsystem_reset_wrong :: "'a tlm_state_scheme \<Rightarrow> 'a tlm_state_scheme" where
  "obc_tlm_subsystem_reset_wrong s =
     (let s = s\<lparr>obc_tlm_seq := 0\<rparr>;
          s = s\<lparr>obc_tlm_frame := replicate OBC_TLM_FRAME_LEN 0\<rparr>;
          s = s\<lparr>sensors := obc_sensor_init (sensors s)\<rparr>
      in s\<lparr>obc_tlm_subsystem_resets := obc_tlm_subsystem_resets s + 1\<rparr>)"

lemma frame_sum_from_fold:
  "i + n \<le> length frame \<Longrightarrow> frame_sum_from n i frame t = fold sum_step (take n (drop i frame)) t"
proof (induction n arbitrary: i t)
  case (Suc n)
  then have "take (Suc n) (drop i frame) = frame ! i # take n (drop (Suc i) frame)"
    by (simp add: Cons_nth_drop_Suc [symmetric])
  then show ?case using Suc by (simp add: sum_step_def Let_def)
qed simp

section \<open>They are the flight routines\<close>

lemma same_as_flight:
  "read_minstret_skip s = minstret s" "trace_push_skip i t = trace_push i t"
  "sched_now_skip out frame t = sched_now out frame t"
  "work_loop n u = work n u" "task_housekeeping_loop u = task_housekeeping u" "task_scrub_loop u = task_scrub u"
  "task_audit_loop u = task_audit u" "work_overrun n u = work n u"
  "task_housekeeping_overrun u = task_housekeeping u" "task_audit_overrun u = task_audit u"
  "put_u8_wrong = put_u8" "put_u16_wrong = put_u16" "put_u32_wrong = put_u32"
  "sat16_wrong = sat16" "sat8_wrong = sat8" "obc_tlm_subsystem_reset_wrong w = obc_tlm_subsystem_reset w"
proof -
  show w: "work_loop n u = work n u" "work_overrun n u = work n u" for n u
    using work_from_fold [of "unat n" 0 u] by (simp_all add: work_loop_def work_overrun_def work_def)
  show "task_housekeeping_loop u = task_housekeeping u" "task_audit_loop u = task_audit u"
    "task_housekeeping_overrun u = task_housekeeping u" "task_audit_overrun u = task_audit u"
    by (simp_all add: task_housekeeping_loop_def task_audit_loop_def task_housekeeping_overrun_def
        task_audit_overrun_def task_housekeeping_def task_audit_def w)
  show "sched_now_skip out frame t = sched_now out frame t"
    by (simp add: sched_now_skip_def sched_now_def Let_def split: prod.split)
qed (simp_all add: fun_eq_iff read_minstret_skip_def minstret_def read_minstret_def trace_push_skip_def trace_push_def
    task_scrub_loop_def task_scrub_def put_u8_wrong_def put_u8_def put_u16_wrong_def put_u16_def put_u32_wrong_def
    put_u32_def sat16_wrong_def sat16_def sat8_wrong_def sat8_def obc_tlm_subsystem_reset_wrong_def
    obc_tlm_subsystem_reset_def Let_def split: prod.split)

lemma frame_sum_same: "OBC_TLM_O_SUM \<le> length frame \<Longrightarrow> frame_sum_wrong frame = frame_sum frame"
  using frame_sum_from_fold [of 0 OBC_TLM_O_SUM frame 0] by (simp add: frame_sum_wrong_def frame_sum_def)

end
