(* ===== verification/SubstituteExec.thy ===== *)
theory SubstituteExec
  imports SubstituteSame
begin

text \<open>
  The executive, table and telemetry substitutes of the test harness: \<^verbatim>\<open>sched_skip.c\<close> drops one
  dispatch, \<^verbatim>\<open>tasks_loop.c\<close> and \<^verbatim>\<open>tasks_overrun.c\<close> starve a task of its budget,
  \<^verbatim>\<open>tlm_layout_wrong.c\<close> cites a wrong offset. What a copy leaves as the flight file has it
  is in \<open>SubstituteSame\<close>; the slack and the idle loop, inline in both, are the flight
  model's definitions. The lemmas say what each copy does to the property its test watches, and
  what else it changes.
\<close>

section \<open>An executive that drops a dispatch\<close>

definition BROKEN_SKIP_FRAME :: u32 where "BROKEN_SKIP_FRAME = 7"
definition BROKEN_SKIP_TASK :: nat where "BROKEN_SKIP_TASK = 0"

definition dispatch_skip ::
  "('a sched_state_scheme) obc_task list \<Rightarrow> nat \<Rightarrow> 'a sched_state_scheme \<Rightarrow> 'a sched_state_scheme" where
  "dispatch_skip table i s =
     (case task_fn (table ! i) of
        None \<Rightarrow> s
      | Some f \<Rightarrow>
          (let (before, s1) = read_minstret_skip (trace_push_skip i s);
               (after, s2) = read_minstret_skip (f s1)
           in account i (after - before) (budget_instr (table ! i)) s2))"

fun dispatch_loop_skip ::
  "('a sched_state_scheme) obc_task list \<Rightarrow> u32 \<Rightarrow> nat list \<Rightarrow> 'a sched_state_scheme \<Rightarrow> 'a sched_state_scheme" where
  "dispatch_loop_skip table frame [] s = s"
| "dispatch_loop_skip table frame (i # is) s =
     (if period_frames (table ! i) = 0 then dispatch_loop_skip table frame is s
      else if frame = BROKEN_SKIP_FRAME \<and> i = BROKEN_SKIP_TASK then dispatch_loop_skip table frame is s
      else (case obc_mode_is_safe s of
        (safe, s1) \<Rightarrow>
          if safe \<and> essential (table ! i) = 0 then dispatch_loop_skip table frame is s1
          else if frame mod period_frames (table ! i) = 0
          then dispatch_loop_skip table frame is (dispatch_skip table i s1)
          else dispatch_loop_skip table frame is s1))"

definition frame_step_skip ::
  "('a sched_state_scheme) obc_task list \<Rightarrow> u32 \<Rightarrow> u64 \<Rightarrow> 'a sched_state_scheme \<Rightarrow>
     obc_status \<times> 'a sched_state_scheme" where
  "frame_step_skip table frame frame_start s =
     (let deadline = frame_start + ucast OBC_FRAME_TICKS;
          s1 = dispatch_loop_skip table frame [0..<length table] (s\<lparr>obc_cmd_now_ticks := ucast frame_start\<rparr>)
      in case sched_now_skip 0 frame s1 of
           (st, now, s2) \<Rightarrow>
             if st \<noteq> OBC_OK then (st, s2)
             else (case idle_loop frame deadline 0 now (note_slack frame now deadline s2) of
                     (st', now', s3) \<Rightarrow>
                       if st' \<noteq> OBC_OK then (st', s3)
                       else if now' < deadline then (OBC_ERR_TIMEOUT, s3)
                       else (OBC_OK, s3\<lparr>obc_frames_run := obc_frames_run s3 + 1\<rparr>)))"

fun frame_loop_skip ::
  "('a sched_state_scheme) obc_task list \<Rightarrow> nat \<Rightarrow> u32 \<Rightarrow> u64 \<Rightarrow> 'a sched_state_scheme \<Rightarrow>
     obc_status \<times> 'a sched_state_scheme" where
  "frame_loop_skip table 0 frame frame_start s = (OBC_OK, s\<lparr>obc_window_end_ticks := ucast frame_start\<rparr>)"
| "frame_loop_skip table (Suc k) frame frame_start s =
     (case frame_step_skip table frame frame_start s of
        (st, s1) \<Rightarrow>
          if st \<noteq> OBC_OK then (st, s1)
          else frame_loop_skip table k (frame + 1) (frame_start + ucast OBC_FRAME_TICKS) s1)"

definition obc_sched_run_skip ::
  "('a sched_state_scheme) obc_task list \<Rightarrow> u32 \<Rightarrow> 'a sched_state_scheme \<Rightarrow>
     obc_status \<times> 'a sched_state_scheme" where
  "obc_sched_run_skip table frames s =
     (if table = [] \<or> length table > unat OBC_MAX_TASKS then (OBC_ERR_INVALID, s)
      else (case sched_now_skip 0 0 s of
        (st, frame_start, s1) \<Rightarrow>
          if st \<noteq> OBC_OK then (st, s1)
          else (let s2 = s1\<lparr>obc_slack_ticks_min := OBC_FRAME_TICKS, obc_window_start_ticks := ucast frame_start\<rparr>
                in case obc_mode_is_safe s2 of
                     (safe, s3) \<Rightarrow>
                       frame_loop_skip table (unat frames) 0 frame_start
                         (if safe \<and> obc_safe_entry_frame s3 = OBC_SAFE_ENTRY_NONE
                          then s3\<lparr>obc_safe_entry_frame := 0\<rparr> else s3))))"

text \<open>What it dispatches in a frame: the table's list, less the one.\<close>

definition skip_due :: "'s obc_task list \<Rightarrow> u32 \<Rightarrow> nat \<Rightarrow> bool" where
  "skip_due table frame i \<longleftrightarrow>
     task_due table frame i \<and> \<not> (frame = BROKEN_SKIP_FRAME \<and> i = BROKEN_SKIP_TASK)"

context task_set
begin

lemma dispatch_skip_effect:
  assumes "i < length table"
  shows "kept (dispatch_skip table i s) = kept (trace_push i s)" "quiet (dispatch_skip table i s) = quiet s"
    "nominal s \<Longrightarrow> nominal (dispatch_skip table i s)" "degraded s \<Longrightarrow> degraded (dispatch_skip table i s)"
proof -
  obtain f where f: "task_fn (table ! i) = Some f" using has_function [OF assms] by auto
  have wb: "well_behaved f" by (rule task_behaves [OF assms f])
  obtain before s1 where s1: "minstret (trace_push i s) = (before, s1)" by fastforce
  obtain after s2 where s2: "minstret (f s1) = (after, s2)" by fastforce
  let ?s3 = "account i (after - before) (budget_instr (table ! i)) s2"
  have d: "dispatch_skip table i s = ?s3" by (simp add: dispatch_skip_def same_as_flight f s1 s2 Let_def)
  have k1: "kept s1 = kept (trace_push i s)" "quiet s1 = quiet s" "crit s1 = crit s" "s_announced s1 = s_announced s"
    using kept_minstret [of "trace_push i s"] s1 by simp_all
  have k2: "kept s2 = kept (f s1)" "quiet s2 = quiet (f s1)" "crit s2 = crit (f s1)" "s_announced s2 = s_announced (f s1)"
    using kept_minstret [of "f s1"] s2 by simp_all
  have w: "kept (f s1) = kept s1" "quiet (f s1) = quiet s1" "nominal s1 \<Longrightarrow> nominal (f s1)"
    "degraded s1 \<Longrightarrow> degraded (f s1)"
    using wb by (simp_all add: well_behaved_def)
  have m: "nominal s1 = nominal s" "degraded s1 = degraded s" by (rule mode_cong; simp add: k1)+
  have m3: "nominal ?s3 = nominal (f s1)" "degraded ?s3 = degraded (f s1)" by (rule mode_cong; simp add: k2)+
  show "kept (dispatch_skip table i s) = kept (trace_push i s)" "quiet (dispatch_skip table i s) = quiet s"
    "nominal s \<Longrightarrow> nominal (dispatch_skip table i s)" "degraded s \<Longrightarrow> degraded (dispatch_skip table i s)"
    unfolding d using k1 k2 w m m3 by simp_all
qed

text \<open>A nominal frame: the trace is the table's less the one, and nothing is ever suspended,
  whatever the tasks cost. The copy has no ladder.\<close>

lemma skip_loop_conforms:
  assumes "\<forall>i \<in> set is. i < length table" and "nominal s" and "wf_trace s"
  shows "nominal (dispatch_loop_skip table frame is s) \<and> wf_trace (dispatch_loop_skip table frame is s) \<and>
    quiet (dispatch_loop_skip table frame is s) = quiet s \<and>
    recorded (dispatch_loop_skip table frame is s) =
      take 256 (recorded s @ map of_nat (filter (skip_due table frame) is))"
  using assms
proof (induction "is" arbitrary: s)
  case Nil
  then show ?case by (simp add: wf_trace_def recorded_def)
next
  case (Cons i "is")
  have i: "i < length table" and rest: "\<forall>i \<in> set is. i < length table" using Cons.prems(1) by simp_all
  obtain sf s1 where s1: "obc_mode_is_safe s = (sf, s1)" by fastforce
  have n1: "\<not> sf" "nominal s1" "quiet s1 = quiet s" "kept s1 = kept s"
    using nominal_is_safe [OF Cons.prems(2)] kept_is_safe [of s] s1 by simp_all
  have t1: "recorded s1 = recorded s" "wf_trace s1" using trace_cong [OF n1(4)] Cons.prems(3) by simp_all
  let ?s2 = "dispatch_skip table i s1"
  note e = dispatch_skip_effect [OF i, of s1]
  have t2: "recorded ?s2 = take 256 (recorded s @ [of_nat i])" "wf_trace ?s2"
    using trace_cong [OF e(1)] trace_push_recorded [OF t1(2), of i] t1(1) by simp_all
  show ?case
  proof (cases "skip_due table frame i")
    case True
    then have l: "dispatch_loop_skip table frame (i # is) s = dispatch_loop_skip table frame is ?s2"
      using s1 n1(1) by (auto simp: skip_due_def task_due_def)
    show ?thesis
      using Cons.IH [OF rest e(3) [OF n1(2)] t2(2)] True e(2) n1(3)
      unfolding l t2(1) take_take_append by simp
  next
    case False
    then have "dispatch_loop_skip table frame (i # is) s \<in>
        {dispatch_loop_skip table frame is s, dispatch_loop_skip table frame is s1}"
      using s1 n1(1) by (auto simp: skip_due_def task_due_def)
    then consider "dispatch_loop_skip table frame (i # is) s = dispatch_loop_skip table frame is s"
      | "dispatch_loop_skip table frame (i # is) s = dispatch_loop_skip table frame is s1"
      by blast
    then show ?thesis
    proof cases
      case 1
      then show ?thesis using Cons.IH [OF rest Cons.prems(2,3)] False by simp
    next
      case 2
      then show ?thesis using Cons.IH [OF rest n1(2) t1(2)] False n1(3) t1(1) by simp
    qed
  qed
qed

lemma skip_loop_wf:
  "\<forall>i \<in> set is. i < length table \<Longrightarrow> wf_trace s \<Longrightarrow> wf_trace (dispatch_loop_skip table frame is s)"
proof (induction "is" arbitrary: s)
  case Nil
  then show ?case by simp
next
  case (Cons i "is")
  obtain sf s1 where s1: "obc_mode_is_safe s = (sf, s1)" by fastforce
  have w1: "wf_trace s1" using trace_cong [OF kept_is_safe(1) [of s]] s1 Cons.prems(2) by simp
  have "wf_trace (dispatch_skip table i s1)"
    using trace_cong [OF dispatch_skip_effect(1)] trace_push_recorded(1) [OF w1] Cons.prems(1) by simp
  then show ?case using Cons w1 s1 by auto
qed

lemma skip_loop_spoiled:
  assumes "\<forall>i \<in> set is. i < length table" and "wf_trace s"
  shows "degraded s \<longrightarrow> degraded (dispatch_loop_skip table frame is s)"
    "spoiled s \<longrightarrow> spoiled (dispatch_loop_skip table frame is s)"
proof -
  show d: "degraded s \<longrightarrow> degraded (dispatch_loop_skip table frame is s)" for s
    using assms(1)
  proof (induction "is" arbitrary: s)
    case Nil
    then show ?case by simp
  next
    case (Cons i "is")
    obtain sf s1 where s1: "obc_mode_is_safe s = (sf, s1)" by fastforce
    have "degraded s \<Longrightarrow> degraded s1" using degraded_is_safe [of s] s1 by simp
    then show ?case
      using Cons dispatch_skip_effect(4) [of i s1] s1 by auto
  qed
  show "spoiled s \<longrightarrow> spoiled (dispatch_loop_skip table frame is s)"
    using d [of s] skip_loop_conforms [OF assms(1) _ assms(2), of frame] by (auto simp: spoiled_def quiet_def)
qed

text \<open>The whole window. A run that ends without having degraded shows the table's schedule less
  the one dispatch.\<close>

definition skip_schedule :: "nat \<Rightarrow> u32 \<Rightarrow> u8 list" where
  "skip_schedule k frame =
     concat (map (\<lambda>j. map of_nat (filter (skip_due table (frame + of_nat j)) [0..<length table])) [0..<k])"

lemma skip_schedule_Suc:
  "skip_schedule (Suc k) frame =
     map of_nat (filter (skip_due table frame) [0..<length table]) @ skip_schedule k (frame + 1)"
  by (simp add: skip_schedule_def upt_conv_Cons map_Suc_upt [symmetric] comp_def add.assoc del: upt_Suc)

lemma frame_step_skip_parts:
  assumes "frame_step_skip table frame start s = (st, s')"
  shows "follows (dispatch_loop_skip table frame [0..<length table] (s\<lparr>obc_cmd_now_ticks := ucast start\<rparr>)) s'"
proof -
  let ?deadline = "start + ucast OBC_FRAME_TICKS"
  let ?s1 = "dispatch_loop_skip table frame [0..<length table] (s\<lparr>obc_cmd_now_ticks := ucast start\<rparr>)"
  obtain st1 now s2 where n: "sched_now 0 frame ?s1 = (st1, now, s2)" by (metis prod_cases3)
  have h2: "holds_on ?s1 s2" using sched_now_holds [of ?s1 0 frame] n by simp
  let ?sb = "note_slack frame now ?deadline s2"
  have hb: "holds_on ?s1 ?sb" using holds_on_trans [OF h2] note_slack_holds by blast
  obtain st' now' s3 where m: "idle_loop frame ?deadline 0 now ?sb = (st', now', s3)" by (metis prod_cases3)
  have h3: "holds_on ?s1 s3" using holds_on_trans [OF hb] idle_loop_holds [of ?sb frame ?deadline 0 now] m by simp
  show ?thesis
    using assms n m holds_on_follows [OF h2] holds_on_follows [OF h3] follows_count [OF h3]
    by (auto simp: frame_step_skip_def same_as_flight Let_def split: if_splits)
qed

lemma frame_loop_skip_conforms:
  assumes "frame_loop_skip table k frame start s = (OBC_OK, s')" and "wf_trace s"
  shows "(spoiled s \<longrightarrow> spoiled s') \<and>
    (nominal s \<longrightarrow> spoiled s' \<or> recorded s' = take 256 (recorded s @ skip_schedule k frame))"
  using assms
proof (induction k arbitrary: frame start s)
  case 0
  then show ?case by (auto simp: end_of_window skip_schedule_def wf_trace_def recorded_def)
next
  case (Suc k)
  let ?s0 = "s\<lparr>obc_cmd_now_ticks := ucast start\<rparr>"
  let ?s1 = "dispatch_loop_skip table frame [0..<length table] ?s0"
  obtain s2 where f: "frame_step_skip table frame start s = (OBC_OK, s2)"
    and rest: "frame_loop_skip table k (frame + 1) (start + ucast OBC_FRAME_TICKS) s2 = (OBC_OK, s')"
    using Suc.prems(1) by (auto split: prod.splits if_splits)
  note fo = frame_step_skip_parts [OF f]
  have ids: "\<forall>i \<in> set [0..<length table]. i < length table" by simp
  have w0: "wf_trace ?s0" using Suc.prems(2) by (simp add: start_of_frame)
  note c = skip_loop_conforms [OF ids _ w0, of frame, unfolded start_of_frame]
  note sp = skip_loop_spoiled [OF ids w0, of frame, unfolded start_of_frame]
  have "wf_trace s2" using follows_trace [OF fo] skip_loop_wf [OF ids w0] by simp
  note ih = Suc.IH [OF rest this]
  show ?case
  proof (intro conjI impI)
    show "spoiled s'" if "spoiled s" using that sp(2) fo ih by (simp add: follows_def)
    show "spoiled s' \<or> recorded s' = take 256 (recorded s @ skip_schedule (Suc k) frame)" if n: "nominal s"
    proof (cases "spoiled s2")
      case True
      then show ?thesis using ih by blast
    next
      case False
      then have "nominal s2" using c [OF n] fo by (auto simp: follows_def)
      then have "spoiled s' \<or> recorded s' = take 256 (recorded s2 @ skip_schedule k (frame + 1))" using ih by blast
      moreover have "recorded s2 = take 256 (recorded s @ map of_nat (filter (skip_due table frame) [0..<length table]))"
        using c [OF n] follows_trace [OF fo] by simp
      ultimately show ?thesis by (simp only: skip_schedule_Suc take_take_append append_assoc)
    qed
  qed
qed

end

section \<open>Properties of the skipping executive\<close>

lemma flight_skip_due:
  assumes "f < 2 ^ 32"
  shows "map of_nat (filter (skip_due (obc_task_table :: tasks_state obc_task list) (of_nat f)) [0..<5]) =
    (if f = 7 then remove1 0 (due_in_frame f) else due_in_frame f)"
proof -
  have q: "(of_nat f = BROKEN_SKIP_FRAME) = (f = 7)"
  proof
    assume "of_nat f = BROKEN_SKIP_FRAME"
    then have "unat (of_nat f :: u32) = 7" by (simp add: BROKEN_SKIP_FRAME_def)
    then show "f = 7" using assms by (simp add: unat_of_nat take_bit_nat_eq_self)
  qed (simp add: BROKEN_SKIP_FRAME_def)
  show ?thesis
  proof (cases "f = 7")
    case False
    then have "skip_due (obc_task_table :: tasks_state obc_task list) (of_nat f) =
        task_due (obc_task_table :: tasks_state obc_task list) (of_nat f)"
      using q by (simp add: fun_eq_iff skip_due_def)
    then show ?thesis using flight_expected [OF assms] False by (simp add: flight.expected_def)
  next
    case True
    have n: "[0..<5] = [0, 1, 2, 3, 4 :: nat]" by (simp add: upt_rec)
    have "map of_nat (filter (task_due (obc_task_table :: tasks_state obc_task list) 7) [0, 1, 2, 3, 4]) = [0, 4 :: u8]"
      using flight_expected [of 7] unfolding flight.expected_def n by (simp add: due_in_frame_def)
    then show ?thesis using True q unfolding n
      by (auto simp: skip_due_def BROKEN_SKIP_TASK_def due_in_frame_def split: if_splits)
  qed
qed

text \<open>
  The skipping executive drops exactly one dispatch of the flight table, and its ladder
  with it. On a nominal run, in every frame but the seventh the trace gains what the table
  dictates; in the seventh it gains that less the housekeeping task. And whatever the tasks
  cost, nothing is suspended: unlike the flight executive the copy never escalates.
\<close>

lemma skip_drops_one_dispatch:
  fixes s :: tasks_state
  assumes "nominal s" and "wf_trace s" and "f < 2 ^ 32"
  shows "recorded (dispatch_loop_skip obc_task_table (of_nat f) [0..<obc_task_count] s) =
      take 256 (recorded s @ (if f = 7 then remove1 0 (due_in_frame f) else due_in_frame f)) \<and>
    quiet (dispatch_loop_skip obc_task_table (of_nat f) [0..<obc_task_count] s) = quiet s \<and>
    nominal (dispatch_loop_skip obc_task_table (of_nat f) [0..<obc_task_count] s)"
  using flight.skip_loop_conforms [OF _ assms(1,2), of "[0..<5]" "of_nat f"] flight_skip_due [OF assms(3)]
  unfolding obc_task_count_eq by simp

text \<open>Over the nominal window the table dictates 46 dispatches; the copy makes 45.\<close>

lemma skip_window_dispatches:
  assumes "frame_loop_skip (obc_task_table :: tasks_state obc_task list) 16 0 start s = (OBC_OK, s')"
    and "nominal s" and "wf_trace s" and "recorded s = []" and "\<not> spoiled s'"
  shows "length (recorded s') = 45"
proof -
  have "map of_nat (filter (skip_due (obc_task_table :: tasks_state obc_task list) (0 + of_nat j)) [0..<5]) =
      (if j = 7 then remove1 0 (due_in_frame j) else due_in_frame j)" if "j < 16" for j
    using flight_skip_due [of j] that by simp
  then have "map (\<lambda>j. map of_nat (filter (skip_due (obc_task_table :: tasks_state obc_task list) (0 + of_nat j)) [0..<5])) [0..<16]
      = map (\<lambda>j. if j = 7 then remove1 0 (due_in_frame j) else due_in_frame j) [0..<16]"
    by (intro map_cong refl) (simp only: set_upt atLeastLessThan_iff)
  moreover have "length (concat (map (\<lambda>j. if j = 7 then remove1 0 (due_in_frame j) else due_in_frame j) [0..<16])) = 45"
    by code_simp
  ultimately have "length (flight.skip_schedule 16 0) = 45"
    unfolding flight.skip_schedule_def obc_task_count_eq by (simp only:)
  then show ?thesis using flight.frame_loop_skip_conforms [OF assms(1,3)] assms(2,4,5) by simp
qed

section \<open>Tables with a starved task\<close>

text \<open>
  Both copies keep the flight table's first four tasks in an earlier form: the telemetry task
  and, in the second copy, the scrubber are loops of fixed length, no task has a subsystem
  reset, and one budget is far below what its task costs.
\<close>

definition task_telemetry_stub :: "'a tasks_state_scheme \<Rightarrow> 'a tasks_state_scheme" where
  "task_telemetry_stub s = work_loop 100 s"

definition obc_task_table_loop :: "('a tasks_state_scheme) obc_task list" where
  "obc_task_table_loop =
     [\<lparr>task_name = ''housekeeping'', task_fn = Some task_housekeeping_loop, period_frames = T0_PERIOD_loop,
       budget_instr = T0_BUDGET_loop, essential = T0_ESSENTIAL_loop, reset_fn = None\<rparr>,
      \<lparr>task_name = ''telemetry'', task_fn = Some task_telemetry_stub, period_frames = T1_PERIOD_loop,
       budget_instr = T1_BUDGET_loop, essential = T1_ESSENTIAL_loop, reset_fn = None\<rparr>,
      \<lparr>task_name = ''scrub'', task_fn = Some task_scrub_loop, period_frames = T2_PERIOD_loop,
       budget_instr = T2_BUDGET_loop, essential = T2_ESSENTIAL_loop, reset_fn = None\<rparr>,
      \<lparr>task_name = ''audit'', task_fn = Some task_audit_loop, period_frames = T3_PERIOD_loop,
       budget_instr = T3_BUDGET_loop, essential = T3_ESSENTIAL_loop, reset_fn = None\<rparr>]"

definition task_telemetry_overrun :: "'a tasks_state_scheme \<Rightarrow> 'a tasks_state_scheme" where
  "task_telemetry_overrun s = work_overrun 100 s"

definition task_scrub_stub :: "'a tasks_state_scheme \<Rightarrow> 'a tasks_state_scheme" where
  "task_scrub_stub s = work_overrun 200 s"

definition obc_task_table_overrun :: "('a tasks_state_scheme) obc_task list" where
  "obc_task_table_overrun =
     [\<lparr>task_name = ''housekeeping'', task_fn = Some task_housekeeping_overrun, period_frames = T0_PERIOD_overrun,
       budget_instr = T0_BUDGET_overrun, essential = T0_ESSENTIAL_overrun, reset_fn = None\<rparr>,
      \<lparr>task_name = ''telemetry'', task_fn = Some task_telemetry_overrun, period_frames = T1_PERIOD_overrun,
       budget_instr = T1_BUDGET_overrun, essential = T1_ESSENTIAL_overrun, reset_fn = None\<rparr>,
      \<lparr>task_name = ''scrub'', task_fn = Some task_scrub_stub, period_frames = T2_PERIOD_overrun,
       budget_instr = T2_BUDGET_overrun, essential = T2_ESSENTIAL_overrun, reset_fn = None\<rparr>,
      \<lparr>task_name = ''audit'', task_fn = Some task_audit_overrun, period_frames = T3_PERIOD_overrun,
       budget_instr = T3_BUDGET_overrun, essential = T3_ESSENTIAL_overrun, reset_fn = None\<rparr>]"

text \<open>A starved task climbs the ladder: its first overrun suspends it for the next frame it is
  due in, its second resets the machine, or enters safe mode once the boots are used up.\<close>

lemma starved_dispatch:
  fixes s :: "'a sched_state_scheme"
  assumes "task_fn (table ! i) = Some f" and "reset_fn (table ! i) = None" and "i < length (obc_task_state s)"
    and "minstret (trace_push i s) = (before, s1)" and "minstret (f s1) = (after, s2)"
    and "budget_instr (table ! i) < after - before"
    and "obc_task_state (f s1) = obc_task_state s1"
  shows "ts_overruns (obc_task_state s ! i) = 0 \<Longrightarrow> dispatch table i frame s =
      obc_recover_escalate table OBC_RUNG_SUSPEND_TASK (of_nat i) frame (account i (after - before) (budget_instr (table ! i)) s2)"
    "ts_overruns (obc_task_state s ! i) = 1 \<Longrightarrow> dispatch table i frame s =
      obc_recover_escalate table OBC_RUNG_RESET_MACHINE (of_nat i) frame (account i (after - before) (budget_instr (table ! i)) s2)"
proof -
  have "obc_task_state s2 = obc_task_state s"
    using assms(4,5,7) by (auto simp: minstret_def trace_push_def split: prod.splits)
  then have "ts_overruns (obc_task_state (account i (after - before) (budget_instr (table ! i)) s2) ! i) =
      ts_overruns (obc_task_state s ! i) + 1"
    using assms(3,6) by (simp add: account_def Let_def)
  then show "ts_overruns (obc_task_state s ! i) = 0 \<Longrightarrow> dispatch table i frame s =
      obc_recover_escalate table OBC_RUNG_SUSPEND_TASK (of_nat i) frame (account i (after - before) (budget_instr (table ! i)) s2)"
    "ts_overruns (obc_task_state s ! i) = 1 \<Longrightarrow> dispatch table i frame s =
      obc_recover_escalate table OBC_RUNG_RESET_MACHINE (of_nat i) frame (account i (after - before) (budget_instr (table ! i)) s2)"
    using assms(1,2,4-6) by (simp_all add: dispatch_def Let_def overrun_rung_def)
qed

text \<open>In the loop table: frame 0 suspends housekeeping for frame 1, frame 2 ends the boot.\<close>

lemma loop_table_climbs:
  fixes s :: "'a tasks_state_scheme"
  assumes "0 < length (obc_task_state s)"
    and "minstret (trace_push 0 s) = (before, s1)" and "minstret (task_housekeeping s1) = (after, s2)"
    and "100 < after - before"
  shows "ts_overruns (obc_task_state s ! 0) = 0 \<Longrightarrow>
      fst (dispatch obc_task_table_loop 0 frame s) = Ret () \<and>
      s_suspended_task (snd (dispatch obc_task_table_loop 0 frame s)) = 0 \<and>
      s_suspended_frame (snd (dispatch obc_task_table_loop 0 frame s)) = frame + 1"
    "ts_overruns (obc_task_state s ! 0) = 1 \<Longrightarrow> obc_recover_short_boots s2 < OBC_SHORT_BOOT_LIMIT \<Longrightarrow>
      fst (dispatch obc_task_table_loop 0 frame s) = Reset"
    "ts_overruns (obc_task_state s ! 0) = 1 \<Longrightarrow> OBC_SHORT_BOOT_LIMIT \<le> obc_recover_short_boots s2 \<Longrightarrow>
      dispatch obc_task_table_loop 0 frame s =
        (Ret (), obc_mode_enter_safe OBC_SAFE_RESET_LOOP (account 0 (after - before) 100 s2))"
proof -
  have t: "task_fn (obc_task_table_loop ! 0) = Some (task_housekeeping :: 'a tasks_state_scheme \<Rightarrow> _)"
    "reset_fn (obc_task_table_loop ! 0) = (None :: ('a tasks_state_scheme \<Rightarrow> 'a tasks_state_scheme) option)"
    "budget_instr (obc_task_table_loop ! 0 :: 'a tasks_state_scheme obc_task) = 100"
    "period_frames (obc_task_table_loop ! 0 :: 'a tasks_state_scheme obc_task) = 1"
    by (simp_all add: obc_task_table_loop_def table_loop_consts same_as_flight fun_eq_iff)
  have k: "obc_task_state (task_housekeeping s1) = obc_task_state s1" by (simp add: task_housekeeping_def work_def)
  have b: "budget_instr (obc_task_table_loop ! 0 :: 'a tasks_state_scheme obc_task) < after - before"
    using assms(4) t(3) by simp
  note d = starved_dispatch [where table = obc_task_table_loop, OF t(1,2) assms(1-3) b k, of frame, unfolded t(3)]
  have boots: "obc_recover_short_boots (account 0 u 100 s2) = obc_recover_short_boots s2" for u
    by (simp add: obc_recover_short_boots_def account_def Let_def)
  show "ts_overruns (obc_task_state s ! 0) = 0 \<Longrightarrow>
      fst (dispatch obc_task_table_loop 0 frame s) = Ret () \<and>
      s_suspended_task (snd (dispatch obc_task_table_loop 0 frame s)) = 0 \<and>
      s_suspended_frame (snd (dispatch obc_task_table_loop 0 frame s)) = frame + 1"
    using d(1) t(4) by (simp add: obc_recover_escalate_def Let_def log_suspension_def)
  show "ts_overruns (obc_task_state s ! 0) = 1 \<Longrightarrow> obc_recover_short_boots s2 < OBC_SHORT_BOOT_LIMIT \<Longrightarrow>
      fst (dispatch obc_task_table_loop 0 frame s) = Reset"
    using d(2) boots by (simp add: obc_recover_escalate_def Let_def obc_reset_now_def not_le [symmetric])
  show "ts_overruns (obc_task_state s ! 0) = 1 \<Longrightarrow> OBC_SHORT_BOOT_LIMIT \<le> obc_recover_short_boots s2 \<Longrightarrow>
      dispatch obc_task_table_loop 0 frame s =
        (Ret (), obc_mode_enter_safe OBC_SAFE_RESET_LOOP (account 0 (after - before) 100 s2))"
    using d(2) boots by (simp add: obc_recover_escalate_def Let_def)
qed

text \<open>In the other table the starved audit of frame 0 is withheld in frame 8: it runs once in a
  window for which its period dictates two dispatches.\<close>

lemma overrun_table_withholds:
  fixes s :: "'a tasks_state_scheme"
  assumes "3 < length (obc_task_state s)" and "ts_overruns (obc_task_state s ! 3) = 0"
    and "minstret (trace_push 3 s) = (before, s1)" and "minstret (task_audit s1) = (after, s2)"
    and "100 < after - before"
  shows "fst (dispatch obc_task_table_overrun 3 0 s) = Ret () \<and>
    obc_recover_is_suspended 3 8 (snd (dispatch obc_task_table_overrun 3 0 s))"
proof -
  have t: "task_fn (obc_task_table_overrun ! 3) = Some (task_audit :: 'a tasks_state_scheme \<Rightarrow> _)"
    "reset_fn (obc_task_table_overrun ! 3) = (None :: ('a tasks_state_scheme \<Rightarrow> 'a tasks_state_scheme) option)"
    "budget_instr (obc_task_table_overrun ! 3 :: 'a tasks_state_scheme obc_task) = 100"
    "period_frames (obc_task_table_overrun ! 3 :: 'a tasks_state_scheme obc_task) = 8"
    by (simp_all add: obc_task_table_overrun_def table_overrun_consts same_as_flight fun_eq_iff)
  have k: "obc_task_state (task_audit s1) = obc_task_state s1" by (simp add: task_audit_def work_def)
  have b: "budget_instr (obc_task_table_overrun ! 3 :: 'a tasks_state_scheme obc_task) < after - before"
    using assms(5) t(3) by simp
  from starved_dispatch(1) [where table = obc_task_table_overrun, OF t(1,2) assms(1,3,4) b k assms(2), of 0] t(4)
  show ?thesis
    by (simp add: obc_recover_escalate_def Let_def log_suspension_def obc_recover_is_suspended_def)
qed

section \<open>A descriptor table with a wrong offset\<close>

definition obc_tlm_fields_wrong :: "tlm_field list" where
  "obc_tlm_fields_wrong =
     [tlm_row ''sync'' OBC_TLM_O_SYNC OBC_TLM_W_SYNC 1 OBC_TLM_KIND_SYNC,
      tlm_row ''seq'' OBC_TLM_O_SEQ OBC_TLM_W_SEQ 1 OBC_TLM_KIND_COUNT,
      tlm_row ''uptime_ticks'' OBC_TLM_O_UPTIME OBC_TLM_W_UPTIME 1 OBC_TLM_KIND_COUNT,
      tlm_row ''frames_run'' OBC_TLM_O_FRAMES OBC_TLM_W_FRAMES 1 OBC_TLM_KIND_COUNT,
      tlm_row ''frame_overruns'' OBC_TLM_O_FRAME_OVERRUNS OBC_TLM_W_FRAME_OVERRUNS 1 OBC_TLM_KIND_COUNT,
      tlm_row ''slack_ticks_min'' OBC_TLM_O_SLACK OBC_TLM_W_SLACK 1 OBC_TLM_KIND_COUNT,
      tlm_row ''task_overruns'' OBC_TLM_O_TASK_OVERRUNS OBC_TLM_W_TASK_OVERRUNS OBC_TLM_N_TASK_OVERRUNS OBC_TLM_KIND_COUNT,
      tlm_row ''voter_repairs'' OBC_TLM_O_TASK_OVERRUNS OBC_TLM_W_REPAIRS 1 OBC_TLM_KIND_COUNT,
      tlm_row ''voter_failed_votes'' OBC_TLM_O_FAILED_VOTES OBC_TLM_W_FAILED_VOTES 1 OBC_TLM_KIND_COUNT,
      tlm_row ''suspensions'' OBC_TLM_O_SUSPENSIONS OBC_TLM_W_SUSPENSIONS 1 OBC_TLM_KIND_COUNT,
      tlm_row ''short_boots'' OBC_TLM_O_SHORT_BOOTS OBC_TLM_W_SHORT_BOOTS 1 OBC_TLM_KIND_COUNT,
      tlm_row ''mode'' OBC_TLM_O_MODE OBC_TLM_W_MODE 1 OBC_TLM_KIND_ENUM,
      tlm_row ''safe_reason'' OBC_TLM_O_SAFE_REASON OBC_TLM_W_SAFE_REASON 1 OBC_TLM_KIND_ENUM,
      tlm_row ''reset_cause'' OBC_TLM_O_RESET_CAUSE OBC_TLM_W_RESET_CAUSE 1 OBC_TLM_KIND_ENUM,
      tlm_row ''sensor_flags'' OBC_TLM_O_SENSOR_FLAGS OBC_TLM_W_SENSOR_FLAGS 1 OBC_TLM_KIND_BITS,
      tlm_row ''sensor'' OBC_TLM_O_SENSOR OBC_TLM_W_SENSOR OBC_TLM_N_SENSOR OBC_TLM_KIND_SENSOR,
      tlm_row ''sum'' OBC_TLM_O_SUM OBC_TLM_W_SUM 1 OBC_TLM_KIND_SUM]"

definition obc_tlm_init_wrong ::
  "'s obc_task list \<Rightarrow> tlm_field list \<Rightarrow> 'a tlm_state_scheme \<Rightarrow> obc_status \<times> 'a tlm_state_scheme" where
  "obc_tlm_init_wrong tasks layout s =
     (if layout = [] then (OBC_ERR_INVALID, s)
      else if tlm_layout_audit layout 0 \<noteq> Some (of_nat OBC_TLM_FRAME_LEN) then (OBC_ERR_INVALID, s)
      else if filter (\<lambda>t. reset_fn t \<noteq> None) (take (unat OBC_MAX_TASKS) tasks) = [] then (OBC_ERR_INVALID, s)
      else (OBC_OK, s\<lparr>sensors := obc_sensor_init (sensors s), obc_tlm_seq := 0,
              obc_tlm_frame := replicate OBC_TLM_FRAME_LEN 0, s_layout_ok := 1\<rparr>))"

definition puts_before_vote_wrong :: "nat \<Rightarrow> u32 \<Rightarrow> 'a tlm_state_scheme \<Rightarrow> (u8 list \<Rightarrow> u8 list) list" where
  "puts_before_vote_wrong task_count uptime s =
     [put_u32_wrong OBC_TLM_O_SYNC OBC_TLM_SYNC,
      put_u32_wrong OBC_TLM_O_SEQ (obc_tlm_seq s),
      put_u32_wrong OBC_TLM_O_UPTIME uptime,
      put_u32_wrong OBC_TLM_O_FRAMES (obc_frames_run s),
      put_u16_wrong OBC_TLM_O_FRAME_OVERRUNS (sat16_wrong (obc_frame_overruns s)),
      put_u16_wrong OBC_TLM_O_SLACK (sat16_wrong (obc_slack_ticks_min s))] @
     map (\<lambda>i. put_u8_wrong (OBC_TLM_O_TASK_OVERRUNS + i)
            (sat8_wrong (if i < task_count then ts_overruns (obc_task_state s ! i) else 0)))
       [0..<OBC_TLM_N_TASK_OVERRUNS] @
     [put_u16_wrong OBC_TLM_O_REPAIRS (sat16_wrong (obc_critical_repairs (crit s))),
      put_u16_wrong OBC_TLM_O_FAILED_VOTES (sat16_wrong (obc_critical_failed_votes (crit s))),
      put_u16_wrong OBC_TLM_O_SUSPENSIONS (sat16_wrong (obc_suspension_count s)),
      put_u8_wrong OBC_TLM_O_SHORT_BOOTS (sat8_wrong (obc_recover_short_boots s))]"

definition puts_after_vote_wrong :: "bool \<Rightarrow> 'a tlm_state_scheme \<Rightarrow> (u8 list \<Rightarrow> u8 list) list" where
  "puts_after_vote_wrong safe s =
     [put_u8_wrong OBC_TLM_O_MODE (if safe then OBC_MODE_SAFE else OBC_MODE_NOMINAL),
      put_u8_wrong OBC_TLM_O_SAFE_REASON (obc_safe_reason s),
      put_u8_wrong OBC_TLM_O_RESET_CAUSE (obc_reset_cause_previous s),
      put_u8_wrong OBC_TLM_O_SENSOR_FLAGS (obc_sensor_flags (sensors s))] @
     map (\<lambda>i. put_u16_wrong (OBC_TLM_O_SENSOR + i * OBC_TLM_W_SENSOR) (ucast (obc_sensor_value (sensors s) ! i)))
       [0..<OBC_TLM_N_SENSOR]"

text \<open>The copy predates the second port: each byte goes to the console, one allowance each.\<close>

definition obc_tlm_emit_wrong :: "nat \<Rightarrow> 'a tlm_state_scheme \<Rightarrow> obc_status \<times> 'a tlm_state_scheme" where
  "obc_tlm_emit_wrong task_count s =
     (if s_layout_ok s = 0 then (OBC_ERR_INVALID, s)
      else (case obc_mtime_read (Some 0) s of
        (st, now, s1) \<Rightarrow>
          (let uptime = (if st = OBC_OK then ucast (the now AND 0xFFFFFFFF) else 0xFFFFFFFF);
               s2 = pack (puts_before_vote_wrong task_count uptime s1) s1
           in case obc_mode_is_safe s2 of
                (safe, s3) \<Rightarrow>
                  (let s4 = pack (puts_after_vote_wrong safe s3) s3;
                       s5 = pack [put_u16_wrong OBC_TLM_O_SUM (frame_sum_wrong (obc_tlm_frame s4))] s4;
                       s6 = s5\<lparr>obc_tlm_seq := obc_tlm_seq s5 + 1\<rparr>
                   in case put_chars (map (\<lambda>b. char_of (unat b)) (take OBC_TLM_FRAME_LEN (obc_tlm_frame s6))) (hw s6) of
                        (w, h) \<Rightarrow> (if w \<noteq> OBC_OK then w else st, s6\<lparr>hw := h\<rparr>)))))"

text \<open>The audit refuses the table. It would refuse it with the deliberate row put right, too: the
  copy also lacks the rows the frame has gained since.\<close>

lemma wrong_layout_refused: "obc_tlm_init_wrong tasks obc_tlm_fields_wrong s = (OBC_ERR_INVALID, s)"
proof -
  have "tlm_layout_audit obc_tlm_fields_wrong 0 = None"
    by (simp add: obc_tlm_fields_wrong_def tlm_row_def width_ok_def tlm_layout OBC_MAX_TASKS_def OBC_CMD_REJECT_COUNT_def)
  then show ?thesis by (simp add: obc_tlm_init_wrong_def)
qed

lemma corrected_row_refused:
  "obc_tlm_init_wrong tasks
     (obc_tlm_fields_wrong[7 := tlm_row ''voter_repairs'' OBC_TLM_O_REPAIRS OBC_TLM_W_REPAIRS 1 OBC_TLM_KIND_COUNT]) s =
     (OBC_ERR_INVALID, s)"
proof -
  have "tlm_layout_audit
     (obc_tlm_fields_wrong[7 := tlm_row ''voter_repairs'' OBC_TLM_O_REPAIRS OBC_TLM_W_REPAIRS 1 OBC_TLM_KIND_COUNT]) 0 = None"
    by (simp add: obc_tlm_fields_wrong_def tlm_row_def width_ok_def tlm_layout OBC_MAX_TASKS_def OBC_CMD_REJECT_COUNT_def)
  then show ?thesis by (simp add: obc_tlm_init_wrong_def)
qed

text \<open>And whatever it emits, audited or not, nothing reaches the downlink port.\<close>

lemma port_putc_other:
  "b \<noteq> base + UART_TXDATA \<Longrightarrow> writes_to b (io (snd (snd (port_putc base byte a h)))) = writes_to b (io h)"
proof (induction a h rule: port_putc_induct [of base])
  case (poll a h)
  then show ?case
    by (subst port_putc_unfold) (auto simp: bus_read_def bus_write_def Let_def)
qed

lemma put_chars_other: "writes_to downlink_tx (io (snd (put_chars cs h))) = writes_to downlink_tx (io h)"
proof (induction cs arbitrary: h)
  case Nil
  then show ?case by simp
next
  case (Cons c cs)
  have "writes_to downlink_tx (io (snd (obc_uart_putc c h))) = writes_to downlink_tx (io h)"
    using port_putc_other [of downlink_tx UART0_BASE "of_char c" OBC_UART_TX_RETRY_TOTAL h]
    by (simp add: obc_uart_putc_def case_prod_beta UART0_BASE_def UART1_BASE_def UART_TXDATA_def)
  then show ?case using Cons by (auto split: prod.split simp: case_prod_beta)
qed

lemma mtime_writes: "writes_to a (io (snd (mtime_attempts n h))) = writes_to a (io h)"
  by (induction n arbitrary: h) (auto simp: bus_read_def Let_def)

lemma wrong_emit_off_downlink:
  "writes_to downlink_tx (io (hw (snd (obc_tlm_emit_wrong n s)))) = writes_to downlink_tx (io (hw s))"
proof (cases "s_layout_ok s = 0")
  case True
  then show ?thesis by (simp add: obc_tlm_emit_wrong_def)
next
  case False
  obtain st now s1 where m: "obc_mtime_read (Some 0) s = (st, now, s1)" by (metis prod_cases3)
  have w1: "writes_to downlink_tx (io (hw s1)) = writes_to downlink_tx (io (hw s))"
    using m mtime_writes [of downlink_tx MTIME_READ_ATTEMPTS "hw s"]
    by (auto simp: obc_mtime_read_def split: option.splits prod.splits)
  define u where "u = (if st = OBC_OK then ucast (the now AND 0xFFFFFFFF) else 0xFFFFFFFF :: u32)"
  define s2 where "s2 = pack (puts_before_vote_wrong n u s1) s1"
  obtain safe s3 where v: "obc_mode_is_safe s2 = (safe, s3)" by fastforce
  have "hw s3 = hw s1" using is_safe_frame(1) [of s2] v by (simp add: s2_def pack_def)
  then show ?thesis
    unfolding obc_tlm_emit_wrong_def if_not_P [OF False] m prod.case Let_def u_def [symmetric] s2_def [symmetric] v
    using w1 put_chars_other by (simp add: pack_def case_prod_beta)
qed

end
