(* ===== verification/Asserts.thy ===== *)
theory Asserts
  imports SubstituteExec
begin

text \<open>
  The compile-time assertions of a task table, \<^verbatim>\<open>core/tasks.c\<close> and its two starved copies, as
  predicates over any table, in the 32-bit unsigned arithmetic the compiler evaluates them in.
  What they buy at run time is proved of every table that passes them: over a window a task is
  due exactly as often as its period divides it, and the trace holds every dispatch.
\<close>

section \<open>The assertions\<close>

definition assert_table_fits :: "'s obc_task list \<Rightarrow> bool" where
  "assert_table_fits table \<longleftrightarrow> length table \<le> unat OBC_MAX_TASKS"

definition assert_periods :: "'s obc_task list \<Rightarrow> bool" where
  "assert_periods table \<longleftrightarrow> list_all (\<lambda>t. period_frames t > 0) table"

definition assert_budgets_fit :: "'s obc_task list \<Rightarrow> bool" where
  "assert_budgets_fit table \<longleftrightarrow> sum_list (map budget_instr table) \<le> OBC_FRAME_INSTR_CAPACITY"

definition assert_trace_holds :: "'s obc_task list \<Rightarrow> bool" where
  "assert_trace_holds table \<longleftrightarrow>
     sum_list (map (\<lambda>t. OBC_SCHED_WINDOW_FRAMES div period_frames t) table) \<le> OBC_TRACE_CAPACITY"

definition assert_some_essential :: "'s obc_task list \<Rightarrow> bool" where
  "assert_some_essential table \<longleftrightarrow> sum_list (map essential table) \<ge> 1"

definition assert_healthy_late :: "'s obc_task list \<Rightarrow> bool" where
  "assert_healthy_late table \<longleftrightarrow> list_all (\<lambda>t. period_frames t \<le> OBC_HEALTHY_FRAMES) table"

definition assert_stall_fits :: "u32 \<Rightarrow> u32 \<Rightarrow> bool" where
  "assert_stall_fits nominal_instr budget \<longleftrightarrow>
     nominal_instr + OBC_UART_TX_RETRY_TOTAL * OBC_UART_TX_POLL_INSTR \<le> budget"

definition assert_nominal_fits :: "u32 \<Rightarrow> u32 \<Rightarrow> bool" where
  "assert_nominal_fits nominal_instr budget \<longleftrightarrow> nominal_instr < budget"

definition assert_periods_divide :: "'s obc_task list \<Rightarrow> bool" where
  "assert_periods_divide table \<longleftrightarrow> list_all (\<lambda>t. OBC_SCHED_WINDOW_FRAMES mod period_frames t = 0) table"

text \<open>What each file asserts of its table; the copies predate the assertions they lack.\<close>

definition tasks_asserts :: "'s obc_task list \<Rightarrow> bool" where
  "tasks_asserts table \<longleftrightarrow>
     assert_table_fits table \<and> assert_periods table \<and> assert_budgets_fit table \<and> assert_trace_holds table \<and>
     assert_some_essential table \<and> assert_healthy_late table \<and>
     assert_stall_fits T1_NOMINAL_INSTR T1_BUDGET \<and> assert_nominal_fits T1_NOMINAL_INSTR T1_BUDGET \<and>
     assert_periods_divide table"

definition tasks_loop_asserts :: "'s obc_task list \<Rightarrow> bool" where
  "tasks_loop_asserts table \<longleftrightarrow>
     assert_table_fits table \<and> assert_periods table \<and> assert_budgets_fit table \<and> assert_trace_holds table \<and>
     assert_some_essential table \<and> assert_healthy_late table \<and> assert_periods_divide table"

definition tasks_overrun_asserts :: "'s obc_task list \<Rightarrow> bool" where
  "tasks_overrun_asserts table \<longleftrightarrow>
     assert_table_fits table \<and> assert_periods table \<and> assert_budgets_fit table \<and> assert_trace_holds table \<and>
     assert_some_essential table \<and> assert_periods_divide table"

lemmas assertions =
  assert_table_fits_def assert_periods_def assert_budgets_fit_def assert_trace_holds_def assert_some_essential_def
  assert_healthy_late_def assert_stall_fits_def assert_nominal_fits_def assert_periods_divide_def

text \<open>The three files build: a starved budget is not something the build can see.\<close>

lemma tables_build:
  "tasks_asserts obc_task_table" "tasks_loop_asserts obc_task_table_loop" "tasks_overrun_asserts obc_task_table_overrun"
  by (simp_all add: tasks_asserts_def tasks_loop_asserts_def tasks_overrun_asserts_def assertions obc_task_table_def
      obc_task_table_loop_def obc_task_table_overrun_def table_loop_consts table_overrun_consts task_consts OBC_MAX_TASKS_def OBC_FRAME_INSTR_CAPACITY_def
      OBC_MILLI_INSTR_PER_TICK_def OBC_FRAME_TICKS_def OBC_SCHED_WINDOW_FRAMES_def OBC_TRACE_CAPACITY_def
      OBC_HEALTHY_FRAMES_def OBC_UART_TX_RETRY_TOTAL_def OBC_UART_TX_POLL_INSTR_def)

section \<open>What they guarantee\<close>

text \<open>A period that divides the window is due exactly the quotient of times in it.\<close>

lemma period_cases:
  fixes p :: u32
  assumes "0 < p" and "OBC_SCHED_WINDOW_FRAMES mod p = 0"
  shows "p \<in> {1, 2, 4, 8, 16}"
proof -
  have "unat p dvd 16" and pos: "0 < unat p"
    using assms by (simp_all add: OBC_SCHED_WINDOW_FRAMES_def word_less_nat_alt word_unat_eq_iff unat_mod dvd_eq_mod_eq_0)
  then have "unat p \<le> 16" by (simp add: dvd_imp_le)
  moreover have "\<forall>q \<in> set [0..<17 :: nat]. q dvd 16 \<longrightarrow> 0 < q \<longrightarrow> q \<in> {1, 2, 4, 8, 16}" by code_simp
  ultimately have "unat p \<in> {1, 2, 4, 8, 16}" using \<open>unat p dvd 16\<close> pos by simp
  then show ?thesis by (auto simp: word_unat_eq_iff)
qed

lemma due_count:
  fixes p :: u32
  assumes "0 < p" and "OBC_SCHED_WINDOW_FRAMES mod p = 0"
  shows "length (filter (\<lambda>j. of_nat j mod p = 0) [0..<16]) = unat (OBC_SCHED_WINDOW_FRAMES div p)"
proof -
  have "\<forall>q \<in> {1, 2, 4, 8, 16 :: u32}.
      length (filter (\<lambda>j. of_nat j mod q = 0) [0..<16]) = unat (OBC_SCHED_WINDOW_FRAMES div q)" by code_simp
  then show ?thesis using period_cases [OF assms] by blast
qed

lemma count_selected:
  assumes "i < 256" and "n \<le> 256"
  shows "count_list (map (of_nat :: nat \<Rightarrow> u8) (filter P [0..<n])) (of_nat i) = (if i < n \<and> P i then 1 else 0)"
  using assms(2)
proof (induction n)
  case 0
  then show ?case by simp
next
  case (Suc n)
  have "((of_nat n :: u8) = of_nat i) = (n = i)"
    using Suc.prems assms(1) by (simp add: word_unat_eq_iff unat_of_nat take_bit_nat_eq_self)
  then show ?case using Suc by (auto simp: less_Suc_eq)
qed

lemma count_list_concat_map:
  "count_list (concat (map f xs)) x = (\<Sum>j\<leftarrow>xs. count_list (f j) x)"
  by (induction xs) simp_all

lemma sum_list_indicator: "(\<Sum>j\<leftarrow>xs. if P j then 1 else 0) = length (filter P xs)"
  by (induction xs) simp_all

text \<open>
  The point of the assertions on the periods: over the window every task is due exactly the
  quotient of times, so a test can demand an equality. The trace's own assertion then adds
  nothing: eight tasks of at most sixteen dispatches fit it.
\<close>

context task_set
begin

lemma asserted_counts:
  assumes "assert_table_fits table" and "assert_periods table" and "assert_periods_divide table" and "i < length table"
  shows "count_list (schedule (unat OBC_SCHED_WINDOW_FRAMES) 0) (of_nat i) =
    unat (OBC_SCHED_WINDOW_FRAMES div period_frames (table ! i))"
proof -
  let ?p = "period_frames (table ! i)"
  have n: "i < 256" "length table \<le> 256" using assms(1,4) by (simp_all add: assert_table_fits_def OBC_MAX_TASKS_def)
  have p: "0 < ?p" "OBC_SCHED_WINDOW_FRAMES mod ?p = 0"
    using assms(2-4) by (simp_all add: assert_periods_def assert_periods_divide_def list_all_length)
  have "count_list (schedule 16 0) (of_nat i) = (\<Sum>j\<leftarrow>[0..<16]. if task_due table (of_nat j) i then 1 else 0)"
    using assms(4) by (simp add: schedule_def count_list_concat_map expected_def count_selected [OF n] del: upt_rec_numeral)
  also have "\<dots> = length (filter (\<lambda>j. of_nat j mod ?p = 0) [0..<16])"
    using p(1) by (simp add: sum_list_indicator task_due_def word_gt_0 del: upt_rec_numeral)
  also have "\<dots> = unat (OBC_SCHED_WINDOW_FRAMES div ?p)" by (rule due_count [OF p])
  finally show ?thesis by (simp add: OBC_SCHED_WINDOW_FRAMES_def)
qed

lemma asserted_total:
  assumes "assert_table_fits table" and "assert_periods table" and "assert_periods_divide table"
  shows "length (schedule (unat OBC_SCHED_WINDOW_FRAMES) 0) = (\<Sum>t\<leftarrow>table. unat (OBC_SCHED_WINDOW_FRAMES div period_frames t))"
    "length (schedule (unat OBC_SCHED_WINDOW_FRAMES) 0) \<le> 128"
proof -
  let ?xs = "schedule (unat OBC_SCHED_WINDOW_FRAMES) 0" and ?n = "length table"
  let ?q = "\<lambda>i. unat (OBC_SCHED_WINDOW_FRAMES div period_frames (table ! i))"
  have n: "?n \<le> 8" using assms(1) by (simp add: assert_table_fits_def OBC_MAX_TASKS_def)
  have inj: "inj_on (of_nat :: nat \<Rightarrow> u8) {..<?n}"
    using n by (auto simp: inj_on_def word_unat_eq_iff unat_of_nat take_bit_nat_eq_self)
  have "set ?xs \<subseteq> of_nat ` {..<?n}" by (auto simp: schedule_def expected_def)
  then have "length ?xs = sum (count_list ?xs) (of_nat ` {..<?n})" by (simp add: sum_count_set)
  also have "\<dots> = (\<Sum>i<?n. ?q i)"
    using asserted_counts [OF assms] by (simp add: sum.reindex [OF inj])
  finally have total: "length ?xs = (\<Sum>i<?n. ?q i)" .
  then show "length ?xs = (\<Sum>t\<leftarrow>table. unat (OBC_SCHED_WINDOW_FRAMES div period_frames t))"
    by (simp add: sum_list_sum_nth atLeast0LessThan)
  have "?q i \<le> 16" for i
    by (simp add: OBC_SCHED_WINDOW_FRAMES_def unat_div)
  then have "(\<Sum>i<?n. ?q i) \<le> of_nat (card {..<?n}) * 16" by (intro sum_bounded_above)
  then show "length ?xs \<le> 128" using n unfolding total by simp
qed

end

lemma flight_window_counts:
  assumes "i < length (obc_task_table :: tasks_state obc_task list)"
  shows "count_list (flight.schedule 16 0) (of_nat i) = unat (16 div period_frames ((obc_task_table :: tasks_state obc_task list) ! i))"
  using flight.asserted_counts [OF _ _ _ assms] tables_build(1) [where 'a = unit] by (simp add: tasks_asserts_def OBC_SCHED_WINDOW_FRAMES_def)

text \<open>
  What they do not guarantee. The sum of the budgets is taken in 32 bits: a table of two tasks
  with budgets of two to the thirty-one passes every assertion of the file. The flight table's
  own sum does not wrap (\<open>static_budgets\<close>).
\<close>

lemma budgets_may_wrap:
  assumes "t = \<lparr>task_name = ''any'', task_fn = f, period_frames = 1, budget_instr = 0x80000000, essential = 1, reset_fn = g\<rparr>"
  shows "tasks_asserts [t, t] \<and> (\<Sum>t\<leftarrow>[t, t]. unat (budget_instr t)) > unat OBC_FRAME_INSTR_CAPACITY"
proof -
  have cap: "OBC_FRAME_INSTR_CAPACITY = 487424"
    by (simp add: OBC_FRAME_INSTR_CAPACITY_def OBC_MILLI_INSTR_PER_TICK_def OBC_FRAME_TICKS_def)
  have "sum_list (map budget_instr [t, t]) = 0" by (simp add: assms)
  then have "assert_budgets_fit [t, t]" by (simp only: assert_budgets_fit_def) simp
  moreover have "assert_table_fits [t, t]" "assert_periods [t, t]" "assert_trace_holds [t, t]" "assert_some_essential [t, t]"
    "assert_healthy_late [t, t]" "assert_periods_divide [t, t]"
    by (simp_all add: assms assertions OBC_MAX_TASKS_def OBC_SCHED_WINDOW_FRAMES_def OBC_TRACE_CAPACITY_def OBC_HEALTHY_FRAMES_def)
  moreover have "assert_stall_fits T1_NOMINAL_INSTR T1_BUDGET" "assert_nominal_fits T1_NOMINAL_INSTR T1_BUDGET"
    using tables_build(1) [where 'a = unit] by (simp_all add: tasks_asserts_def)
  moreover have "(\<Sum>t\<leftarrow>[t, t]. unat (budget_instr t)) > unat OBC_FRAME_INSTR_CAPACITY"
    unfolding cap by (simp add: assms)
  ultimately show ?thesis unfolding tasks_asserts_def by blast
qed

end
