(* ===== verification/Service.thy ===== *)
theory Service
  imports CmdFrame
begin

text \<open>
  What the command path promises, as a machine on its own: a service that holds at most four
  commands and knows the counter of the last one it took. It takes a command only with a
  greater counter and only with room, runs the oldest due command first, and is idle at a
  time only when nothing it holds is due. \<open>service_run\<close> is everything that happens to the command
  path between two initialisations, with the history of what it took and ran beside it; the
  code implements the service (\<open>run_simulates\<close>), so what holds of the histories of the service
  holds of it.
\<close>

section \<open>The service\<close>

record service =
  sv_last :: u32
  sv_held :: "entry multiset"

datatype service_event =
    Accept entry
  | Run u32 entry          \<comment> \<open>time, command\<close>
  | Idle u32               \<comment> \<open>nothing due at this time\<close>
  | Drop "entry multiset"  \<comment> \<open>what a reset of the command subsystem forgets\<close>

fun tag :: "entry \<Rightarrow> u32" where "tag (op, when, arg, counter) = when"
fun counter :: "entry \<Rightarrow> u32" where "counter (op, when, arg, c) = c"

fun service_step :: "service_event \<Rightarrow> service \<Rightarrow> service option" where
  "service_step (Accept e) v =
     (if sv_last v < counter e \<and> size (sv_held v) < OBC_CMD_QUEUE_LEN
      then Some \<lparr>sv_last = counter e, sv_held = add_mset e (sv_held v)\<rparr> else None)"
| "service_step (Run now e) v =
     (if e \<in># sv_held v \<and> tag e \<le> now \<and> (\<forall>e' \<in># sv_held v. tag e \<le> tag e')
      then Some (v\<lparr>sv_held := sv_held v - {#e#}\<rparr>) else None)"
| "service_step (Idle now) v = (if \<forall>e \<in># sv_held v. now < tag e then Some v else None)"
| "service_step (Drop es) v = (if es = sv_held v then Some (v\<lparr>sv_held := {#}\<rparr>) else None)"

fun service_steps :: "service_event list \<Rightarrow> service \<Rightarrow> service option" where
  "service_steps [] v = Some v"
| "service_steps (ev # evs) v = (case service_step ev v of None \<Rightarrow> None | Some v' \<Rightarrow> service_steps evs v')"

lemma service_steps_append:
  "service_steps (evs @ evs') v = (case service_steps evs v of None \<Rightarrow> None | Some v' \<Rightarrow> service_steps evs' v')"
  by (induction evs arbitrary: v) (auto split: option.splits)

lemma service_steps_then:
  "service_steps evs v = Some v' \<Longrightarrow> service_steps evs' v' = Some v'' \<Longrightarrow> service_steps (evs @ evs') v = Some v''"
  by (simp add: service_steps_append)

section \<open>What a history of the service looks like\<close>

fun accepts :: "service_event list \<Rightarrow> entry list" where
  "accepts [] = []"
| "accepts (Accept e # evs) = e # accepts evs"
| "accepts (_ # evs) = accepts evs"

fun runs :: "service_event list \<Rightarrow> entry list" where
  "runs [] = []"
| "runs (Run now e # evs) = e # runs evs"
| "runs (_ # evs) = runs evs"

fun drops :: "service_event list \<Rightarrow> entry multiset" where
  "drops [] = {#}"
| "drops (Drop es # evs) = es + drops evs"
| "drops (_ # evs) = drops evs"

lemma history_append [simp]:
  "accepts (evs @ evs') = accepts evs @ accepts evs'" "runs (evs @ evs') = runs evs @ runs evs'"
  "drops (evs @ evs') = drops evs + drops evs'"
  by (induction evs rule: accepts.induct) simp_all

lemma service_step_ledger:
  assumes "service_step ev v = Some v'"
  shows "sv_held v + mset (accepts [ev]) = mset (runs [ev]) + drops [ev] + sv_held v'"
  using assms by (cases ev) (auto split: if_splits)

text \<open>Every command ever held or taken was run once, was dropped once, or is still held.\<close>

lemma service_ledger:
  assumes "service_steps evs v = Some v'"
  shows "sv_held v + mset (accepts evs) = mset (runs evs) + drops evs + sv_held v'"
  using assms
proof (induction evs arbitrary: v)
  case Nil
  then show ?case by simp
next
  case (Cons ev evs)
  then obtain w where w: "service_step ev v = Some w" "service_steps evs w = Some v'"
    by (auto split: option.splits)
  have "accepts (ev # evs) = accepts [ev] @ accepts evs" "runs (ev # evs) = runs [ev] @ runs evs"
    "drops (ev # evs) = drops [ev] + drops evs"
    using history_append [of "[ev]" evs] by simp_all
  then have "sv_held v + mset (accepts (ev # evs)) = (sv_held v + mset (accepts [ev])) + mset (accepts evs)"
    by simp
  also have "\<dots> = mset (runs [ev]) + drops [ev] + (sv_held w + mset (accepts evs))"
    unfolding service_step_ledger [OF w(1)] by (simp add: ac_simps)
  also have "\<dots> = mset (runs (ev # evs)) + drops (ev # evs) + sv_held v'"
    unfolding Cons.IH [OF w(2)] using history_append [of "[ev]" evs] by (simp add: ac_simps)
  finally show ?case .
qed

text \<open>Counters only grow, so no two commands taken are the same.\<close>

lemma service_counters:
  assumes "service_steps evs v = Some v'"
  shows "sorted_wrt (<) (sv_last v # map counter (accepts evs)) \<and> sv_last v \<le> sv_last v' \<and>
    (\<forall>e \<in> set (accepts evs). counter e \<le> sv_last v')"
  using assms
proof (induction evs arbitrary: v)
  case Nil
  then show ?case by simp
next
  case (Cons ev evs)
  then obtain w where w: "service_step ev v = Some w" "service_steps evs w = Some v'"
    by (auto split: option.splits)
  note ih = Cons.IH [OF w(2)]
  show ?case
  proof (cases ev)
    case (Accept e)
    then have "sv_last w = counter e" "sv_last v < counter e" using w(1) by (auto split: if_splits)
    then show ?thesis using ih Accept by (auto intro: less_trans)
  qed (use w(1) ih in \<open>auto split: if_splits\<close>)
qed

lemma distinct_accepts:
  assumes "service_steps evs v = Some v'"
  shows "distinct (accepts evs)"
proof -
  have "sorted_wrt (<) (map counter (accepts evs))" using service_counters [OF assms] by simp
  then have "distinct (map counter (accepts evs))" by (simp add: strict_sorted_iff)
  then show ?thesis by (simp add: distinct_map)
qed

lemma count_distinct: "distinct xs \<Longrightarrow> count (mset xs) x \<le> 1"
  by (simp only: distinct_count_atmost_1) (metis le_refl zero_le_one)

text \<open>
  From an empty service: a run is of a command taken before it, due, and not run or dropped
  before it.
\<close>

lemma service_run_once:
  assumes "service_steps evs v = Some v'" and "sv_held v = {#}"
  shows "distinct (runs evs)" "set (runs evs) \<inter> set_mset (drops evs) = {}"
    "evs = before @ Run now e # after \<Longrightarrow>
       e \<in> set (accepts before) \<and> tag e \<le> now \<and> e \<notin> set (runs before) \<and> e \<notin># drops before"
proof -
  have eq: "mset (accepts evs) = mset (runs evs) + drops evs + sv_held v'"
    using service_ledger [OF assms(1)] assms(2) by simp
  have one: "count (mset (accepts evs)) x \<le> 1" for x by (rule count_distinct [OF distinct_accepts [OF assms(1)]])
  have le: "count (mset (runs evs)) x + count (drops evs) x \<le> 1" for x
    using one [of x] unfolding eq by simp
  have "count (mset (runs evs)) x = (if x \<in> set (runs evs) then 1 else 0)" for x
  proof (cases "x \<in> set (runs evs)")
    case True
    then have "0 < count (mset (runs evs)) x" by simp
    then have "count (mset (runs evs)) x = 1" using le [of x] by linarith
    then show ?thesis using True by (simp only: if_True)
  qed (simp add: count_eq_zero_iff)
  then show "distinct (runs evs)" by (simp only: distinct_count_atmost_1) blast
  show "set (runs evs) \<inter> set_mset (drops evs) = {}"
  proof (rule ccontr)
    assume "set (runs evs) \<inter> set_mset (drops evs) \<noteq> {}"
    then obtain x where "x \<in># mset (runs evs)" "x \<in># drops evs" by auto
    then have "0 < count (mset (runs evs)) x" "0 < count (drops evs) x" by simp_all
    then show False using le [of x] by linarith
  qed
  assume e: "evs = before @ Run now e # after"
  then obtain w w' where w: "service_steps before v = Some w" "service_step (Run now e) w = Some w'"
    using assms(1) by (auto simp: service_steps_append split: option.splits)
  then have h: "e \<in># sv_held w" "tag e \<le> now" by (auto split: if_splits)
  have eq: "mset (accepts before) = mset (runs before) + drops before + sv_held w"
    using service_ledger [OF w(1)] assms(2) by simp
  have "count (mset (accepts before)) e \<le> 1"
    by (rule count_distinct [OF distinct_accepts [OF w(1)]])
  moreover have "1 \<le> count (sv_held w) e" using h(1) by (simp add: Suc_le_eq)
  ultimately have "count (mset (runs before)) e = 0" "count (drops before) e = 0" "0 < count (mset (accepts before)) e"
    unfolding eq count_union by linarith+
  then show "e \<in> set (accepts before) \<and> tag e \<le> now \<and> e \<notin> set (runs before) \<and> e \<notin># drops before"
    using h(2) by (simp only: count_eq_zero_iff count_greater_zero_iff set_mset_mset) blast
qed

section \<open>The command path implements it\<close>

text \<open>What a frame carries, what a poll takes and what a run executes, as histories of the code.\<close>

definition frame_entry :: "u8 list \<Rightarrow> entry" where
  "frame_entry frame = (ucast (get_u8 frame OBC_CMD_O_OPCODE), get_u32 frame OBC_CMD_O_WHEN,
     get_u32 frame OBC_CMD_O_ARG, get_u32 frame OBC_CMD_O_COUNTER)"

definition took :: "obc_status \<Rightarrow> u8 list ptr \<Rightarrow> entry list" where
  "took st fp = (case fp of Some frame \<Rightarrow> if st = OBC_OK then [frame_entry frame] else [] | None \<Rightarrow> [])"

fun poll_log :: "nat \<Rightarrow> 'a cmd_state_scheme \<Rightarrow> entry list" where
  "poll_log 0 s = []"
| "poll_log (Suc budget) s =
     (case obc_uart_uplink_getc (Some 0) (hw s) of
        (st, byte, h) \<Rightarrow>
          if st \<noteq> OBC_OK then []
          else (let s1 = s\<lparr>hw := h, s_rx := (s_rx s)[s_fill s := the byte], s_fill := s_fill s + 1\<rparr>
                in if s_fill s1 = OBC_CMD_FRAME_LEN
                   then (case obc_cmd_ingest obc_cmd_table (Some (s_rx s1)) OBC_CMD_FRAME_LEN None s1 of
                           (st', _, s2) \<Rightarrow> took st' (Some (s_rx s1)) @ poll_log budget (s2\<lparr>s_fill := 0\<rparr>))
                   else poll_log budget s1))"

definition cmd_poll_log :: "'a cmd_state_scheme \<Rightarrow> entry list" where
  "cmd_poll_log s = (if s_table_ok s = 0 then [] else poll_log OBC_CMD_RX_BYTES s)"

fun passes_log :: "nat \<Rightarrow> u32 \<Rightarrow> u32 \<Rightarrow> queue_st \<Rightarrow> entry list" where
  "passes_log 0 now frame q = []"
| "passes_log (Suc n) now frame q =
     (let oldest = oldest_due now q; sl = obc_cmd_queue q ! oldest
      in if oldest = OBC_CMD_QUEUE_LEN then []
         else (if lookup obc_cmd_table (sl_opcode sl) = None then [] else [entry_of sl]) @
              passes_log n now frame (run_slot obc_cmd_table now frame sl (take_slot oldest q)))"

definition queue_run_log :: "u32 \<Rightarrow> u32 \<Rightarrow> queue_st \<Rightarrow> entry list" where
  "queue_run_log now frame q = passes_log OBC_CMD_QUEUE_LEN now frame (expire_arm frame q)"

text \<open>The part of the state the service is about.\<close>

definition cmd_side :: "'a cmd_state_scheme \<Rightarrow> queue_st \<times> u32 \<times> u32" where
  "cmd_side s = (cmd_q s, s_last_counter s, s_table_ok s)"

definition service_of :: "'a cmd_state_scheme \<Rightarrow> service" where
  "service_of s = \<lparr>sv_last = s_last_counter s, sv_held = pending (cmd_q s)\<rparr>"

definition serviceable :: "'a cmd_state_scheme \<Rightarrow> bool" where
  "serviceable s \<longleftrightarrow> wf_queue (cmd_q s) \<and> (\<forall>e \<in># pending (cmd_q s). lookup obc_cmd_table (fst e) \<noteq> None)"

lemma service_cong:
  assumes "cmd_side s' = cmd_side s"
  shows "service_of s' = service_of s" "serviceable s' = serviceable s"
  using assms by (simp_all add: cmd_side_def service_of_def serviceable_def)

text \<open>An ingest.\<close>

lemma ingest_serves:
  assumes "obc_cmd_ingest obc_cmd_table fp len reason s = (st, reason', s')" and "serviceable s"
  shows "serviceable s'" "service_steps (map Accept (took st fp)) (service_of s) = Some (service_of s')"
proof -
  have "serviceable s' \<and> service_steps (map Accept (took st fp)) (service_of s) = Some (service_of s')"
  proof (cases "s_table_ok s = 0 \<or> fp = None")
    case True
    then show ?thesis using assms by (auto simp: ingest_off took_def split: option.splits)
  next
    case False
    then obtain frame where f: "fp = Some frame" and ok: "s_table_ok s \<noteq> 0" by auto
    show ?thesis
    proof (cases "st = OBC_OK")
      case True
      then have a: "obc_cmd_ingest obc_cmd_table (Some frame) len reason s = (OBC_OK, reason', s')"
        using assms(1) f by simp
      have v: "\<exists>cmd. lookup obc_cmd_table (fst (frame_entry frame)) = Some cmd"
        "s_last_counter s < counter (frame_entry frame)" "size (pending (cmd_q s)) < OBC_CMD_QUEUE_LEN"
        using ingest_accepted(2) [OF a] unfolding verdict_accepts by (auto simp: frame_entry_def)
      have wf: "wf_queue (cmd_q s)" using assms(2) by (simp add: serviceable_def)
      obtain q where q: "put_entry (frame_entry frame) (cmd_q s) = (OBC_OK, q)" "wf_queue q"
        "pending q = add_mset (frame_entry frame) (pending (cmd_q s))"
        using cmdq.accepts [OF wf v(3)] by blast
      then have "cmd_q s' = q" "s_last_counter s' = counter (frame_entry frame)"
        using ingest_accepted(3) [OF a] by (simp_all add: accept_frame_def put_entry_def frame_entry_def)
      then show ?thesis
        using v q(2,3) assms(2) True f by (simp add: serviceable_def service_of_def took_def)
    next
      case False
      note r = ingest_refused(2) [OF assms(1) [unfolded f] False ok]
      have "cmd_side s' = cmd_side s"
        using same_but_counters_sel [OF refuse_effect(3) [OF r]] by (simp add: cmd_side_def)
      then show ?thesis using service_cong [of s' s] assms(2) False f by (simp add: took_def)
    qed
  qed
  then show "serviceable s'" "service_steps (map Accept (took st fp)) (service_of s) = Some (service_of s')"
    by blast+
qed

text \<open>A poll.\<close>

lemma poll_loop_serves:
  assumes "serviceable s" and "poll_loop budget obc_cmd_table taken s = (taken', s')"
  shows "serviceable s' \<and> service_steps (map Accept (poll_log budget s)) (service_of s) = Some (service_of s')"
  using assms
proof (induction budget arbitrary: taken s)
  case 0
  then show ?case by simp
next
  case (Suc budget)
  have c: "service_of (collected b h s) = service_of s" "serviceable (collected b h s)" for b h
    using service_cong [of "collected b h s" s] Suc.prems(1) by (simp_all add: cmd_side_def)
  note log = poll_log.simps(2) [of budget s, unfolded Let_def collected_def [symmetric]]
  show ?case
  proof (cases rule: poll_loop_turn [of s budget obc_cmd_table taken])
    case (empty st byte h)
    have "cmd_side (s\<lparr>hw := h\<rparr>) = cmd_side s" by (simp add: cmd_side_def)
    from service_cong [OF this] show ?thesis using empty Suc.prems log by simp
  next
    case (byte byte h)
    have "poll_log (Suc budget) s = poll_log budget (collected byte h s)" using byte log by simp
    then show ?thesis using Suc.IH [OF c(2)] byte(3) Suc.prems(2) c(1) by simp
  next
    case (frame byte h st reason s2)
    let ?s2 = "s2\<lparr>s_fill := 0\<rparr>"
    have l: "poll_log (Suc budget) s = took st (Some (s_rx (collected byte h s))) @ poll_log budget ?s2"
      using frame log by simp
    note i = ingest_serves [OF frame(3) c(2)]
    have "cmd_side ?s2 = cmd_side s2" by (simp add: cmd_side_def)
    note c2 = service_cong [OF this]
    show ?thesis
      unfolding l map_append using Suc.IH [of ?s2] frame(4) Suc.prems(2) i c2 c(1)
      by (auto intro: service_steps_then)
  qed
qed

lemma poll_serves:
  assumes "serviceable s"
  shows "serviceable (obc_cmd_poll obc_cmd_table s)"
    "service_steps (map Accept (cmd_poll_log s)) (service_of s) = Some (service_of (obc_cmd_poll obc_cmd_table s))"
proof -
  obtain k s1 where p: "poll_loop OBC_CMD_RX_BYTES obc_cmd_table 0 s = (k, s1)" by fastforce
  note l = poll_loop_serves [OF assms p]
  have "cmd_side (snd (snd (refuse r None (s1\<lparr>s_fill := 0, obc_cmd_examined := v\<rparr>)))) = cmd_side s1" for r v
    using same_but_counters_sel [OF refuse_effect(3) [of r None "s1\<lparr>s_fill := 0, obc_cmd_examined := v\<rparr>"]]
    by (cases "refuse r None (s1\<lparr>s_fill := 0, obc_cmd_examined := v\<rparr>)") (simp add: cmd_side_def)
  note c = service_cong [OF this]
  show "serviceable (obc_cmd_poll obc_cmd_table s)"
    "service_steps (map Accept (cmd_poll_log s)) (service_of s) = Some (service_of (obc_cmd_poll obc_cmd_table s))"
    using l assms p c by (auto simp: obc_cmd_poll_def cmd_poll_log_def)
qed

text \<open>A run of the queue.\<close>

lemma pending_take_slot:
  assumes "wf_queue q" and "i \<in> set (held q)"
  shows "pending q = add_mset (entry_of (obc_cmd_queue q ! i)) (pending (take_slot i q))"
proof -
  have len: "length (obc_cmd_queue q) = OBC_CMD_QUEUE_LEN" using assms(1) by (simp add: wf_queue_def)
  note t = take_slot_held [OF len assms(2)]
  have "pending (take_slot i q) = {#entry_of (obc_cmd_queue q ! j). j \<in># mset_set (set (held q) - {i})#}"
    unfolding pending_alt t(1) using t(2) by (auto intro!: image_mset_cong)
  moreover have "mset_set (set (held q)) = add_mset i (mset_set (set (held q) - {i}))"
    using assms(2) by (simp add: mset_set.remove)
  ultimately show ?thesis unfolding pending_alt [of q] by simp
qed

lemma pending_nth: "e \<in># pending q \<longleftrightarrow> (\<exists>i \<in> set (held q). e = entry_of (obc_cmd_queue q ! i))"
  by (auto simp: pending_def)

definition with_rows :: "queue_st \<Rightarrow> bool" where
  "with_rows q \<longleftrightarrow> wf_queue q \<and> (\<forall>e \<in># pending q. lookup obc_cmd_table (fst e) \<noteq> None)"

lemma with_rows_cong:
  "obc_cmd_queue q' = obc_cmd_queue q \<Longrightarrow> obc_cmd_queued q' = obc_cmd_queued q \<Longrightarrow>
   with_rows q' = with_rows q \<and> pending q' = pending q"
  using held_cong [of q' q] by (simp add: with_rows_def wf_queue_def pending_def)

text \<open>One pass that finds something.\<close>

lemma pass_serves:
  fixes frame :: u32
  assumes "with_rows q" and "oldest_due now q \<noteq> OBC_CMD_QUEUE_LEN"
  defines "sl \<equiv> obc_cmd_queue q ! oldest_due now q"
    and "q' \<equiv> run_slot obc_cmd_table now frame (obc_cmd_queue q ! oldest_due now q) (take_slot (oldest_due now q) q)"
  shows "with_rows q'" "lookup obc_cmd_table (sl_opcode sl) \<noteq> None"
    "service_step (Run now (entry_of sl)) \<lparr>sv_last = c, sv_held = pending q\<rparr> =
       Some \<lparr>sv_last = c, sv_held = pending q'\<rparr>"
    "due now q' = due now q - {oldest_due now q}" "oldest_due now q \<in> due now q"
proof -
  let ?i = "oldest_due now q"
  have wf: "wf_queue q" using assms(1) by (simp add: with_rows_def)
  then have len: "length (obc_cmd_queue q) = OBC_CMD_QUEUE_LEN" by (simp add: wf_queue_def)
  have i: "?i \<in> due now q" and least: "\<forall>j \<in> due now q. sl_when sl \<le> sl_when (obc_cmd_queue q ! j)"
    using oldest_due_cases [of now q] assms(2) by (auto simp: sl_def)
  then have h: "?i \<in> set (held q)" and now: "sl_when sl \<le> now" by (simp_all add: due_def sl_def)
  have q': "obc_cmd_queue q' = obc_cmd_queue (take_slot ?i q)" "obc_cmd_queued q' = obc_cmd_queued (take_slot ?i q)"
    unfolding q'_def by (rule run_slot_queue [OF flight_table_leaves_queue])+
  note cong = with_rows_cong [OF q']
  have p: "pending q = add_mset (entry_of sl) (pending q')"
    using pending_take_slot [OF wf h] cong by (simp add: sl_def)
  then have sub: "set_mset (pending (take_slot ?i q)) \<subseteq> set_mset (pending q)" using cong by auto
  show "with_rows q'"
    using cong take_slot_wf [OF wf h] assms(1) sub by (auto simp: with_rows_def)
  have "entry_of sl \<in># pending q" unfolding p by simp
  then show "lookup obc_cmd_table (sl_opcode sl) \<noteq> None"
    using assms(1) by (auto simp: with_rows_def entry_of_def)
  have "sl_when sl \<le> sl_when (obc_cmd_queue q ! j)" if "j \<in> set (held q)" for j
    using least that now by (cases "sl_when (obc_cmd_queue q ! j) \<le> now") (auto simp: due_def)
  then have "\<forall>e \<in># pending q. tag (entry_of sl) \<le> tag e"
    unfolding pending_nth Ball_def by (auto simp: entry_of_def)
  then show "service_step (Run now (entry_of sl)) \<lparr>sv_last = c, sv_held = pending q\<rparr> =
       Some \<lparr>sv_last = c, sv_held = pending q'\<rparr>"
    using now \<open>entry_of sl \<in># pending q\<close> p by (simp add: entry_of_def)
  show "due now q' = due now q - {?i}" by (rule due_take_slot [OF len q'(1)])
  show "?i \<in> due now q" by (rule i)
qed

lemma passes_serve:
  assumes "with_rows q"
  shows "with_rows (run_passes n obc_cmd_table now frame q) \<and>
    service_steps (map (Run now) (passes_log n now frame q)) \<lparr>sv_last = c, sv_held = pending q\<rparr> =
      Some \<lparr>sv_last = c, sv_held = pending (run_passes n obc_cmd_table now frame q)\<rparr> \<and>
    (card (due now q) \<le> n \<longrightarrow> due now (run_passes n obc_cmd_table now frame q) = {})"
  using assms
proof (induction n arbitrary: q)
  case 0
  then show ?case by simp
next
  case (Suc n)
  show ?case
  proof (cases "oldest_due now q = OBC_CMD_QUEUE_LEN")
    case True
    then have "due now q = {}" using oldest_due_cases [of now q] by (auto simp: due_def set_held)
    then show ?thesis using True Suc.prems by simp
  next
    case False
    let ?q = "run_slot obc_cmd_table now frame (obc_cmd_queue q ! oldest_due now q) (take_slot (oldest_due now q) q)"
    note s = pass_serves(1) [OF Suc.prems False, of frame] pass_serves(2) [OF Suc.prems False]
      pass_serves(3) [OF Suc.prems False, of c frame] pass_serves(4) [OF Suc.prems False, of frame]
      pass_serves(5) [OF Suc.prems False]
    have l: "passes_log (Suc n) now frame q = entry_of (obc_cmd_queue q ! oldest_due now q) # passes_log n now frame ?q"
      and r: "run_passes (Suc n) obc_cmd_table now frame q = run_passes n obc_cmd_table now frame ?q"
      using False s(2) by (simp_all add: Let_def)
    have "card (due now q) \<le> Suc n \<longrightarrow> card (due now ?q) \<le> n" unfolding s(4) using s(5) by (simp; arith)
    then show ?thesis unfolding l r list.map service_steps.simps s(3) option.case using Suc.IH [OF s(1)] by blast
  qed
qed

lemma queue_run_serves:
  fixes s :: "'a cmd_state_scheme" and now frame :: u32
  assumes "serviceable s"
  defines "s' \<equiv> s\<lparr>cmd_q := obc_cmd_queue_run obc_cmd_table now frame (cmd_q s)\<rparr>"
  shows "serviceable s'"
    "service_steps (map (Run now) (queue_run_log now frame (cmd_q s)) @ [Idle now]) (service_of s) = Some (service_of s')"
proof -
  let ?q = "expire_arm frame (cmd_q s)"
  have cong: "with_rows ?q = with_rows (cmd_q s) \<and> pending ?q = pending (cmd_q s)"
    by (rule with_rows_cong) simp_all
  have rows: "with_rows ?q" using assms(1) cong by (simp add: serviceable_def with_rows_def)
  have "due now ?q \<subseteq> {..<OBC_CMD_QUEUE_LEN}" by (auto simp: due_def set_held)
  then have "card (due now ?q) \<le> OBC_CMD_QUEUE_LEN" using card_mono [of "{..<OBC_CMD_QUEUE_LEN}"] by fastforce
  with passes_serve [OF rows, of OBC_CMD_QUEUE_LEN now frame "s_last_counter s"]
  have p: "with_rows (cmd_q s')"
    "service_steps (map (Run now) (queue_run_log now frame (cmd_q s))) (service_of s) = Some (service_of s')"
    "due now (cmd_q s') = {}"
    using cong by (simp_all add: s'_def obc_cmd_queue_run_def queue_run_log_def service_of_def)
  show "serviceable s'" using p(1) by (simp add: serviceable_def with_rows_def)
  have "\<forall>e \<in># pending (cmd_q s'). now < tag e"
    using p(3) unfolding pending_nth Ball_def by (auto simp: due_def entry_of_def not_le)
  then have "service_steps [Idle now] (service_of s') = Some (service_of s')" by (simp add: service_of_def)
  with p(2) show "service_steps (map (Run now) (queue_run_log now frame (cmd_q s)) @ [Idle now]) (service_of s) =
      Some (service_of s')" by (rule service_steps_then)
qed

text \<open>A reset of the subsystem.\<close>

lemma queue_init_empty:
  assumes "length (obc_cmd_queue q) = OBC_CMD_QUEUE_LEN"
  shows "wf_queue (obc_cmd_queue_init q)" "pending (obc_cmd_queue_init q) = {#}"
proof -
  have h: "held (obc_cmd_queue_init q) = []"
    using assms by (auto simp: obc_cmd_queue_init_def held_def empty_slot_def filter_empty_conv)
  show "wf_queue (obc_cmd_queue_init q)" "pending (obc_cmd_queue_init q) = {#}"
    using assms h by (simp_all add: wf_queue_def pending_def) (simp_all add: obc_cmd_queue_init_def)
qed

section \<open>Everything that happens to the command path\<close>

text \<open>
  Between two initialisations: ingests, polls, runs and subsystem resets, in any order and any
  number, and anything that leaves the queue, the replay counter and the table flag alone.
\<close>

inductive service_run ::
  "'a cmd_state_scheme \<Rightarrow> service_event list \<Rightarrow> 'a cmd_state_scheme \<Rightarrow> bool" for s0 where
  begins: "service_run s0 [] s0"
| ingests: "service_run s0 evs s \<Longrightarrow> obc_cmd_ingest obc_cmd_table fp len reason s = (st, reason', s') \<Longrightarrow>
    service_run s0 (evs @ map Accept (took st fp)) s'"
| polls: "service_run s0 evs s \<Longrightarrow>
    service_run s0 (evs @ map Accept (cmd_poll_log s)) (obc_cmd_poll obc_cmd_table s)"
| executes: "service_run s0 evs s \<Longrightarrow>
    service_run s0 (evs @ map (Run now) (queue_run_log now frame (cmd_q s)) @ [Idle now])
      (s\<lparr>cmd_q := obc_cmd_queue_run obc_cmd_table now frame (cmd_q s)\<rparr>)"
| forgets: "service_run s0 evs s \<Longrightarrow>
    service_run s0 (evs @ [Drop (pending (cmd_q s))]) (s\<lparr>cmd_q := obc_cmd_queue_init (cmd_q s)\<rparr>)"
| other: "service_run s0 evs s \<Longrightarrow> cmd_side s' = cmd_side s \<Longrightarrow> service_run s0 evs s'"

lemma run_simulates:
  assumes "service_run s0 evs s" and "serviceable s0"
  shows "serviceable s \<and> service_steps evs (service_of s0) = Some (service_of s)"
  using assms
proof (induction rule: service_run.induct)
  case begins
  then show ?case by simp
next
  case (ingests evs s fp len reason st reason' s')
  then show ?case
    using ingest_serves [OF ingests.hyps(2)] service_steps_then by blast
next
  case (polls evs s)
  then show ?case using poll_serves [of s] service_steps_then by blast
next
  case (executes evs s now frame)
  then show ?case using queue_run_serves [of s] service_steps_then by blast
next
  case (forgets evs s)
  then have "length (obc_cmd_queue (cmd_q s)) = OBC_CMD_QUEUE_LEN" by (simp add: serviceable_def wf_queue_def)
  note e = queue_init_empty [OF this]
  have "service_steps [Drop (pending (cmd_q s))] (service_of s) =
      Some (service_of (s\<lparr>cmd_q := obc_cmd_queue_init (cmd_q s)\<rparr>))"
    using e by (simp add: service_of_def)
  then show ?case using forgets e by (auto simp: serviceable_def intro: service_steps_then)
next
  case (other evs s s')
  then show ?case using service_cong [of s' s] by simp
qed

lemma service_run_trans:
  assumes "service_run t evs' u" and "service_run s evs t"
  shows "service_run s (evs @ evs') u"
  using assms
proof (induction rule: service_run.induct)
  case (ingests evs' s1 fp len reason st reason' s')
  then show ?case using service_run.ingests [of s "evs @ evs'" s1] by simp
next
  case (polls evs' s1)
  then show ?case using service_run.polls [of s "evs @ evs'" s1] by simp
next
  case (executes evs' s1 now frame)
  then show ?case using service_run.executes [of s "evs @ evs'" s1 now frame] by simp
next
  case (forgets evs' s1)
  then show ?case using service_run.forgets [of s "evs @ evs'" s1] by simp
qed (auto intro: service_run.other)

lemma init_serviceable:
  assumes "obc_cmd_init layout table s0 = (OBC_OK, s1)" and "length (obc_cmd_queue (cmd_q s0)) = OBC_CMD_QUEUE_LEN"
  shows "serviceable s1" "service_of s1 = \<lparr>sv_last = 0, sv_held = {#}\<rparr>"
  using assms queue_init_empty [OF assms(2)]
  by (auto simp: obc_cmd_init_def serviceable_def service_of_def split: if_splits)

section \<open>Properties\<close>

text \<open>
  C12: the command path is the service. From an initialised command path, through any ingests,
  polls of any uplink, queue runs at any times and subsystem resets, with anything between
  them that leaves the path's own variables alone, the history of what the code took and ran is
  one the service allows, step by step, and ends where the code is: a command is taken only
  with a greater counter and with room, the oldest due command is always the next to run,
  after a run nothing due is held, and only a subsystem reset forgets.
\<close>

theorem command_path_is_a_service:
  assumes "obc_cmd_init layout table s0 = (OBC_OK, s1)" and "length (obc_cmd_queue (cmd_q s0)) = OBC_CMD_QUEUE_LEN"
    and "service_run s1 evs s"
  shows "service_steps evs \<lparr>sv_last = 0, sv_held = {#}\<rparr> =
    Some \<lparr>sv_last = s_last_counter s, sv_held = pending (cmd_q s)\<rparr>"
  using run_simulates [OF assms(3)] init_serviceable [OF assms(1,2)] by (simp add: service_of_def)

text \<open>A frame taken and the queue run.\<close>

definition fed :: "u8 list \<Rightarrow> cmd_state \<Rightarrow> cmd_state" where
  "fed frame s = snd (snd (obc_cmd_ingest obc_cmd_table (Some frame) 20 None s))"

lemma taken_run:
  assumes "service_run ready_cmd evs s" and "fst (obc_cmd_ingest obc_cmd_table (Some frame) 20 None s) = OBC_OK"
  shows "service_run ready_cmd (evs @ [Accept (frame_entry frame)]) (fed frame s)"
proof -
  obtain r where "obc_cmd_ingest obc_cmd_table (Some frame) 20 None s = (OBC_OK, r, fed frame s)"
    using assms(2) by (metis prod.collapse fed_def)
  from service_run.ingests [OF assms(1) this] show ?thesis by (simp add: took_def)
qed

lemma one_taken:
  "service_run ready_cmd [Accept (0x11, 0, 500, 1), Run 7 (0x11, 0, 500, 1), Idle 7]
     ((fed (set_frame 1) ready_cmd)\<lparr>cmd_q := obc_cmd_queue_run obc_cmd_table 7 0 (cmd_q (fed (set_frame 1) ready_cmd))\<rparr>)"
proof -
  have "fst (obc_cmd_ingest obc_cmd_table (Some (set_frame 1)) 20 None ready_cmd) = OBC_OK" by code_simp
  from taken_run [OF service_run.begins this]
  have one: "service_run ready_cmd [Accept (frame_entry (set_frame 1))] (fed (set_frame 1) ready_cmd)" by simp
  have "frame_entry (set_frame 1) = (0x11, 0, 500, 1)"
    "queue_run_log 7 0 (cmd_q (fed (set_frame 1) ready_cmd)) = [(0x11, 0, 500, 1)]"
    by code_simp+
  with service_run.executes [OF one, of 7 0] show ?thesis by simp
qed

lemma cold_cmd_slots: "length (obc_cmd_queue (cmd_q cold_cmd)) = OBC_CMD_QUEUE_LEN"
  by (simp add: cold_cmd_sel empty_queue_def OBC_CMD_QUEUE_LEN_def)

theorem command_path_is_a_service_witness:
  "service_steps [Accept (0x11, 0, 500, 1), Run 7 (0x11, 0, 500, 1), Idle 7] \<lparr>sv_last = 0, sv_held = {#}\<rparr> \<noteq> None"
  using command_path_is_a_service [OF ready_cmd_init cold_cmd_slots one_taken] by simp

text \<open>Along any such history every command executed was taken before, and executed once.\<close>

lemma run_at_most_once:
  assumes "serviceable s0" and "pending (cmd_q s0) = {#}" and "service_run s0 evs s"
  shows "distinct (runs evs)"
    "evs = before @ Run now e # after \<Longrightarrow>
       e \<in> set (accepts before) \<and> tag e \<le> now \<and> e \<notin> set (runs before) \<and> e \<notin># drops before"
    "mset (accepts evs) = mset (runs evs) + drops evs + pending (cmd_q s)"
proof -
  have s: "service_steps evs (service_of s0) = Some (service_of s)" using run_simulates [OF assms(3,1)] by simp
  have e: "sv_held (service_of s0) = {#}" using assms(2) by (simp add: service_of_def)
  show "distinct (runs evs)" by (rule service_run_once(1) [OF s e])
  show "evs = before @ Run now e # after \<Longrightarrow>
       e \<in> set (accepts before) \<and> tag e \<le> now \<and> e \<notin> set (runs before) \<and> e \<notin># drops before"
    by (rule service_run_once(3) [OF s e])
  show "mset (accepts evs) = mset (runs evs) + drops evs + pending (cmd_q s)"
    using service_ledger [OF s] e by (simp add: service_of_def)
qed

end
