(* ===== verification/Uplink.thy ===== *)
theory Uplink
  imports Service
begin

text \<open>
  The uplink from the ground's side: the frame a command is encoded in, a device that delivers a
  string of bytes, and what a poll makes of it. A poll of a link that holds whole frames is
  the ingestion of those frames in order (\<open>poll_is_ingests\<close>), so what was encoded on the ground
  is what the queue holds afterwards.
\<close>

section \<open>Encoding a command\<close>

definition le16 :: "u32 \<Rightarrow> u8 list" where
  "le16 v = [ucast v, ucast (drop_bit 8 v)]"

definition le32 :: "u32 \<Rightarrow> u8 list" where
  "le32 v = [ucast v, ucast (drop_bit 8 v), ucast (drop_bit 16 v), ucast (drop_bit 24 v)]"

fun cmd_header :: "entry \<Rightarrow> u8 list" where
  "cmd_header (op, when, arg, c) =
     le32 OBC_CMD_SYNC @ le32 c @ [of_nat OBC_CMD_FRAME_LEN, op] @ le32 when @ le32 arg"

definition cmd_encode :: "entry \<Rightarrow> u8 list" where
  "cmd_encode e = cmd_header e @ le16 (obc_cmd_sum (cmd_header e) OBC_CMD_O_SUM)"

lemma low_bytes:
  "ucast (ucast v :: u8) OR push_bit 8 (ucast (ucast (drop_bit 8 v) :: u8)) = (take_bit 16 v :: u32)"
  by (rule bit_word_eqI; auto simp: bit_simps dest: bit_imp_le_length)

lemma all_bytes:
  "((ucast (ucast v :: u8) OR push_bit 8 (ucast (ucast (drop_bit 8 v) :: u8))) OR
     push_bit 16 (ucast (ucast (drop_bit 16 v) :: u8))) OR push_bit 24 (ucast (ucast (drop_bit 24 v) :: u8)) = (v :: u32)"
    (is "?w = v")
proof (rule bit_word_eqI)
  fix n assume "n < LENGTH(32)"
  then consider "n < 8" | "8 \<le> n \<and> n < 16" | "16 \<le> n \<and> n < 24" | "24 \<le> n \<and> n < 32" by fastforce
  then show "bit ?w n = bit v n" by cases (auto simp: bit_simps)
qed

lemma ucast_u8_u32 [simp]: "(ucast (ucast b :: u32) :: u8) = b"
  by (rule bit_word_eqI) (simp add: bit_simps)

lemma sum_is_short: "take_bit 16 (obc_cmd_sum frame n) = obc_cmd_sum frame n"
proof -
  have fold: "fold sum_step bs acc = take_bit 16 (fold sum_step bs acc)" if "acc = take_bit 16 acc" for bs acc
    using that
  proof (induction bs arbitrary: acc)
    case (Cons b bs)
    have "x AND 0xFFFF = take_bit 16 x" for x :: u32
      using take_bit_eq_mask [of 16 x] by (simp add: mask_eq_exp_minus_1)
    then have "sum_step b acc = take_bit 16 (sum_step b acc)" by (simp add: sum_step_def Let_def)
    then show ?case using Cons.IH by simp
  qed simp
  have "take_bit 16 (0xFFFF :: u32) = 0xFFFF" by simp
  then show ?thesis
    unfolding obc_cmd_sum_def using fold [of 0 "take n frame"] by (simp add: take_bit_xor)
qed

lemma encode_fields:
  "length (cmd_encode (op, when, arg, c)) = OBC_CMD_FRAME_LEN"
  "get_u32 (cmd_encode (op, when, arg, c)) OBC_CMD_O_SYNC = OBC_CMD_SYNC"
  "get_u32 (cmd_encode (op, when, arg, c)) OBC_CMD_O_COUNTER = c"
  "get_u8 (cmd_encode (op, when, arg, c)) OBC_CMD_O_LENGTH = of_nat OBC_CMD_FRAME_LEN"
  "get_u8 (cmd_encode (op, when, arg, c)) OBC_CMD_O_OPCODE = ucast op"
  "get_u32 (cmd_encode (op, when, arg, c)) OBC_CMD_O_WHEN = when"
  "get_u32 (cmd_encode (op, when, arg, c)) OBC_CMD_O_ARG = arg"
  "get_u16 (cmd_encode (op, when, arg, c)) OBC_CMD_O_SUM = obc_cmd_sum (cmd_encode (op, when, arg, c)) OBC_CMD_O_SUM"
proof -
  let ?h = "cmd_header (op, when, arg, c)"
  have "obc_cmd_sum (cmd_encode (op, when, arg, c)) OBC_CMD_O_SUM = obc_cmd_sum ?h OBC_CMD_O_SUM"
    by (simp add: obc_cmd_sum_def cmd_encode_def cmd_layout le32_def)
  moreover have "get_u16 (cmd_encode (op, when, arg, c)) OBC_CMD_O_SUM = take_bit 16 (obc_cmd_sum ?h OBC_CMD_O_SUM)"
    unfolding low_bytes [symmetric]
    by (simp add: get_u16_def cmd_encode_def cmd_layout le32_def le16_def nth_append del: low_bytes)
  ultimately show "get_u16 (cmd_encode (op, when, arg, c)) OBC_CMD_O_SUM = obc_cmd_sum (cmd_encode (op, when, arg, c)) OBC_CMD_O_SUM"
    by (simp add: sum_is_short)
qed (simp_all add: get_u32_def get_u8_def cmd_encode_def cmd_layout le32_def le16_def all_bytes)

lemma frame_entry_encode [simp]: "frame_entry (cmd_encode e) = e"
  by (cases e) (simp add: frame_entry_def encode_fields)

section \<open>A link that delivers bytes\<close>

definition uplink_rx :: u32 where "uplink_rx = UART1_BASE + UART_RXDATA"

text \<open>From here on the device answers the reads of the receive register with these bytes, each
  once, and then with its empty flag; the other registers answer as they like.\<close>

definition delivers :: "u8 list \<Rightarrow> hw \<Rightarrow> bool" where
  "delivers bs h \<longleftrightarrow> (\<forall>es. suffix (io h) es \<longrightarrow>
     (let k = reads_of uplink_rx es - reads_of uplink_rx (io h)
      in dev h es uplink_rx = (if k < length bs then ucast (bs ! k) else UART_RXDATA_EMPTY)))"

lemma reads_of_append: "reads_of a (es @ es') = reads_of a es + reads_of a es'"
  by (induction a es rule: reads_of.induct) simp_all

lemma reads_of_suffix: "suffix es es' \<Longrightarrow> reads_of a es \<le> reads_of a es'"
  by (auto simp: suffix_def reads_of_append)

lemma delivers_quiet:
  assumes "hw_run h h'" and "reads_of uplink_rx (io h') = reads_of uplink_rx (io h)" and "delivers bs h"
  shows "delivers bs h'"
  using assms suffix_order.trans unfolding delivers_def hw_run_def by metis

lemma received_byte:
  "(ucast (b :: u8) :: u32) AND UART_RXDATA_EMPTY = 0" "ucast ((ucast (b :: u8) :: u32) AND 0xFF) = b"
proof -
  have c: "UART_RXDATA_EMPTY = push_bit 31 1" "(0xFF :: u32) = mask 8"
    by (simp_all add: UART_RXDATA_EMPTY_def mask_eq_exp_minus_1)
  show "(ucast b :: u32) AND UART_RXDATA_EMPTY = 0" unfolding c(1)
    by (rule bit_word_eqI, simp only: bit_and_iff bit_push_bit_iff bit_unsigned_iff) (auto dest: bit_imp_le_length)
  show "ucast ((ucast b :: u32) AND 0xFF) = b" unfolding c(2)
    by (rule bit_word_eqI) (auto simp: bit_and_iff bit_mask_iff bit_unsigned_iff)
qed

lemma getc_delivers:
  "delivers (b # bs) h \<Longrightarrow> \<exists>h'. obc_uart_uplink_getc (Some x) h = (OBC_OK, Some b, h') \<and> delivers bs h'"
  "delivers [] h \<Longrightarrow> \<exists>h'. obc_uart_uplink_getc (Some x) h = (OBC_ERR_TIMEOUT, Some x, h')"
proof -
  have rx: "UART1_BASE + UART_RXDATA = uplink_rx" by (simp add: uplink_rx_def)
  show "\<exists>h'. obc_uart_uplink_getc (Some x) h = (OBC_ERR_TIMEOUT, Some x, h')" if "delivers [] h"
  proof -
    have "dev h (io h) uplink_rx = UART_RXDATA_EMPTY" using that by (simp add: delivers_def)
    then show ?thesis by (simp add: obc_uart_uplink_getc_def bus_read_def rx UART_RXDATA_EMPTY_def)
  qed
  assume d: "delivers (b # bs) h"
  let ?h = "h\<lparr>io := Rd uplink_rx (ucast b) # io h\<rparr>"
  have v: "dev h (io h) uplink_rx = ucast b" using d by (auto simp: delivers_def Let_def dest: spec [of _ "io h"])
  note low = received_byte [of b]
  have "delivers bs ?h"
    unfolding delivers_def
  proof (intro allI impI)
    fix es assume s: "suffix (io ?h) es"
    then have le: "Suc (reads_of uplink_rx (io h)) \<le> reads_of uplink_rx es"
      using reads_of_suffix [OF s, of uplink_rx] by simp
    have "suffix (io h) es" using s by (simp add: suffix_ConsD)
    with d have "dev h es uplink_rx = (let k = reads_of uplink_rx es - reads_of uplink_rx (io h)
        in if k < length (b # bs) then ucast ((b # bs) ! k) else UART_RXDATA_EMPTY)" by (simp add: delivers_def Let_def)
    moreover have "reads_of uplink_rx es - reads_of uplink_rx (io h) =
        Suc (reads_of uplink_rx es - reads_of uplink_rx (io ?h))" using le by simp
    ultimately show "let k = reads_of uplink_rx es - reads_of uplink_rx (io ?h)
      in dev ?h es uplink_rx = (if k < length bs then ucast (bs ! k) else UART_RXDATA_EMPTY)" by simp
  qed
  then show "\<exists>h'. obc_uart_uplink_getc (Some x) h = (OBC_OK, Some b, h') \<and> delivers bs h'"
    using v low by (simp add: obc_uart_uplink_getc_def bus_read_def rx Let_def)
qed

text \<open>The console does not read the uplink.\<close>

lemma port_putc_reads:
  "a \<noteq> base + UART_TXDATA \<Longrightarrow> reads_of a (io (snd (snd (port_putc base b n h)))) = reads_of a (io h)"
proof (induction base b n h rule: port_putc.induct)
  case (1 base b n h)
  then show ?case by (subst port_putc.simps) (auto simp: bus_read_def bus_write_def Let_def)
qed

lemma puts_reads: "reads_of uplink_rx (io (snd (puts_loop i cs h))) = reads_of uplink_rx (io h)"
proof (induction i cs h rule: puts_loop.induct)
  case (2 i c cs h)
  have "uplink_rx \<noteq> UART0_BASE + UART_TXDATA"
    by (simp add: uplink_rx_def UART0_BASE_def UART1_BASE_def UART_RXDATA_def UART_TXDATA_def)
  from port_putc_reads [OF this] have "reads_of uplink_rx (io (snd (obc_uart_putc c h))) = reads_of uplink_rx (io h)"
    by (auto simp: obc_uart_putc_def split: prod.splits) (metis snd_conv)
  then show ?case using 2 by (auto split: prod.splits)
qed simp

lemma delivers_puts: "delivers bs h \<Longrightarrow> delivers bs (snd (obc_uart_puts (Some msg) h))"
  by (rule delivers_quiet [OF hw_run_puts]) (simp_all add: obc_uart_puts_def puts_reads)

section \<open>A poll of whole frames\<close>

text \<open>What an ingest looks at and what it changes, apart from the console.\<close>

definition cmd_view :: "'a cmd_state_scheme \<Rightarrow> queue_st \<times> u32 \<times> u32 \<times> u32 list \<times> u32 \<times> u32 \<times> u32" where
  "cmd_view s = (cmd_q s, obc_cmd_examined s, obc_cmd_accepted s, obc_cmd_rejected s, obc_cmd_announced s,
     s_last_counter s, s_table_ok s)"

definition ingested :: "obc_cmd list \<Rightarrow> u8 list \<Rightarrow> 'a cmd_state_scheme \<Rightarrow> 'a cmd_state_scheme" where
  "ingested table frame s = snd (snd (obc_cmd_ingest table (Some frame) OBC_CMD_FRAME_LEN None s))"

lemma verdict_view: "cmd_view t = cmd_view s \<Longrightarrow> verdict table frame len t = verdict table frame len s"
  unfolding cmd_view_def prod.inject verdict_def by (elim conjE) (simp only:)

lemma ingested_view:
  assumes "cmd_view t = cmd_view s"
  shows "cmd_view (ingested table frame t) = cmd_view (ingested table frame s)"
proof (cases "s_table_ok s = 0")
  case True
  then have "s_table_ok t = 0" using assms by (simp add: cmd_view_def)
  then show ?thesis using True assms by (simp add: ingested_def ingest_off)
next
  case False
  then have t: "s_table_ok t \<noteq> 0" using assms by (simp add: cmd_view_def)
  have "cmd_view (accept_frame frame (count_examined t)) = cmd_view (accept_frame frame (count_examined s))"
    using assms by (simp add: cmd_view_def accept_frame_def count_examined_def)
  moreover have "cmd_view (snd (snd (refuse r None (count_examined t)))) = cmd_view (snd (snd (refuse r None (count_examined s))))" for r
    using assms by (auto simp: cmd_view_def refuse_def announce_once_def count_examined_def on_hw_def Let_def)
  ultimately show ?thesis
    unfolding ingested_def ingest_eq [OF t] ingest_eq [OF False] Let_def verdict_view [OF assms] by simp
qed

lemma ingested_link:
  "s_rx (ingested table frame s) = s_rx s" "s_fill (ingested table frame s) = s_fill s"
  "delivers bs (hw s) \<Longrightarrow> delivers bs (hw (ingested table frame s))"
proof -
  obtain st r s' where i: "obc_cmd_ingest table (Some frame) OBC_CMD_FRAME_LEN None s = (st, r, s')"
    by (metis prod_cases3)
  then have s': "ingested table frame s = s'" by (simp add: ingested_def)
  show "s_rx (ingested table frame s) = s_rx s" "s_fill (ingested table frame s) = s_fill s"
    unfolding s' using ingest_rx [OF i] by simp_all
  assume d: "delivers bs (hw s)"
  show "delivers bs (hw (ingested table frame s))"
  proof (cases "s_table_ok s = 0")
    case False
    have "delivers bs (hw (accept_frame frame (count_examined s)))"
      using d by (simp add: accept_frame_def count_examined_def)
    moreover have "delivers bs (hw (snd (snd (refuse v None (count_examined s)))))" for v
      using d by (simp add: refuse_def Let_def announce_once_def on_hw_def delivers_puts)
    ultimately show ?thesis unfolding ingested_def ingest_eq [OF False] Let_def by simp
  qed (use d in \<open>simp add: ingested_def ingest_off\<close>)
qed

text \<open>From a partly filled buffer, the rest of a frame is collected and the frame ingested.\<close>

lemma poll_one_frame:
  assumes "s_fill s = n" and "n < 20" and "length f = 20" and "length (s_rx s) = 20"
    and "take n (s_rx s) = take n f" and "delivers (drop n f @ bs) (hw s)"
  shows "\<exists>s'. poll_loop (20 - n + budget) table k s = poll_loop budget table (k + (20 - n)) s' \<and>
    s_fill s' = 0 \<and> length (s_rx s') = 20 \<and> delivers bs (hw s') \<and> cmd_view s' = cmd_view (ingested table f s)"
  using assms
proof (induction "20 - n" arbitrary: n s k)
  case 0
  then show ?case by simp
next
  case (Suc m)
  have len: "OBC_CMD_FRAME_LEN = 20" by (simp add: cmd_layout)
  have "drop n f @ bs = f ! n # (drop (Suc n) f @ bs)" using Suc.prems(2,3) by (simp add: Cons_nth_drop_Suc [symmetric])
  with Suc.prems(6) obtain h where g: "obc_uart_uplink_getc (Some 0) (hw s) = (OBC_OK, Some (f ! n), h)"
    "delivers (drop (Suc n) f @ bs) h" using getc_delivers(1) [of "f ! n" "drop (Suc n) f @ bs" "hw s" 0] by auto
  let ?s1 = "s\<lparr>hw := h, s_rx := (s_rx s)[n := f ! n], s_fill := Suc n\<rparr>"
  have buf: "take (Suc n) (s_rx ?s1) = take (Suc n) f"
    using Suc.prems(2-5) by (simp add: take_Suc_conv_app_nth take_update_cancel)
  have view: "cmd_view ?s1 = cmd_view s" by (simp add: cmd_view_def)
  have steps: "20 - n + budget = Suc (20 - Suc n + budget)" using Suc.prems(2) by simp
  show ?case
  proof (cases "Suc n = 20")
    case True
    have rx: "s_rx ?s1 = f" using buf True Suc.prems(3,4) by simp
    let ?s2 = "(ingested table f ?s1)\<lparr>s_fill := 0\<rparr>"
    have "poll_loop (20 - n + budget) table k s = poll_loop budget table (k + (20 - n)) ?s2"
      unfolding steps poll_loop.simps g prod.case using True rx Suc.prems(1)
      by (simp add: len ingested_def Let_def split: prod.split)
    moreover have "cmd_view ?s2 = cmd_view (ingested table f s)"
      using ingested_view [OF view, of table f] by (simp add: cmd_view_def)
    moreover have "delivers bs (hw ?s2)"
      using ingested_link(3) [of bs ?s1 table f] g(2) True Suc.prems(3) by simp
    ultimately show ?thesis using ingested_link(1) [of table f ?s1] Suc.prems(4) by (intro exI [of _ ?s2]) simp
  next
    case False
    then have n: "Suc n < 20" using Suc.prems(2) by simp
    have "poll_loop (20 - n + budget) table k s = poll_loop (20 - Suc n + budget) table (Suc k) ?s1"
      unfolding steps poll_loop.simps g prod.case using False Suc.prems(1) by (simp add: len Let_def)
    moreover have "Suc k + (20 - Suc n) = k + (20 - n)" using n by simp
    ultimately show ?thesis
      using Suc.hyps(1) [of "Suc n" ?s1 "Suc k"] Suc.hyps(2) n Suc.prems(3,4) buf g(2)
        ingested_view [OF view, of table f] by simp
  qed
qed

lemma ingests_view:
  "cmd_view t = cmd_view s \<Longrightarrow> cmd_view (fold (ingested table) fs t) = cmd_view (fold (ingested table) fs s)"
proof (induction fs arbitrary: s t)
  case (Cons f fs)
  from Cons.IH [OF ingested_view [OF Cons.prems]] show ?case by simp
qed simp

lemma poll_frames:
  assumes "s_fill s = 0" and "length (s_rx s) = 20" and "\<forall>f \<in> set fs. length f = 20"
    and "delivers (concat fs) (hw s)" and "20 * length fs \<le> budget"
  shows "\<exists>s'. poll_loop budget table k s = (k + 20 * length fs, s') \<and> s_fill s' = 0 \<and>
    cmd_view s' = cmd_view (fold (ingested table) fs s)"
  using assms
proof (induction fs arbitrary: budget k s)
  case Nil
  then obtain h where "obc_uart_uplink_getc (Some 0) (hw s) = (OBC_ERR_TIMEOUT, Some 0, h)"
    using getc_delivers(2) [of "hw s" 0] by auto
  moreover have "cmd_view (s\<lparr>hw := h\<rparr>) = cmd_view s" by (simp add: cmd_view_def)
  ultimately show ?case using Nil.prems(1) by (cases budget) auto
next
  case (Cons f fs)
  have f: "length f = 20" and d: "delivers (drop 0 f @ concat fs) (hw s)" using Cons.prems by simp_all
  have "\<exists>s1. poll_loop (20 - 0 + (budget - 20)) table k s = poll_loop (budget - 20) table (k + (20 - 0)) s1 \<and>
      s_fill s1 = 0 \<and> length (s_rx s1) = 20 \<and> delivers (concat fs) (hw s1) \<and>
      cmd_view s1 = cmd_view (ingested table f s)"
    by (rule poll_one_frame [OF Cons.prems(1) _ f Cons.prems(2) _ d]) simp_all
  then obtain s1 where s1: "poll_loop (20 + (budget - 20)) table k s = poll_loop (budget - 20) table (k + 20) s1"
    "s_fill s1 = 0" "length (s_rx s1) = 20" "delivers (concat fs) (hw s1)"
    "cmd_view s1 = cmd_view (ingested table f s)" unfolding diff_zero by blast
  have b: "20 + (budget - 20) = budget" "20 * length fs \<le> budget - 20" using Cons.prems(5) by simp_all
  have "\<forall>f \<in> set fs. length f = 20" using Cons.prems(3) by simp
  from Cons.IH [OF s1(2,3) this s1(4) b(2), of "k + 20"] obtain s' where s':
    "poll_loop (budget - 20) table (k + 20) s1 = (k + 20 + 20 * length fs, s')" "s_fill s' = 0"
    "cmd_view s' = cmd_view (fold (ingested table) fs s1)" by blast
  have "k + 20 + 20 * length fs = k + 20 * length (f # fs)" by simp
  moreover have "fold (ingested table) (f # fs) s = fold (ingested table) fs (ingested table f s)" by simp
  ultimately show ?case using s' s1(1) ingests_view [OF s1(5), of table fs] unfolding b(1) by metis
qed

text \<open>Up to eight frames on the link: the poll is their ingestion, in order.\<close>

lemma poll_is_ingests:
  assumes "s_table_ok s \<noteq> 0" and "s_fill s = 0" and "length (s_rx s) = OBC_CMD_FRAME_LEN"
    and "\<forall>f \<in> set fs. length f = OBC_CMD_FRAME_LEN" and "delivers (concat fs) (hw s)" and "length fs \<le> 8"
  shows "cmd_view (obc_cmd_poll table s) = cmd_view (fold (ingested table) fs s)"
proof -
  have c: "OBC_CMD_FRAME_LEN = 20" "OBC_CMD_RX_BYTES = 160" by (simp_all add: cmd_layout)
  obtain s' where "poll_loop 160 table 0 s = (20 * length fs, s')" "s_fill s' = 0"
    "cmd_view s' = cmd_view (fold (ingested table) fs s)"
    using poll_frames [of s fs 160 table 0] assms unfolding c by auto
  then show ?thesis using assms(1) by (simp add: obc_cmd_poll_def c)
qed

section \<open>The round trip\<close>

fun sendable :: "obc_cmd list \<Rightarrow> queue_st \<Rightarrow> entry \<Rightarrow> bool" where
  "sendable table q (op, when, arg, c) =
     (case lookup table op of None \<Rightarrow> False
      | Some cmd \<Rightarrow> cd_arg_min cmd \<le> arg \<and> arg \<le> cd_arg_max cmd \<and>
          (cd_critical cmd \<noteq> 0 \<longrightarrow> obc_cmd_armed_opcode q = ucast op))"

lemma put_armed:
  "obc_cmd_armed_opcode (snd (obc_cmd_queue_put op w a c q)) = obc_cmd_armed_opcode q"
  by (simp add: obc_cmd_queue_put_def split: option.split)

lemma sendable_cong: "obc_cmd_armed_opcode q' = obc_cmd_armed_opcode q \<Longrightarrow> sendable table q' e = sendable table q e"
  by (cases e) (simp split: option.split)

lemma ingested_encoded:
  assumes "s_table_ok s \<noteq> 0" and "wf_queue (cmd_q s)" and "sendable table (cmd_q s) e"
    and "s_last_counter s < counter e" and "size (pending (cmd_q s)) < OBC_CMD_QUEUE_LEN"
  defines "s' \<equiv> ingested table (cmd_encode e) s"
  shows "s_table_ok s' = s_table_ok s" "wf_queue (cmd_q s')" "pending (cmd_q s') = add_mset e (pending (cmd_q s))"
    "s_last_counter s' = counter e" "obc_cmd_armed_opcode (cmd_q s') = obc_cmd_armed_opcode (cmd_q s)"
proof -
  obtain op w a c where e: "e = (op, w, a, c)" by (cases e)
  have "verdict table (cmd_encode e) OBC_CMD_FRAME_LEN s = OBC_CMD_REJECT_COUNT"
    unfolding verdict_accepts using assms(3-5) by (simp add: e encode_fields split: option.splits)
  then have s': "s' = accept_frame (cmd_encode e) (count_examined s)"
    unfolding s'_def ingested_def ingest_eq [OF assms(1)] by (simp add: Let_def)
  obtain q where "put_entry e (cmd_q s) = (OBC_OK, q)" "wf_queue q" "pending q = add_mset e (pending (cmd_q s))"
    using cmdq.accepts [OF assms(2,5)] by blast
  then show "s_table_ok s' = s_table_ok s" "wf_queue (cmd_q s')" "pending (cmd_q s') = add_mset e (pending (cmd_q s))"
    "s_last_counter s' = counter e" "obc_cmd_armed_opcode (cmd_q s') = obc_cmd_armed_opcode (cmd_q s)"
    unfolding s' using put_armed [of op w a c "cmd_q s"]
    by (simp_all add: accept_frame_def put_entry_def e encode_fields)
qed

lemma ingests_encoded:
  assumes "s_table_ok s \<noteq> 0" and "wf_queue (cmd_q s)" and "\<forall>e \<in> set es. sendable table (cmd_q s) e"
    and "sorted_wrt (<) (s_last_counter s # map counter es)"
    and "size (pending (cmd_q s)) + length es \<le> OBC_CMD_QUEUE_LEN"
  defines "s' \<equiv> fold (ingested table) (map cmd_encode es) s"
  shows "pending (cmd_q s') = pending (cmd_q s) + mset es \<and>
    s_last_counter s' = last (s_last_counter s # map counter es)"
  using assms(1-5) unfolding s'_def
proof (induction es arbitrary: s)
  case Nil
  then show ?case by simp
next
  case (Cons e es)
  have send: "sendable table (cmd_q s) e" and more: "s_last_counter s < counter e"
    and room: "size (pending (cmd_q s)) < OBC_CMD_QUEUE_LEN" using Cons.prems by simp_all
  note i = ingested_encoded [OF Cons.prems(1,2) send more room]
  let ?s = "ingested table (cmd_encode e) s"
  have "\<forall>e' \<in> set es. sendable table (cmd_q ?s) e'"
    using Cons.prems(3) sendable_cong [OF i(5)] by simp
  moreover have "sorted_wrt (<) (s_last_counter ?s # map counter es)" using Cons.prems(4) i(4) by simp
  moreover have "size (pending (cmd_q ?s)) + length es \<le> OBC_CMD_QUEUE_LEN" using Cons.prems(5) i(3) by simp
  ultimately show ?case using Cons.IH [of ?s] Cons.prems(1) i by simp
qed

text \<open>
  The counter does not outlive a boot: after any initialisation, and so after any reset, a frame
  accepted before it is accepted again, unless its command is critical, which has to be armed
  again first.
\<close>

lemma accepted_again_after_boot:
  assumes "obc_cmd_init layout table s = (OBC_OK, s')" and "length (obc_cmd_queue (cmd_q s)) = OBC_CMD_QUEUE_LEN"
    and "lookup table op = Some cmd" and "cd_arg_min cmd \<le> arg" and "arg \<le> cd_arg_max cmd" and "0 < c"
  shows "fst (obc_cmd_ingest table (Some (cmd_encode (op, when, arg, c))) OBC_CMD_FRAME_LEN None s') = OBC_OK \<longleftrightarrow>
    cd_critical cmd = 0"
proof -
  have ok: "s_table_ok s' \<noteq> 0" "s_last_counter s' = 0" "obc_cmd_armed_opcode (cmd_q s') = OBC_CMD_ARM_NONE"
    using assms(1) by (auto simp: obc_cmd_init_def obc_cmd_queue_init_def split: if_splits)
  have "pending (cmd_q s') = {#}" using init_serviceable(2) [OF assms(1,2)] by (simp add: service_of_def)
  then have room: "size (pending (cmd_q s')) < OBC_CMD_QUEUE_LEN" by (simp only: size_empty OBC_CMD_QUEUE_LEN_def)
  have "OBC_CMD_ARM_NONE \<noteq> ucast op"
  proof
    assume "OBC_CMD_ARM_NONE = ucast op"
    from arg_cong [OF this, of unat] show False using unat_u8_less [of op] by (simp add: OBC_CMD_ARM_NONE_def)
  qed
  then have "verdict table (cmd_encode (op, when, arg, c)) OBC_CMD_FRAME_LEN s' = OBC_CMD_REJECT_COUNT \<longleftrightarrow> cd_critical cmd = 0"
    unfolding verdict_accepts using assms(3-6) ok(2,3) room by (simp add: encode_fields del: size_pending)
  then show ?thesis unfolding ingest_eq [OF ok(1)] Let_def by (simp add: refuse_def)
qed

section \<open>Properties\<close>

text \<open>
  C19: what the ground encodes is what the vehicle holds. With up to four commands encoded in
  frames on the link, with growing counters above the last one taken, arguments in range,
  critical ones armed, and room for all: one poll leaves exactly these commands in the queue,
  each with its opcode, time tag, argument and counter, beside what was held, and the
  replay counter at the last of them.
\<close>

theorem uplink_round_trip:
  assumes "s_table_ok s \<noteq> 0" and "wf_queue (cmd_q s)" and "s_fill s = 0" and "length (s_rx s) = OBC_CMD_FRAME_LEN"
    and "delivers (concat (map cmd_encode es)) (hw s)"
    and "\<forall>e \<in> set es. sendable table (cmd_q s) e"
    and "sorted_wrt (<) (s_last_counter s # map counter es)"
    and "size (pending (cmd_q s)) + length es \<le> OBC_CMD_QUEUE_LEN"
  shows "pending (cmd_q (obc_cmd_poll table s)) = pending (cmd_q s) + mset es \<and>
    s_last_counter (obc_cmd_poll table s) = last (s_last_counter s # map counter es)"
proof -
  have "\<forall>f \<in> set (map cmd_encode es). length f = OBC_CMD_FRAME_LEN"
    by (auto simp: encode_fields(1))
  moreover have "length (map cmd_encode es) \<le> 8" using assms(8) by (simp add: OBC_CMD_QUEUE_LEN_def)
  ultimately have "cmd_view (obc_cmd_poll table s) = cmd_view (fold (ingested table) (map cmd_encode es) s)"
    using poll_is_ingests assms(1,3-5) by blast
  then show ?thesis using ingests_encoded [OF assms(1,2,6-8)] by (simp add: cmd_view_def)
qed

text \<open>A link with two frames: set 500 at once, and arm the safe command at tick 9000.\<close>

definition two_commands :: "entry list" where
  "two_commands = [(of_nat OP_SET, 0, 500, 7), (of_nat OP_ARM, 9000, of_nat OP_SAFE, 9)]"

definition serving_hw :: "u8 list \<Rightarrow> hw" where
  "serving_hw bs = \<lparr>dev = (\<lambda>es a. if a = uplink_rx then
       (if reads_of uplink_rx es < length bs then ucast (bs ! reads_of uplink_rx es) else UART_RXDATA_EMPTY)
     else 0), instret = (\<lambda>es. 0), io = []\<rparr>"

lemma serving_delivers: "delivers bs (serving_hw bs)"
  by (simp add: delivers_def serving_hw_def Let_def)

theorem uplink_round_trip_witness:
  "pending (cmd_q (obc_cmd_poll obc_cmd_table
     (ready_cmd\<lparr>hw := serving_hw (concat (map cmd_encode two_commands))\<rparr>))) = mset two_commands"
proof -
  let ?s = "ready_cmd\<lparr>hw := serving_hw (concat (map cmd_encode two_commands))\<rparr>"
  have p: "pending (cmd_q ready_cmd) = {#}" "s_last_counter ready_cmd = 0" "s_fill ready_cmd = 0"
    "length (s_rx ready_cmd) = OBC_CMD_FRAME_LEN"
    using ready_cmd_ok(3) init_serviceable(2) [OF ready_cmd_init cold_cmd_slots]
    by (simp_all add: ready_cmd_eq service_of_def wf_rx_def)
  have "\<forall>e \<in> set two_commands. sendable obc_cmd_table (cmd_q ?s) e"
    by (simp add: two_commands_def obc_cmd_table_def lookup_def OP_PING_def OP_SET_def OP_ARM_def OP_SAFE_def)
  moreover have "sorted_wrt (<) (s_last_counter ?s # map counter two_commands)"
    using p(2) by (simp add: two_commands_def)
  moreover have "size (pending (cmd_q ?s)) + length two_commands \<le> OBC_CMD_QUEUE_LEN"
    using p(1) by (simp add: two_commands_def OBC_CMD_QUEUE_LEN_def del: size_pending)
  ultimately show ?thesis
    using uplink_round_trip [of ?s two_commands obc_cmd_table] serving_delivers ready_cmd_ok(1,2) p by simp
qed

end
