(* ===== verification/Commanding.thy ===== *)
theory Commanding
  imports Service Steps
begin

text \<open>
  The executive drives the command path as its service. Of everything a window does, only the
  command task and the reset of its subsystem reach the queue and the replay counter; the
  rest leaves them alone, so a window of any length on any devices is a run of the service of
  \<open>Service\<close>.
\<close>

section \<open>What leaves the command path alone\<close>

lemma side_stores [simp]:
  "cmd_side (s\<lparr>hw := h\<rparr>) = cmd_side s" "cmd_side (on_hw f s) = cmd_side s"
  "cmd_side (s\<lparr>s_unstable_count := w\<rparr>) = cmd_side s" "cmd_side (s\<lparr>crit := c\<rparr>) = cmd_side s"
  by (simp_all add: cmd_side_def on_hw_def)

lemma side_vote: "cmd_side (snd (obc_mode_is_safe s)) = cmd_side s"
  by (auto simp: cmd_side_def obc_mode_is_safe_def split: prod.splits)

lemma side_enter: "cmd_side (obc_mode_enter_safe r s) = cmd_side s"
  by (simp add: cmd_side_def obc_mode_enter_safe_def Let_def on_hw_def)

lemma side_log: "cmd_side (log_suspension x y r s) = cmd_side s"
  by (simp add: cmd_side_def log_suspension_def)

lemma side_trace: "cmd_side (trace_push i s) = cmd_side s"
  by (simp add: cmd_side_def trace_push_def)

lemma side_account: "cmd_side (account i n m s) = cmd_side s"
  by (simp add: cmd_side_def account_def Let_def)

lemma side_pack: "cmd_side (pack ps s) = cmd_side s"
  by (simp add: cmd_side_def pack_def)

lemma side_emit:
  fixes s :: "'a tlm_state_scheme"
  shows "cmd_side (snd (obc_tlm_emit n s)) = cmd_side s"
proof (cases "s_layout_ok s = 0")
  case True
  then show ?thesis by (simp add: obc_tlm_emit_def)
next
  case False
  obtain st now s1 where m: "obc_mtime_read (Some 0) s = (st, now, s1)" by (metis prod_cases3)
  obtain h c where s1: "s1 = s\<lparr>hw := h, s_unstable_count := c\<rparr>" by (rule mtime_keeps [OF m])
  define u where "u = (if st = OBC_OK then ucast (the now AND 0xFFFFFFFF) else 0xFFFFFFFF :: u32)"
  define s2 where "s2 = pack (puts_before_vote n u s1) s1"
  obtain safe s3 where v: "obc_mode_is_safe s2 = (safe, s3)" by fastforce
  have "cmd_side s3 = cmd_side s" using side_vote [of s2] v by (simp add: s2_def s1 side_pack)
  then show ?thesis
    unfolding obc_tlm_emit_def if_not_P [OF False] m prod.case Let_def u_def [symmetric] s2_def [symmetric] v
    by (simp add: cmd_side_def on_hw_def pack_def split: prod.split)
qed

lemma side_tasks:
  "cmd_side (task_housekeeping s) = cmd_side s" "cmd_side (task_audit s) = cmd_side s"
  "cmd_side (task_scrub s) = cmd_side s" "cmd_side (task_telemetry n s) = cmd_side s"
  "cmd_side (obc_tlm_subsystem_reset s) = cmd_side s"
  by (simp_all add: task_housekeeping_def task_audit_def work_def task_scrub_def task_telemetry_def side_emit
      obc_tlm_subsystem_reset_def) (simp_all add: cmd_side_def)

section \<open>A window is a run of the service\<close>

definition serves :: "'a cmd_state_scheme \<Rightarrow> 'a cmd_state_scheme \<Rightarrow> bool" where
  "serves s t \<longleftrightarrow> (\<exists>evs. service_run s evs t)"

lemma serves_same: "cmd_side t = cmd_side s \<Longrightarrow> serves s t"
  unfolding serves_def using service_run.other [OF service_run.begins] by blast

lemma serves_trans: "serves s t \<Longrightarrow> serves t u \<Longrightarrow> serves s u"
  unfolding serves_def using service_run_trans by blast

lemma serves_command: "serves s (task_command s)"
proof -
  from service_run.executes [OF service_run.polls [OF service_run.begins], of s
      "obc_cmd_now_ticks (obc_cmd_poll obc_cmd_table s)" "obc_frames_run (obc_cmd_poll obc_cmd_table s)"]
  show ?thesis unfolding serves_def task_command_def Let_def by blast
qed

lemma serves_forget: "serves s (s\<lparr>cmd_q := obc_cmd_queue_init (cmd_q s)\<rparr>)"
  unfolding serves_def using service_run.forgets [OF service_run.begins] by blast

lemma serves_task:
  "i < length (obc_task_table :: tasks_state obc_task list) \<Longrightarrow>
   task_fn ((obc_task_table :: tasks_state obc_task list) ! i) = Some f \<Longrightarrow> serves s (f s)"
  "i < length (obc_task_table :: tasks_state obc_task list) \<Longrightarrow>
   reset_fn ((obc_task_table :: tasks_state obc_task list) ! i) = Some f \<Longrightarrow> serves s (f s)"
  by (auto simp: obc_task_table_def less_Suc_eq side_tasks [THEN serves_same] serves_command serves_forget)

interpretation serving: executive_steps "obc_task_table :: tasks_state obc_task list" serves
proof unfold_locales
  show "length (obc_task_table :: tasks_state obc_task list) \<le> 8" by (simp add: obc_task_count_eq)
  show "serves s u" if "serves s t" "serves t u" for s t u :: tasks_state using that by (rule serves_trans)
qed (auto intro: serves_same serves_task simp: side_vote side_enter side_log side_trace side_account,
    auto intro: serves_same simp: cmd_side_def)

section \<open>The replay counter within a boot\<close>

text \<open>Nothing in a window lowers the counter of the last command taken.\<close>

lemma counter_same: "cmd_side t = cmd_side s \<Longrightarrow> s_last_counter s \<le> s_last_counter t"
  by (simp add: cmd_side_def)

lemma counter_command: "s_last_counter s \<le> s_last_counter (task_command s)"
  using step_last_counter [OF cmd_step.poll, of s obc_cmd_table] by (simp add: task_command_def Let_def)

lemma counter_task:
  "i < length (obc_task_table :: tasks_state obc_task list) \<Longrightarrow>
   task_fn ((obc_task_table :: tasks_state obc_task list) ! i) = Some f \<Longrightarrow> s_last_counter s \<le> s_last_counter (f s)"
  "i < length (obc_task_table :: tasks_state obc_task list) \<Longrightarrow>
   reset_fn ((obc_task_table :: tasks_state obc_task list) ! i) = Some f \<Longrightarrow> s_last_counter s \<le> s_last_counter (f s)"
  by (auto simp: obc_task_table_def less_Suc_eq side_tasks [THEN counter_same] counter_command)

interpretation counting: executive_steps "obc_task_table :: tasks_state obc_task list"
  "\<lambda>s t. s_last_counter s \<le> s_last_counter t"
proof unfold_locales
  show "length (obc_task_table :: tasks_state obc_task list) \<le> 8" by (simp add: obc_task_count_eq)
  show "s_last_counter s \<le> s_last_counter u" if "s_last_counter s \<le> s_last_counter t"
    "s_last_counter t \<le> s_last_counter u" for s t u :: tasks_state using that by (rule order_trans)
qed (auto intro: counter_same counter_task simp: side_vote side_enter side_log side_trace side_account)

text \<open>
  Everything that can happen to the command path between two initialisations: whatever the
  outside can do to it, and whole windows of the executive.
\<close>

inductive boot_step :: "obc_cmd list \<Rightarrow> tasks_state \<Rightarrow> tasks_state \<Rightarrow> bool" for table where
  command: "cmd_step table s t \<Longrightarrow> boot_step table s t"
| window: "obc_sched_run obc_task_table frames s = (fl, t) \<Longrightarrow> boot_step table s t"

lemma boot_last_counter:
  assumes "(boot_step table)\<^sup>*\<^sup>* s t"
  shows "s_last_counter s \<le> s_last_counter t"
  using assms
proof (induction rule: rtranclp_induct)
  case (step t u)
  from step.hyps(2) have "s_last_counter t \<le> s_last_counter u"
  proof cases
    case command
    then show ?thesis by (rule step_last_counter)
  next
    case (window frames fl)
    then show ?thesis using counting.sched_run_steps [of t frames] by simp
  qed
  then show ?case using step.IH by simp
qed simp

section \<open>Properties\<close>

text \<open>
  C5: over a whole window no command is executed twice, none that was not taken, and none is
  lost. From an initialised command path, whatever the devices deliver and however the
  window ends, what the executive does is a run of the command service; along its history
  every command executed was taken from a frame before, is due, and has neither been executed
  nor forgotten before; and every command taken has been executed once, was forgotten by a
  reset of the command subsystem, or is still held.
\<close>

theorem window_executes_commands_once:
  fixes s1 :: tasks_state
  assumes "obc_cmd_init layout table s0 = (OBC_OK, s1)" and "length (obc_cmd_queue (cmd_q s0)) = OBC_CMD_QUEUE_LEN"
    and "obc_sched_run obc_task_table frames s1 = (fl, s)"
  shows "\<exists>evs. service_run s1 evs s \<and> distinct (runs evs) \<and>
    (\<forall>before now e after. evs = before @ Run now e # after \<longrightarrow>
       e \<in> set (accepts before) \<and> tag e \<le> now \<and> e \<notin> set (runs before) \<and> e \<notin># drops before) \<and>
    mset (accepts evs) = mset (runs evs) + drops evs + pending (cmd_q s)"
proof -
  have "serves s1 s" using serving.sched_run_steps [of s1 frames] assms(3) by simp
  then obtain evs where r: "service_run s1 evs s" unfolding serves_def by blast
  note i = init_serviceable [OF assms(1,2)]
  then have "pending (cmd_q s1) = {#}" by (simp add: service_of_def)
  from run_at_most_once [OF i(1) this r] r show ?thesis by blast
qed

theorem window_executes_commands_once_witness:
  "\<exists>evs. mset (accepts evs) = mset (runs evs) + drops evs + pending (cmd_q (snd (obc_sched_run obc_task_table 16
     (snd (obc_cmd_init obc_cmd_fields obc_cmd_table (ready_tasks\<lparr>cmd_q := empty_queue\<rparr>))))))"
proof -
  let ?s0 = "ready_tasks\<lparr>cmd_q := empty_queue\<rparr>"
  have i: "obc_cmd_init obc_cmd_fields obc_cmd_table ?s0 = (OBC_OK, snd (obc_cmd_init obc_cmd_fields obc_cmd_table ?s0))"
    using flight_tables_pass [of ?s0] by (simp add: prod_eq_iff)
  have "length (obc_cmd_queue (cmd_q ?s0)) = OBC_CMD_QUEUE_LEN" by (simp add: empty_queue_def OBC_CMD_QUEUE_LEN_def)
  from window_executes_commands_once [OF i this surjective_pairing] show ?thesis by blast
qed

text \<open>
  C6: within one boot no command frame is accepted twice. Once a frame has been accepted, then
  after any further ingests, polls, queue runs and resets of the command subsystem, and any
  whole windows of the executive on any devices, a frame whose counter is not greater, the
  recorded frame itself in particular, is refused. The guarantee ends with the boot: the
  counter is in RAM, an initialisation puts it back to zero, and the same frame is then
  accepted again (\<open>accepted_again_after_boot\<close> in \<open>Uplink\<close>).
\<close>

theorem replay_is_refused:
  fixes s1 s2 :: tasks_state
  assumes "obc_cmd_ingest table (Some frame) len reason s = (OBC_OK, reason', s1)"
    and "(boot_step table)\<^sup>*\<^sup>* s1 s2"
    and "get_u32 frame2 OBC_CMD_O_COUNTER \<le> get_u32 frame OBC_CMD_O_COUNTER"
  shows "fst (obc_cmd_ingest table (Some frame2) len2 reason2 s2) \<noteq> OBC_OK"
proof (rule stale_counter_refused)
  have "s_last_counter s1 = get_u32 frame OBC_CMD_O_COUNTER"
    using ingest_accepted(3) [OF assms(1)] by (simp add: accept_frame_def)
  then show "get_u32 frame2 OBC_CMD_O_COUNTER \<le> s_last_counter s2"
    using boot_last_counter [OF assms(2)] assms(3) by simp
qed

lemma side_restore: "cmd_side (obc_mode_restore c s) = cmd_side s"
  by (simp add: obc_mode_restore_def Let_def side_enter) (simp add: cmd_side_def)

lemma ready_tasks_cmd: "cmd_side ready_tasks = cmd_side ready_cmd"
  by (simp add: ready_tasks_def side_restore)
     (simp add: cmd_side_def tlm_state.defs tasks_state.defs ready_tlm_def cold_tlm_def cold_sched_def
        sched_state.defs cmd_state.defs)

theorem replay_is_refused_witness:
  "let s1 = snd (snd (obc_cmd_ingest obc_cmd_table (Some (set_frame 1)) 20 None ready_tasks))
   in fst (obc_cmd_ingest obc_cmd_table (Some (set_frame 1)) 20 None ready_tasks) = OBC_OK \<and>
     fst (obc_cmd_ingest obc_cmd_table (Some (set_frame 1)) 20 None (snd (obc_sched_run obc_task_table 16 s1))) \<noteq> OBC_OK"
proof -
  let ?i = "obc_cmd_ingest obc_cmd_table (Some (set_frame 1)) 20 None ready_tasks"
  have same: "cmd_q ready_tasks = cmd_q ready_cmd" "s_last_counter ready_tasks = s_last_counter ready_cmd"
    "s_table_ok ready_tasks \<noteq> 0"
    using ready_tasks_cmd ready_cmd_ok(1) by (simp_all add: cmd_side_def)
  have "verdict obc_cmd_table (set_frame 1) 20 ready_cmd = OBC_CMD_REJECT_COUNT" by code_simp
  then have ok: "fst ?i = OBC_OK"
    using verdict_cong [OF same(1,2), of obc_cmd_table "set_frame 1" 20] by (simp add: ingest_eq [OF same(3)])
  then have i: "?i = (OBC_OK, fst (snd ?i), snd (snd ?i))" by (metis prod.collapse)
  have w: "(boot_step obc_cmd_table)\<^sup>*\<^sup>* (snd (snd ?i)) (snd (obc_sched_run obc_task_table 16 (snd (snd ?i))))"
    by (rule r_into_rtranclp, rule boot_step.window, rule surjective_pairing)
  show ?thesis unfolding Let_def by (intro conjI ok replay_is_refused [OF i w order_refl])
qed

end
