(* ===== verification/Timely.thy ===== *)
theory Timely
  imports Commanding Mission
begin

text \<open>
  Commands run on time. The command task is the last row of the table, due in every frame and
  essential, so a frame in which it is not suspended ends with nothing due left in the queue,
  in nominal and in safe mode alike, whatever the other tasks do or cost.
\<close>

section \<open>What the rest of a frame leaves alone\<close>

definition cmd_clock :: "'a sched_state_scheme \<Rightarrow> (queue_st \<times> u32 \<times> u32) \<times> u32" where
  "cmd_clock s = (cmd_side s, obc_cmd_now_ticks s)"

lemma clock_stores [simp]:
  "cmd_clock (s\<lparr>hw := h\<rparr>) = cmd_clock s" "cmd_clock (on_hw f s) = cmd_clock s"
  "cmd_clock (s\<lparr>s_unstable_count := w\<rparr>) = cmd_clock s" "cmd_clock (s\<lparr>crit := c\<rparr>) = cmd_clock s"
  "cmd_clock (trace_push i s) = cmd_clock s" "cmd_clock (account i n m s) = cmd_clock s"
  "cmd_clock (s\<lparr>s_suspended_task := a, s_suspended_frame := b\<rparr>) = cmd_clock s"
  "cmd_clock (log_suspension x y r s) = cmd_clock s" "cmd_clock (obc_mode_enter_safe q s) = cmd_clock s"
  by (simp_all add: cmd_clock_def side_log side_trace side_account side_enter)
     (simp_all add: cmd_side_def on_hw_def trace_push_def account_def log_suspension_def obc_mode_enter_safe_def Let_def)

lemma clock_reads [simp]:
  "cmd_clock (snd (obc_mode_is_safe s)) = cmd_clock s" "cmd_clock (snd (minstret s)) = cmd_clock s"
proof -
  have "obc_cmd_now_ticks (snd (obc_mode_is_safe s)) = obc_cmd_now_ticks s"
    by (auto simp: obc_mode_is_safe_def split: prod.splits)
  then show "cmd_clock (snd (obc_mode_is_safe s)) = cmd_clock s" by (simp add: cmd_clock_def side_vote)
  show "cmd_clock (snd (minstret s)) = cmd_clock s" by (simp add: cmd_clock_def minstret_def split: prod.splits)
qed

lemma ticks_emit:
  fixes s :: "'a tlm_state_scheme"
  shows "obc_cmd_now_ticks (snd (obc_tlm_emit n s)) = obc_cmd_now_ticks s"
proof (cases "s_layout_ok s = 0")
  case True
  then show ?thesis by (simp add: obc_tlm_emit_def)
next
  case False
  obtain st now s1 where m: "obc_mtime_read (Some 0) s = (st, now, s1)" by (metis prod_cases3)
  obtain h c where s1: "s1 = s\<lparr>hw := h, s_unstable_count := c\<rparr>" by (rule mtime_keeps [OF m])
  define u where "u = (if st = OBC_OK then ucast (the now AND 0xFFFFFFFF) else 0xFFFFFFFF :: u32)"
  define s2 where "s2 = pack (puts_before_vote n u s1) s1"
  obtain safe s3 where v: "obc_mode_is_safe s2 = (safe, s3)" by fastforce
  have "obc_cmd_now_ticks s3 = obc_cmd_now_ticks s"
    using clock_reads(1) [of s2] v by (simp add: s2_def s1 cmd_clock_def pack_def)
  then show ?thesis
    unfolding obc_tlm_emit_def if_not_P [OF False] m prod.case Let_def u_def [symmetric] s2_def [symmetric] v
    by (simp add: on_hw_def pack_def split: prod.split)
qed

lemma clock_tasks:
  "cmd_clock (task_housekeeping s) = cmd_clock s" "cmd_clock (task_audit s) = cmd_clock s"
  "cmd_clock (task_scrub s) = cmd_clock s" "cmd_clock (task_telemetry n s) = cmd_clock s"
  "cmd_clock (obc_tlm_subsystem_reset s) = cmd_clock s"
  by (simp_all add: cmd_clock_def side_tasks)
     (simp_all add: task_housekeeping_def task_audit_def work_def task_scrub_def task_telemetry_def ticks_emit
      obc_tlm_subsystem_reset_def)

lemma clock_other_tasks:
  assumes "i < 4"
  shows "task_fn ((obc_task_table :: tasks_state obc_task list) ! i) = Some f \<Longrightarrow> cmd_clock (f s) = cmd_clock s"
    "reset_fn ((obc_task_table :: tasks_state obc_task list) ! i) = Some f \<Longrightarrow> cmd_clock (f s) = cmd_clock s"
  using assms by (auto simp: obc_task_table_def less_Suc_eq numeral_eq_Suc clock_tasks)

interpretation still: executive_steps "[] :: tasks_state obc_task list" "\<lambda>s t. cmd_side t = cmd_side s"
  by unfold_locales (auto simp: side_vote side_enter side_log side_trace side_account, simp_all add: cmd_side_def)

section \<open>One dispatch\<close>

abbreviation flight_table :: "tasks_state obc_task list" where
  "flight_table \<equiv> obc_task_table"

lemma dispatch_clock:
  fixes s :: tasks_state
  assumes "i < 5"
  obtains f t s3 over rung where "task_fn (flight_table ! i) = Some f" "cmd_clock t = cmd_clock s"
    "cmd_clock s3 = cmd_clock (f t)" "quiet s3 = quiet s"
    "dispatch flight_table i frame s =
      (if over then obc_recover_escalate flight_table rung (of_nat i) frame s3 else (Ret (), s3))"
proof -
  have i: "i < length flight_table" using assms by (simp add: obc_task_count_eq)
  obtain f where f: "task_fn (flight_table ! i) = Some f" using flight.has_function [OF i] by auto
  then have wb: "well_behaved f" by (rule flight.task_behaves [OF i])
  obtain before t where t: "minstret (trace_push i s) = (before, t)" by fastforce
  obtain after s2 where s2: "minstret (f t) = (after, s2)" by fastforce
  let ?used = "after - before" and ?budget = "budget_instr (flight_table ! i)"
  let ?s3 = "account i ?used ?budget s2"
  have "cmd_clock t = cmd_clock s" "quiet t = quiet s"
    using clock_reads(2) [of "trace_push i s"] kept_minstret(2) [of "trace_push i s"] t by simp_all
  moreover have "cmd_clock ?s3 = cmd_clock (f t)" "quiet ?s3 = quiet t"
    using clock_reads(2) [of "f t"] kept_minstret(2) [of "f t"] wb s2 by (simp_all add: well_behaved_def)
  moreover have "dispatch flight_table i frame s =
      (if ?used > ?budget
       then obc_recover_escalate flight_table (overrun_rung (flight_table ! i) (ts_overruns (obc_task_state ?s3 ! i)))
              (of_nat i) frame ?s3
       else (Ret (), ?s3))"
    by (simp add: dispatch_def f t s2 Let_def)
  ultimately show thesis using that [OF f] by metis
qed

text \<open>Another task: the command path, its clock and its standing are as they were.\<close>

lemma dispatch_other:
  fixes s :: tasks_state
  assumes "i < 4" and "dispatch flight_table i frame s = (Ret (), s')"
  shows "cmd_clock s' = cmd_clock s" "obc_recover_is_suspended 4 f s' \<Longrightarrow> obc_recover_is_suspended 4 f s"
proof -
  have i: "i < 5" "i < length flight_table" and i4: "(of_nat i :: u32) \<noteq> 4"
    using assms(1) by (auto simp: obc_task_count_eq word_unat_eq_iff unat_of_nat take_bit_nat_eq_self)
  obtain g t s3 over rung where g: "task_fn (flight_table ! i) = Some g" "cmd_clock t = cmd_clock s"
    "cmd_clock s3 = cmd_clock (g t)" "quiet s3 = quiet s"
    "dispatch flight_table i frame s =
      (if over then obc_recover_escalate flight_table rung (of_nat i) frame s3 else (Ret (), s3))"
    by (rule dispatch_clock [OF i(1), of s frame]) blast
  have c: "cmd_clock s3 = cmd_clock s" using g(2,3) clock_other_tasks(1) [OF assms(1) g(1)] by simp
  have "cmd_clock s' = cmd_clock s \<and> (obc_recover_is_suspended 4 f s' \<longrightarrow> obc_recover_is_suspended 4 f s)"
  proof (cases over)
    case False
    then show ?thesis using c g(4,5) assms(2) by (simp add: obc_recover_is_suspended_def quiet_def)
  next
    case True
    then have e: "obc_recover_escalate flight_table rung (of_nat i) frame s3 = (Ret (), s')" using g(5) assms(2) by simp
    show ?thesis
    proof (cases rule: flight.escalate_branches [OF i(2) e])
      case (1 d x r)
      have "cmd_clock s' = cmd_clock s3" unfolding 1(3) by simp
      moreover have "s_suspended_task s' = of_nat i" unfolding 1(3) by (simp add: log_suspension_def)
      ultimately show ?thesis using c i4 by (simp add: obc_recover_is_suspended_def)
    next
      case (2 h y d r)
      have "quiet s' = quiet (log_suspension (of_nat i) d r s3)"
        using flight.reset_behaves [OF i(2) 2(3)] 2(4) by (simp add: well_behaved_def)
      then have "s_suspended_task s' = s_suspended_task s3" "s_suspended_frame s' = s_suspended_frame s3"
        by (simp_all add: quiet_def log_suspension_def split: if_splits)
      then show ?thesis
        using c g(4) clock_other_tasks(2) [OF assms(1) 2(3)] 2(4) by (simp add: obc_recover_is_suspended_def quiet_def)
    next
      case 3
      then show ?thesis using c g(4) by (simp add: obc_recover_is_suspended_def quiet_def)
    next
      case (4 r)
      then have "quiet s' = quiet s3" by simp
      then show ?thesis using c g(4) 4 by (simp add: obc_recover_is_suspended_def quiet_def)
    next
      case (5 h)
      then show ?thesis by simp
    qed
  qed
  then show "cmd_clock s' = cmd_clock s" "obc_recover_is_suspended 4 f s' \<Longrightarrow> obc_recover_is_suspended 4 f s"
    by blast+
qed

text \<open>The command task: nothing due is left, whether or not it overruns and climbs the ladder.\<close>

definition served :: "u32 \<Rightarrow> 'a cmd_state_scheme \<Rightarrow> bool" where
  "served now s \<longleftrightarrow> (\<forall>e \<in># pending (cmd_q s). now < tag e)"

lemma served_cong: "cmd_side t = cmd_side s \<Longrightarrow> served now t = served now s"
  by (simp add: served_def cmd_side_def)

lemma ticks_refuse [simp]: "obc_cmd_now_ticks (snd (snd (refuse r out s))) = obc_cmd_now_ticks s"
  by (simp add: refuse_def Let_def announce_once_def on_hw_def)

lemma ticks_ingest:
  assumes "obc_cmd_ingest table fp len reason s = (st, reason', s')"
  shows "obc_cmd_now_ticks s' = obc_cmd_now_ticks s"
proof (cases "s_table_ok s = 0 \<or> fp = None")
  case True
  then show ?thesis using assms by (simp add: ingest_off)
next
  case False
  then obtain frame where f: "fp = Some frame" and ok: "s_table_ok s \<noteq> 0" by auto
  show ?thesis
  proof (cases "verdict table frame len s = OBC_CMD_REJECT_COUNT")
    case True
    then show ?thesis
      using assms unfolding f ingest_eq [OF ok] Let_def by (auto simp: accept_frame_def count_examined_def)
  next
    case False
    then have "refuse (verdict table frame len s) reason (count_examined s) = (st, reason', s')"
      using assms unfolding f ingest_eq [OF ok] Let_def by simp
    then show ?thesis
      using ticks_refuse [of "verdict table frame len s" reason "count_examined s"] by (simp add: count_examined_def)
  qed
qed

lemma ticks_poll: "obc_cmd_now_ticks (obc_cmd_poll table s) = obc_cmd_now_ticks s"
proof -
  obtain k s1 where p: "poll_loop OBC_CMD_RX_BYTES table 0 s = (k, s1)" by fastforce
  have "obc_cmd_now_ticks (snd (poll_loop OBC_CMD_RX_BYTES table 0 s)) = obc_cmd_now_ticks s"
    by (rule poll_loop_keeps [of "\<lambda>t. obc_cmd_now_ticks t = obc_cmd_now_ticks s"]) (simp_all add: ticks_ingest)
  then show ?thesis using p by (simp add: obc_cmd_poll_def)
qed

lemma command_serves:
  assumes "serviceable s"
  shows "served (obc_cmd_now_ticks s) (task_command s)" "serviceable (task_command s)"
proof -
  let ?s1 = "obc_cmd_poll obc_cmd_table s"
  let ?now = "obc_cmd_now_ticks ?s1" and ?frame = "obc_frames_run ?s1"
  have s1: "serviceable ?s1" by (rule poll_serves(1) [OF assms])
  note q = queue_run_serves [OF s1, of ?now ?frame]
  obtain v where "service_steps [Idle ?now] v = Some (service_of (task_command s))"
    using q(2) unfolding service_steps_append task_command_def Let_def
    by (auto split: option.splits simp del: service_steps.simps)
  then have "\<forall>e \<in># pending (cmd_q (task_command s)). ?now < tag e"
    by (auto simp: service_of_def split: if_splits)
  moreover have "?now = obc_cmd_now_ticks s" by (rule ticks_poll)
  ultimately show "served (obc_cmd_now_ticks s) (task_command s)" by (simp add: served_def)
  show "serviceable (task_command s)" using q(1) by (simp add: task_command_def Let_def)
qed

lemma dispatch_command:
  fixes s :: tasks_state
  assumes "serviceable s" and "dispatch flight_table 4 frame s = (Ret (), s')"
  shows "served (obc_cmd_now_ticks s) s'"
proof -
  have i: "4 < length flight_table" by (simp add: obc_task_count_eq)
  have f4: "task_fn (flight_table ! 4) = Some task_command"
    "reset_fn (flight_table ! 4) = Some (\<lambda>s. s\<lparr>cmd_q := obc_cmd_queue_init (cmd_q s)\<rparr>)"
    by (simp_all add: obc_task_table_def)
  obtain g t s3 over rung where g: "task_fn (flight_table ! 4) = Some g" "cmd_clock t = cmd_clock s"
    "cmd_clock s3 = cmd_clock (g t)" "quiet s3 = quiet s"
    "dispatch flight_table 4 frame s =
      (if over then obc_recover_escalate flight_table rung (of_nat 4) frame s3 else (Ret (), s3))"
    by (rule dispatch_clock [of 4 s frame]) auto
  have t: "serviceable t" "obc_cmd_now_ticks t = obc_cmd_now_ticks s"
    using g(2) assms(1) service_cong [of t s] by (simp_all add: cmd_clock_def)
  have "cmd_side s3 = cmd_side (task_command t)" using g(1,3) f4(1) by (simp add: cmd_clock_def)
  then have s3: "served (obc_cmd_now_ticks s) s3" "serviceable s3"
    using command_serves [OF t(1)] t(2) served_cong [of s3 "task_command t"] service_cong [of s3 "task_command t"] by simp_all
  show ?thesis
  proof (cases over)
    case False
    then show ?thesis using s3 g(5) assms(2) by simp
  next
    case True
    then have e: "obc_recover_escalate flight_table rung (of_nat 4) frame s3 = (Ret (), s')" using g(5) assms(2) by simp
    have same: "served (obc_cmd_now_ticks s) s'" if "cmd_clock s' = cmd_clock s3"
      using that s3(1) served_cong [of s' s3] by (simp add: cmd_clock_def)
    show ?thesis
    proof (cases rule: flight.escalate_branches [OF i e])
      case (1 d x r)
      show ?thesis by (rule same) (simp add: 1(3))
    next
      case (2 h y d r)
      have "length (obc_cmd_queue (cmd_q s3)) = OBC_CMD_QUEUE_LEN" using s3(2) by (simp add: serviceable_def wf_queue_def)
      moreover have "h = (\<lambda>s. s\<lparr>cmd_q := obc_cmd_queue_init (cmd_q s)\<rparr>)" using 2(3) f4(2) by simp
      moreover have "cmd_q (log_suspension (of_nat 4) d r s3) = cmd_q s3"
        using side_log [of "of_nat 4" d r s3] by (simp only: cmd_side_def prod.inject)
      ultimately have "length (obc_cmd_queue (cmd_q s3)) = OBC_CMD_QUEUE_LEN \<and> cmd_q s' = obc_cmd_queue_init (cmd_q s3)"
        using 2(4) by (simp del: log_suspension_def)
      then show ?thesis using queue_init_empty(2) by (simp add: served_def)
    next
      case 3
      then show ?thesis by (intro same) simp
    next
      case (4 r)
      then show ?thesis by (intro same) simp
    next
      case (5 h)
      then show ?thesis by simp
    qed
  qed
qed

section \<open>A frame\<close>

lemma dispatch_loop_append:
  "dispatch_loop table frame (is @ js) d r s =
    (case dispatch_loop table frame is d r s of
       (Reset, s') \<Rightarrow> (Reset, s') | (Ret (d', r'), s') \<Rightarrow> dispatch_loop table frame js d' r' s')"
  by (induction "is" arbitrary: d r s) (auto split: prod.splits flow.splits)

lemma loop_other:
  fixes s :: tasks_state
  assumes "\<forall>i \<in> set is. i < 4" and "dispatch_loop flight_table frame is d r s = (Ret dr, s')"
  shows "cmd_clock s' = cmd_clock s \<and> (obc_recover_is_suspended 4 frame s' \<longrightarrow> obc_recover_is_suspended 4 frame s)"
  using assms
proof (induction "is" arbitrary: d r s)
  case Nil
  then show ?case by simp
next
  case (Cons i "is")
  obtain sf s1 where s1: "obc_mode_is_safe s = (sf, s1)" by fastforce
  have v: "cmd_clock s1 = cmd_clock s" "obc_recover_is_suspended 4 frame s1 = obc_recover_is_suspended 4 frame s"
    using clock_reads(1) [of s] kept_is_safe(2) [of s] s1 by (simp_all add: obc_recover_is_suspended_def quiet_def)
  obtain fl s2 where s2: "dispatch flight_table i frame s1 = (fl, s2)" by fastforce
  have i: "i < 4" and rest: "\<forall>i \<in> set is. i < 4" using Cons.prems(1) by simp_all
  obtain d' r' t where l: "dispatch_loop flight_table frame is d' r' t = (Ret dr, s')" and t: "t \<in> {s, s1} \<or> fl = Ret () \<and> t = s2"
    using Cons.prems(2) s1 s2 by (auto split: if_splits flow.splits)
  show ?case using Cons.IH [OF rest l] t v dispatch_other(1) [OF i, of frame s1 s2]
      dispatch_other(2) [OF i, of frame s1 s2 frame] s2 by auto
qed

lemma last_row:
  fixes s :: tasks_state
  assumes "serviceable s" and "\<not> obc_recover_is_suspended 4 frame s"
    and "dispatch_loop flight_table frame [4] d r s = (Ret dr, s')"
  shows "served (obc_cmd_now_ticks s) s'"
proof -
  obtain sf s1 where s1: "obc_mode_is_safe s = (sf, s1)" by fastforce
  have v: "cmd_clock s1 = cmd_clock s" "\<not> obc_recover_is_suspended 4 frame s1"
    using clock_reads(1) [of s] kept_is_safe(2) [of s] s1 assms(2) by (simp_all add: obc_recover_is_suspended_def quiet_def)
  have row: "period_frames (flight_table ! 4) = 1" "essential (flight_table ! 4) = 1"
    by (simp_all add: obc_task_table_def task_consts)
  have "dispatch flight_table 4 frame s1 = (Ret (), s')"
    using assms(3) s1 v(2) row by (auto split: flow.splits prod.splits)
  moreover have "serviceable s1" "obc_cmd_now_ticks s1 = obc_cmd_now_ticks s"
    using v(1) service_cong [of s1 s] assms(1) by (simp_all add: cmd_clock_def)
  ultimately show ?thesis using dispatch_command [of s1 frame s'] by simp
qed

lemma rest_of_frame:
  fixes s :: tasks_state
  assumes "sched_now 0 frame (feed_if_earned flight_table frame d r s) = (st, now, s2)"
  shows "cmd_side s2 = cmd_side s"
    "idle_loop frame dl 0 now (note_slack frame now dl s2) = (st', now', s3) \<Longrightarrow> cmd_side s3 = cmd_side s"
proof -
  have "cmd_side (feed_if_earned flight_table frame d r s) = cmd_side s"
    using still.watchdog_steps(1) [where s = s] by (simp add: feed_if_earned_def)
  then show s2: "cmd_side s2 = cmd_side s"
    using still.sched_now_steps [where s = "feed_if_earned flight_table frame d r s" and x = 0 and frame = frame] assms by simp
  show "cmd_side s3 = cmd_side s" if "idle_loop frame dl 0 now (note_slack frame now dl s2) = (st', now', s3)"
    using still.idle_loop_steps [where s = "note_slack frame now dl s2" and frame = frame and deadline = dl and guard = 0 and now = now]
      still.note_slack_steps [where s = s2 and frame = frame and now = now and deadline = dl] s2 that by simp
qed

section \<open>Properties\<close>

text \<open>
  C13: a command runs on time. In every frame in which the command task is not suspended,
  nominal or degraded, whatever arrives on the link and whatever the other tasks do or cost, a
  frame that does not reset the machine ends with nothing due left in the queue: every command
  whose time tag had come by the start of the frame, those that arrived in it included, has
  been executed in it or was forgotten by a reset of the command subsystem.
\<close>

theorem frame_leaves_nothing_due:
  fixes s :: tasks_state
  assumes "serviceable s" and "\<not> obc_recover_is_suspended 4 frame s"
    and "frame_step obc_task_table frame start s = (Ret st, s')"
  shows "\<forall>e \<in># pending (cmd_q s'). ucast start < tag e"
proof -
  let ?s0 = "s\<lparr>obc_cmd_now_ticks := ucast start\<rparr>"
  have s0: "serviceable ?s0" "obc_cmd_now_ticks ?s0 = ucast start" "\<not> obc_recover_is_suspended 4 frame ?s0"
    using service_cong [of ?s0 s] assms(1,2) by (simp_all add: cmd_side_def obc_recover_is_suspended_def)
  have rows: "[0..<length flight_table] = [0..<4] @ [4]" by (simp add: obc_task_count_eq upt_rec)
  obtain fl s1 where l: "dispatch_loop flight_table frame ([0..<4] @ [4]) 0 0 ?s0 = (fl, s1)" by fastforce
  then obtain nd nr where fl: "fl = Ret (nd, nr)"
    using assms(3) unfolding frame_step_def rows Let_def l prod.case by (cases fl) auto
  note step = assms(3) [unfolded frame_step_def rows Let_def l fl prod.case flow.case]
  obtain d r s4 where l4: "dispatch_loop flight_table frame [0..<4] 0 0 ?s0 = (Ret (d, r), s4)"
    "dispatch_loop flight_table frame [4] d r s4 = (Ret (nd, nr), s1)"
    using l fl unfolding dispatch_loop_append by (cases "dispatch_loop flight_table frame [0..<4] 0 0 ?s0")
      (auto simp del: dispatch_loop.simps split: flow.splits)
  have s4: "cmd_clock s4 = cmd_clock ?s0" "\<not> obc_recover_is_suspended 4 frame s4"
    using loop_other [OF _ l4(1)] s0(3) by auto
  then have "serviceable s4" "obc_cmd_now_ticks s4 = ucast start"
    using service_cong [of s4 ?s0] s0(1,2) by (simp_all add: cmd_clock_def)
  then have s1: "served (ucast start) s1" using last_row [OF _ s4(2) l4(2)] by simp
  obtain st2 now s2 where n: "sched_now 0 frame (feed_if_earned flight_table frame nd nr s1) = (st2, now, s2)"
    by (metis prod_cases3)
  obtain st3 now3 s3 where m: "idle_loop frame (start + ucast OBC_FRAME_TICKS) 0 now
      (note_slack frame now (start + ucast OBC_FRAME_TICKS) s2) = (st3, now3, s3)" by (metis prod_cases3)
  have "s' \<in> {s2, s3, s3\<lparr>obc_frames_run := obc_frames_run s3 + 1\<rparr>}"
    using step unfolding n prod.case m by (auto split: if_splits)
  then have "cmd_side s' = cmd_side s1"
    using rest_of_frame(1) [OF n] rest_of_frame(2) [OF n m] by (auto simp: cmd_side_def)
  then show ?thesis using s1 served_cong [of s' s1] by (simp add: served_def)
qed

text \<open>A machine out of resets, whose queue holds a command that is due and one that is not.\<close>

definition due_tasks :: tasks_state where
  "due_tasks = boot_record_write 5 1 (ready_tasks\<lparr>cmd_q := two_queued, s_suspended_task := 0xFFFFFFFF\<rparr>)"

theorem frame_leaves_nothing_due_witness:
  "{# e \<in># pending (cmd_q (snd (frame_step obc_task_table 0 10 due_tasks))). tag e \<le> 10 #} = {#}"
proof -
  have "\<forall>i \<in> {0, 1, 2, 3}. sl_occupied (obc_cmd_queue two_queued ! i) \<noteq> 0 \<longrightarrow>
      lookup obc_cmd_table (sl_opcode (obc_cmd_queue two_queued ! i)) \<noteq> None" by code_simp
  then have "\<forall>e \<in># pending two_queued. lookup obc_cmd_table (fst e) \<noteq> None"
    by (auto simp: pending_nth set_held entry_of_def OBC_CMD_QUEUE_LEN_def numeral_eq_Suc less_Suc_eq)
  then have s: "serviceable due_tasks"
    using wf_two_queued by (simp add: due_tasks_def serviceable_def boot_record_write_def)
  have n: "\<not> obc_recover_is_suspended 4 0 due_tasks"
    by (simp add: due_tasks_def obc_recover_is_suspended_def boot_record_write_def)
  have "out_of_resets due_tasks"
    by (simp add: due_tasks_def out_of_resets_def boot_record_write_def obc_recover_short_boots_def
        OBC_SHORT_BOOT_LIMIT_def)
  then obtain st where "frame_step obc_task_table 0 10 due_tasks = (Ret st, snd (frame_step obc_task_table 0 10 due_tasks))"
    using no_reset_frame by (metis flow.exhaust prod.collapse)
  from frame_leaves_nothing_due [OF s n this] show ?thesis
    by (intro multiset_eqI) (auto simp: count_eq_zero_iff not_le)
qed

end
