(* ===== verification/Arming.thy ===== *)
theory Arming
  imports CmdFrame
begin

text \<open>
  How long an arming lives: the arming state of \<^verbatim>\<open>flight/cmd/queue.c\<close> over any history of the
  command path. \<open>arming_history\<close> is everything that can happen to it between two arm commands, with
  the frames in which the queue was run and the resets of the command subsystem beside it.
\<close>

section \<open>Histories\<close>

datatype arming_event =
    Ran u32   \<comment> \<open>the queue was run in this frame\<close>
  | Forgot    \<comment> \<open>the command subsystem was reset\<close>

inductive arming_history ::
  "'a cmd_state_scheme \<Rightarrow> arming_event list \<Rightarrow> 'a cmd_state_scheme \<Rightarrow> bool" for s where
  begins: "arming_history s [] s"
| ingests: "arming_history s evs t \<Longrightarrow> obc_cmd_ingest obc_cmd_table fp len reason t = (st, reason', u) \<Longrightarrow>
    arming_history s evs u"
| polls: "arming_history s evs t \<Longrightarrow> arming_history s evs (obc_cmd_poll obc_cmd_table t)"
| executes: "arming_history s evs t \<Longrightarrow> unarmed_run now (cmd_q t) \<Longrightarrow>
    arming_history s (evs @ [Ran frame]) (t\<lparr>cmd_q := obc_cmd_queue_run obc_cmd_table now frame (cmd_q t)\<rparr>)"
| forgets: "arming_history s evs t \<Longrightarrow>
    arming_history s (evs @ [Forgot]) (t\<lparr>cmd_q := obc_cmd_queue_init (cmd_q t)\<rparr>)"

section \<open>Ingests and polls leave the arming alone\<close>

definition arming_is :: "u32 \<times> u32 \<times> u32 \<Rightarrow> 'a cmd_state_scheme \<Rightarrow> bool" where
  "arming_is a s \<longleftrightarrow> wf_queue (cmd_q s) \<and> arming (cmd_q s) = a"

lemma put_wf:
  assumes "wf_queue q"
  shows "wf_queue (snd (obc_cmd_queue_put op w a c q))"
proof (cases "length (held q) < OBC_CMD_QUEUE_LEN")
  case True
  then show ?thesis using put_ok [OF assms, of op w a c] by auto
next
  case False
  then show ?thesis using put_full held_le [of q] assms by simp
qed

lemma arming_ingest:
  assumes "obc_cmd_ingest table fp len reason s = (st, reason', s')" and "arming_is a s"
  shows "arming_is a s'"
proof (cases "s_table_ok s = 0 \<or> fp = None")
  case True
  then show ?thesis using assms by (simp add: ingest_off)
next
  case False
  then obtain frame where f: "fp = Some frame" and ok: "s_table_ok s \<noteq> 0" by auto
  show ?thesis
  proof (cases "st = OBC_OK")
    case True
    then have "s' = accept_frame frame (count_examined s)" using ingest_accepted(3) assms(1) f by blast
    then show ?thesis using assms(2) by (simp add: arming_is_def accept_frame_def arming_put put_wf)
  next
    case False
    have "cmd_q s' = cmd_q s"
      using same_but_counters_sel(1) [OF refuse_effect(3) [OF ingest_refused(2) [OF assms(1) [unfolded f] False ok]]]
      by simp
    then show ?thesis using assms(2) by (simp add: arming_is_def)
  qed
qed

lemma arming_poll:
  assumes "arming_is a s"
  shows "arming_is a (obc_cmd_poll table s)"
proof -
  obtain taken s1 where p: "poll_loop OBC_CMD_RX_BYTES table 0 s = (taken, s1)" by fastforce
  have "arming_is a (snd (poll_loop OBC_CMD_RX_BYTES table 0 s))"
    by (rule poll_loop_keeps [where P = "arming_is a", OF assms arming_ingest]) (simp_all add: arming_is_def)
  then have k: "arming_is a s1" using p by simp
  obtain st out s2 where r: "refuse OBC_CMD_REJECT_LENGTH None (count_examined (s1\<lparr>s_fill := 0\<rparr>)) = (st, out, s2)"
    by (metis prod_cases3)
  have "cmd_q s2 = cmd_q s1" using same_but_counters_sel(1) [OF refuse_effect(3) [OF r]] by simp
  then show ?thesis using k assms p r by (simp add: obc_cmd_poll_def count_examined_def arming_is_def)
qed

section \<open>The life of an arming\<close>

definition lapsed :: "u32 \<Rightarrow> arming_event list \<Rightarrow> bool" where
  "lapsed until evs \<longleftrightarrow> Forgot \<in> set evs \<or> (\<exists>frame. until \<le> frame \<and> Ran frame \<in> set evs)"

lemma lapsed_simps [simp]:
  "\<not> lapsed until []" "lapsed until (evs @ [Forgot])"
  "lapsed until (evs @ [Ran frame]) \<longleftrightarrow> lapsed until evs \<or> until \<le> frame"
  by (auto simp: lapsed_def)

definition forgotten :: "queue_st \<Rightarrow> bool" where
  "forgotten q \<longleftrightarrow> (\<exists>until. arming q = (OBC_CMD_ARM_NONE, until, 0))"

lemma forgotten_run:
  assumes "wf_queue q" and "unarmed_run now q" and "forgotten q"
  shows "forgotten (obc_cmd_queue_run obc_cmd_table now frame q)"
  using arming_unarmed_run [OF assms(1,2)] assms(3) by (fastforce simp: forgotten_def)

lemma init_keeps_wf: "wf_queue q \<Longrightarrow> wf_queue (obc_cmd_queue_init q)"
  by (simp add: wf_queue_def held_def obc_cmd_queue_init_def empty_slot_def cong: filter_cong)

lemma init_forgets: "arming q = (x, y, 0) \<Longrightarrow> arming (obc_cmd_queue_init q) = (OBC_CMD_ARM_NONE, 0, 0)"
  by (simp add: arming_def obc_cmd_queue_init_def)

text \<open>Along a history an arming is exactly what it was until it lapses, and gone from there on.\<close>

lemma arming_lives:
  assumes "arming_history s evs t" and "arming_is (target, until, 0) s"
  shows "\<exists>u. arming_is (if lapsed until evs then OBC_CMD_ARM_NONE else target, u, 0) t \<and>
    (lapsed until evs \<or> u = until)"
  using assms(1)
proof induction
  case begins
  then show ?case using assms(2) by simp
next
  case (ingests evs t fp len reason st reason' u)
  then show ?case using arming_ingest by blast
next
  case (polls evs t)
  then show ?case using arming_poll by blast
next
  case (executes evs t now frame)
  then obtain u where u: "wf_queue (cmd_q t)"
    "arming (cmd_q t) = (if lapsed until evs then OBC_CMD_ARM_NONE else target, u, 0)" "lapsed until evs \<or> u = until"
    by (auto simp: arming_is_def)
  show ?case
    using queue_run_keeps(1) [OF u(1)] arming_unarmed_run [OF u(1) executes.hyps(2) u(2)] u(3)
    by (auto simp: arming_is_def)
next
  case (forgets evs t)
  then show ?case using init_keeps_wf init_forgets by (fastforce simp: arming_is_def)
qed

section \<open>Properties\<close>

text \<open>
  C39: an arming lasts four frames. A run of the queue that executes one arm command leaves its
  argument armed. From there on, whatever frames are ingested, polled for, refused, accepted and
  executed, the armed command among them, it stays armed until the queue is run in the fourth
  frame after or later, and is gone from then on; nothing else ends it but a reset of the
  command subsystem, and only another arm command, which the history excludes, moves it.
\<close>

theorem arming_expires_by_frame_only:
  assumes "wf_queue (cmd_q s)" and "arms now (cmd_q s) target" and "target \<noteq> 0"
    and "arming_history (s\<lparr>cmd_q := obc_cmd_queue_run obc_cmd_table now frame (cmd_q s)\<rparr>) evs t"
  shows "obc_cmd_armed_opcode (cmd_q t) =
    (if Forgot \<in> set evs \<or> (\<exists>g. frame + 4 \<le> g \<and> Ran g \<in> set evs) then OBC_CMD_ARM_NONE else target)"
proof -
  have "arming_is (target, frame + 4, 0) (s\<lparr>cmd_q := obc_cmd_queue_run obc_cmd_table now frame (cmd_q s)\<rparr>)"
    using queue_run_keeps(1) [OF assms(1)] arming_arming_run [OF assms(1-3)]
    by (simp add: arming_is_def OBC_CMD_ARM_FRAMES_def)
  from arming_lives [OF assms(4) this] show ?thesis by (auto simp: lapsed_def arming_is_def arming_def)
qed

text \<open>
  The queue of \<open>two_queued\<close> holds a set command for tick 9 and an arm of the safe command for
  tick 20. Run in frame 3 at tick 30 it arms; runs in frames 4 to 6 leave it armed, one in
  frame 7 does not.
\<close>

definition armed_cmd :: cmd_state where
  "armed_cmd = ready_cmd\<lparr>cmd_q := obc_cmd_queue_run obc_cmd_table 30 3 two_queued\<rparr>"

fun run_in_frames :: "u32 list \<Rightarrow> cmd_state \<Rightarrow> cmd_state" where
  "run_in_frames [] s = s"
| "run_in_frames (f # fs) s = run_in_frames fs (s\<lparr>cmd_q := obc_cmd_queue_run obc_cmd_table 40 f (cmd_q s)\<rparr>)"

lemma empty_unarmed: "held q = [] \<Longrightarrow> unarmed_run now q"
  by (simp add: unarmed_run_def due_def)

lemma empty_stays: "wf_queue q \<Longrightarrow> held q = [] \<Longrightarrow> held (obc_cmd_queue_run obc_cmd_table now f q) = []"
  using arg_cong [OF queue_run_keeps(2), of q size now f] by (simp add: pending_def)

lemma run_in_frames_history:
  assumes "arming_history s evs t" and "wf_queue (cmd_q t)" and "held (cmd_q t) = []"
  shows "arming_history s (evs @ map Ran fs) (run_in_frames fs t)"
  using assms
proof (induction fs arbitrary: evs t)
  case (Cons f fs)
  let ?t = "t\<lparr>cmd_q := obc_cmd_queue_run obc_cmd_table 40 f (cmd_q t)\<rparr>"
  have "arming_history s (evs @ [Ran f]) ?t"
    by (rule arming_history.executes [OF Cons.prems(1) empty_unarmed [OF Cons.prems(3)]])
  from Cons.IH [OF this] show ?case
    using queue_run_keeps(1) [OF Cons.prems(2)] empty_stays [OF Cons.prems(2,3)] by simp
qed simp

theorem arming_expires_by_frame_only_witness:
  "obc_cmd_armed_opcode (cmd_q (run_in_frames [4, 5, 6] armed_cmd)) = 0x13 \<and>
   obc_cmd_armed_opcode (cmd_q (run_in_frames [4, 5, 6, 7] armed_cmd)) = OBC_CMD_ARM_NONE"
proof -
  let ?s = "ready_cmd\<lparr>cmd_q := two_queued\<rparr>"
  have "held (obc_cmd_queue_run obc_cmd_table 30 3 two_queued) = []" by code_simp
  then have h: "arming_history armed_cmd (map Ran fs) (run_in_frames fs armed_cmd)" for fs
    using run_in_frames_history [OF arming_history.begins, of armed_cmd fs] queue_run_keeps(1) [OF wf_two_queued]
    by (simp add: armed_cmd_def)
  have "due 30 two_queued = {0, 1}" "sl_opcode (obc_cmd_queue two_queued ! 0) = 0x12"
    "sl_arg (obc_cmd_queue two_queued ! 0) = 0x13" "sl_opcode (obc_cmd_queue two_queued ! 1) = 0x11"
    by code_simp+
  then have a: "arms 30 (cmd_q ?s) 0x13" by (simp add: arms_def OP_ARM_def)
  have w: "wf_queue (cmd_q ?s)" using wf_two_queued by simp
  have "arming_history (?s\<lparr>cmd_q := obc_cmd_queue_run obc_cmd_table 30 3 (cmd_q ?s)\<rparr>) (map Ran fs)
      (run_in_frames fs armed_cmd)" for fs
    using h [of fs] by (simp add: armed_cmd_def)
  note lives = arming_expires_by_frame_only [OF w a _ this]
  have "Forgot \<notin> set (map Ran fs)" for fs by auto
  with lives [of "[4, 5, 6]"] lives [of "[4, 5, 6, 7]"]
  have "obc_cmd_armed_opcode (cmd_q (run_in_frames [4, 5, 6] armed_cmd)) =
      (if \<exists>g. 3 + 4 \<le> g \<and> Ran g \<in> set (map Ran [4, 5, 6]) then OBC_CMD_ARM_NONE else 0x13)"
    "obc_cmd_armed_opcode (cmd_q (run_in_frames [4, 5, 6, 7] armed_cmd)) =
      (if \<exists>g. 3 + 4 \<le> g \<and> Ran g \<in> set (map Ran [4, 5, 6, 7]) then OBC_CMD_ARM_NONE else 0x13)"
    by (simp_all only:) simp_all
  moreover have "\<not> (\<exists>g :: u32. 3 + 4 \<le> g \<and> Ran g \<in> set (map Ran [4, 5, 6]))"
    by (auto simp: word_le_nat_alt)
  moreover have "\<exists>g :: u32. 3 + 4 \<le> g \<and> Ran g \<in> set (map Ran [4, 5, 6, 7])" by (rule exI [of _ 7]) simp
  ultimately show ?thesis by (simp only: if_True if_False simp_thms)
qed

end
