(* ===== verification/Spec2Isabelle.thy ===== *)
theory Spec2Isabelle
  imports Startup Mission StoppedClock SubstituteConsole Asserts Uplink Timely Arming
begin

text \<open>
  A verification development for the flight software of OBC-Zero
  (\<^verbatim>\<open>src/flight\<close>), a bare-metal on-board computer: a cyclic executive over a static
  task table, a critical-state store that votes, safe mode, an escalation ladder with a
  hardware watchdog, a command path and a telemetry path.

  \<^bold>\<open>The parts and how they call each other.\<close> The boot code and trap handler
  (\<^verbatim>\<open>boot/start.S\<close>, \<^verbatim>\<open>boot/trap.S\<close>) surround \<^verbatim>\<open>core/main.c\<close>, which runs one window of
  the executive \<^verbatim>\<open>core/sched.c\<close>. The executive dispatches the table of \<^verbatim>\<open>core/tasks.c\<close>,
  reads the clock through \<^verbatim>\<open>hal/mtime.c\<close>, votes on the mode through \<^verbatim>\<open>core/mode.c\<close> and
  \<^verbatim>\<open>core/critical.c\<close>, and climbs the ladder of \<^verbatim>\<open>core/recover.c\<close> on an overrun. The tasks
  scrub the critical copies, ingest and run commands (\<^verbatim>\<open>cmd/frame.c\<close>, \<^verbatim>\<open>cmd/queue.c\<close>,
  \<^verbatim>\<open>cmd/table.c\<close>) and sample and send telemetry (\<^verbatim>\<open>tlm/sensor.c\<close>, \<^verbatim>\<open>tlm/frame.c\<close>) over
  \<^verbatim>\<open>hal/uart.c\<close>. \<^verbatim>\<open>core/fault.c\<close> carries the cause of a reset to the next boot.

  \<^bold>\<open>Theories.\<close>
  \<^item> \<open>Prelude\<close>: integer types, \<open>obc_status\<close> (\<^verbatim>\<open>core/status.h\<close>), pointers as options,
    \<open>flow\<close> (a call that returns, or a machine reset), saturating counters, word lemmas.
  \<^item> \<open>Hw\<close>: the bus. A device is a function from the history of accesses to the value read,
    so every driver lemma holds for every device; \<open>writes_to\<close> and \<open>reads_of\<close> are what left
    on, or was read from, one register.
  \<^item> \<open>Mtime\<close>: \<^verbatim>\<open>obc_mtime_read\<close>; exactness, settling and failure of the three-read loop.
  \<^item> \<open>Uart\<close>: the port driver; bounded polling, and decimal printing.
  \<^item> \<open>Commit\<close>: the interface of a record written magic-off, payload, checksum, magic-on;
    the fault, mode and boot records interpret it.
  \<^item> \<open>Critical\<close>: three copies with distinct seeds, vote, repair, scrub; the interface of a
    voted word, interpreted on the mode word.
  \<^item> \<open>Fault\<close>: the fault record, and \<^verbatim>\<open>trap.S\<close> instruction by instruction on a small
    register machine.
  \<^item> \<open>Mode\<close>: safe mode, its record, the restore at boot; \<open>mode_step\<close> is everything that
    can happen to the mode, memory upsets and resets included.
  \<^item> \<open>Recover\<close>: watchdog registers, short-boot record, suspension log, the ladder.
  \<^item> \<open>Sensor\<close>: sampling, refining a specification on the history of readings.
  \<^item> \<open>Queue\<close>: the time-tagged queue as a bounded buffer of a multiset, the run and the arming.
  \<^item> \<open>Layout\<close>: the interface of a descriptor-table audit; both frame formats interpret it.
  \<^item> \<open>CmdFrame\<close>: uplink frame, ingest, poll, init; \<open>cmd_step\<close> is everything the outside can
    do to the command path, resets of its subsystem included. \<open>Arming\<close>: the life of an arming over
    any such history, four frames long.
  \<^item> \<open>Service\<close>: the command path as an abstract service of accepted, executed and forgotten
    commands; \<open>service_run\<close> is everything between two initialisations, with its history, and
    the histories are the service's. \<open>Commanding\<close>: a window of the executive is such a run,
    and no frame is accepted twice within a boot (\<open>boot_step\<close>).
    \<open>Timely\<close>: a frame leaves no due command behind.
  \<^item> \<open>Uplink\<close>: the ground's encoding of a command and a link that delivers bytes; a poll of whole
    frames is their ingestion.
  \<^item> \<open>Sched\<close>: the executive over any task table. The locale \<open>task_set\<close> is the contract between
    the executive and its tasks: what a task may not touch.
  \<^item> \<open>TlmFrame\<close>: packing, integrity word, emission, subsystem reset.
  \<^item> \<open>Tasks\<close>: the five tasks and the table, which interprets \<open>task_set\<close>.
  \<^item> \<open>Live\<close>: the tasks only continue the bus (locale \<open>live_task_set\<close>), hence a window ends on a
    clock that advances.
  \<^item> \<open>Nominal\<close>: what the tasks spend on calm ports (locale \<open>calm_task_set\<close>), hence the nominal
    window is exactly the table.
  \<^item> \<open>BootMain\<close>: \<^verbatim>\<open>core/main.c\<close>, the clock and timebase checks, the banner and the order of
    a boot. \<open>image\<close> holds what the linker and the build provide.
  \<^item> \<open>Boot\<close>: the nominal boot, from the startup code to the verdict.
  \<^item> \<open>Startup\<close>: \<^verbatim>\<open>boot/start.S\<close>, instruction by instruction: the loops end, what memory they
    leave, and the moment from which a trap can be taken.
  \<^item> \<open>Steps\<close>: what a relation between states must satisfy, step by step, to be carried through
    the executive (\<open>executive_steps\<close>) and through a whole boot (\<open>booting_steps\<close>, \<open>boot_steps\<close>).
  \<^item> \<open>Cut\<close>: boots that stop between two stages, or at a given frame, table entry and turn of the
    idle loop, where a trap or the watchdog may end them; every conclusion of \<open>Steps\<close> holds there.
  \<^item> \<open>Memory\<close>: the shape of the state (array lengths and indices), the first relation of
    that kind.
  \<^item> \<open>Mission\<close>: boots chained by \<open>mission_step\<close>, each parked, reset or cut, with devices,
    inputs, fault record and critical copies arbitrary at the start of each; the count of
    short boots and the mode record are the other relations.
  \<^item> \<open>StoppedClock\<close>: the window on a clock that has stopped.
  \<^item> \<open>Substitutes\<close>, \<open>SubstituteConsole\<close>, \<open>SubstituteExec\<close>, \<open>SubstituteSame\<close>: the deliberately changed copies under
    \<^verbatim>\<open>src/harness/broken\<close> that the tests are run against: what each copy changes, where it
    still agrees with the flight code, and which property of the flight code it breaks.
  \<^item> \<open>Asserts\<close>: the compile-time assertions of the task tables as predicates, and what a table
    that passes them does at run time.

  \<^bold>\<open>State.\<close> The C globals are fields of one record that grows along the imports
  (\<open>machine\<close>, \<open>mode_state\<close>, \<open>recover_state\<close>, \<open>cmd_state\<close>, \<open>sched_state\<close>, \<open>tlm_state\<close>,
  \<open>tasks_state\<close>); operations are functions on record schemes, so a lemma proved for a
  component holds inside every later state. The critical store, the queue and the sensors
  are records of their own, held in a field. C integers keep their width, except array
  indices and loop bounds that cannot wrap, which are \<open>nat\<close>.

  \<^bold>\<open>Loops.\<close> Every loop of the program is bounded by a constant, and its model counts what
  is left of the same constant: four attempts of a clock read, 256 refused polls of a
  transmission, 160 bytes of a poll, four passes of the queue, and 1024 * 8192
  iterations of the idle loop, which has its termination proof on the guard. The three
  loops of the startup code are bounded by the 16 KiB of RAM, 24596 instructions in all.
  No fuel is added to what the code has.

  \<^bold>\<open>Not modelled.\<close> The link script: what its symbols satisfy is the predicate \<open>linked\<close>.
  \<open>Startup\<close> sees memory as words and \<open>Fault\<close> the registers of the hart, while the C model has
  named variables: \<open>tasks_startup\<close> is stated from the section of each variable, not derived from
  the word level. A boot of a mission may be cut between two stages of \<open>obc_main\<close>, two
  table entries of a frame or two turns of the idle loop; a trap inside a task or inside a stage
  is covered only where a record is being written (the lemmas of \<open>Commit\<close>), in the startup code
  (\<open>Startup\<close>) and, at the next boot, by leaving the fault record arbitrary. The endless
  park at the end of \<^verbatim>\<open>core/main.c\<close> is where a run of \<open>obc_main\<close> ends. The Python harness
  under \<^verbatim>\<open>src/harness\<close> is left out, and so is a whole boot linked with one of the copies under
  \<^verbatim>\<open>src/harness/broken\<close>. The replay counter starts from zero at every boot, as in the code:
  \<open>Service\<close>, \<open>Arming\<close> and the replay guard of \<open>Commanding\<close> speak of one boot, between the
  initialisation and its end.

  \<^bold>\<open>Where the code and its comments part.\<close> The properties state what the code does. Rung 1
  suspends a task for its next due frame and rung 3 leaves the count of short boots to the next
  boot, whatever \<^verbatim>\<open>recover.h\<close> says (\<open>Recover\<close>); the trap handler does not clear a magic left by a
  record that was never consumed (\<open>Fault\<close>); a reset inside the entry into safe mode can be
  forgotten (\<open>Mode\<close>); a stopped clock is a timeout and not an overrun (\<open>StoppedClock\<close>); and an
  arming serves any number of critical commands until it expires (\<open>Arming\<close>).
\<close>

end
